(* ===== verification/Prelude.thy ===== *)
theory Prelude
  imports Main "HOL-Library.Word" "HOL-Library.Char_ord" "HOL-Library.List_Lexorder"
begin

text \<open>
  Shared vocabulary of the development: the machine integers of the Rust code, what the code uses
  of Rust's string library (\<open>trim\<close>, \<open>split_whitespace\<close>, the lexicographic order of strings), the
  two ways in which a Rust function can fail to return a value (a panic, or not returning at all),
  and the lemma collections that carry the proofs of the components.

  A Rust \<open>String\<close> is modelled as \<^typ>\<open>string\<close>, whose characters are the code points U+0000 to
  U+00FF.  On these the order of \<^typ>\<open>string\<close> (lexicographic by code point, from
  \<open>List_Lexorder\<close> and \<open>Char_ord\<close>) is Rust's order of strings, since comparing UTF-8 bytes and
  comparing code points agree.
\<close>

named_theorems token_simps \<open>how tokens are split off a line\<close>
named_theorems seg_simps \<open>reading segments and lines\<close>

type_synonym u64 = "64 word"
type_synonym usize = "64 word"

abbreviation u64_MAX :: u64 where
  "u64_MAX \<equiv> - 1"

text \<open>A computation that may panic.  Not returning at all is \<open>None\<close> of an option around it.\<close>

datatype 'a rust = Done 'a | Panic string

lemma map_rust_Done_iff: "map_rust f r = Done y \<longleftrightarrow> (\<exists>x. r = Done x \<and> f x = y)"
  by (cases r) auto

lemma map_sum_Inr_iff: "map_sum f g x = Inr y \<longleftrightarrow> (\<exists>z. x = Inr z \<and> g z = y)"
  by (cases x) auto

section \<open>Strings\<close>

text \<open>\<open>char::is_whitespace\<close> on the code points below U+0100.\<close>

definition is_whitespace :: "char \<Rightarrow> bool" where
  "is_whitespace c \<longleftrightarrow> (of_char c :: nat) \<in> {9, 10, 11, 12, 13, 32, 133, 160}"

definition newline :: char where
  "newline = CHR 0x0A"

definition trim :: "string \<Rightarrow> string" where
  "trim s = rev (dropWhile is_whitespace (rev (dropWhile is_whitespace s)))"

function split_whitespace :: "string \<Rightarrow> string list" where
  "split_whitespace s =
     (case dropWhile is_whitespace s of
        [] \<Rightarrow> []
      | c # cs \<Rightarrow> (c # takeWhile (\<lambda>x. \<not> is_whitespace x) cs)
                  # split_whitespace (dropWhile (\<lambda>x. \<not> is_whitespace x) cs))"
  by pat_completeness auto
termination
proof (relation "measure length")
  show "wf (measure length)" by simp
next
  fix s :: string and c cs
  assume *: "dropWhile is_whitespace s = c # cs"
  have "length (dropWhile (\<lambda>x. \<not> is_whitespace x) cs) \<le> length cs"
    by (rule length_dropWhile_le)
  also have "\<dots> < length (dropWhile is_whitespace s)"
    using * by simp
  also have "\<dots> \<le> length s"
    by (rule length_dropWhile_le)
  finally show "(dropWhile (\<lambda>x. \<not> is_whitespace x) cs, s) \<in> measure length"
    by simp
qed

declare split_whitespace.simps [simp del]

text \<open>A token is what \<open>split_whitespace\<close> yields: non-empty and free of white space.\<close>

definition is_token :: "string \<Rightarrow> bool" where
  "is_token w \<longleftrightarrow> w \<noteq> [] \<and> list_all (\<lambda>c. \<not> is_whitespace c) w"

lemma is_whitespace_simps [simp]:
  "is_whitespace newline" "is_whitespace CHR '' ''" "is_whitespace CHR 0x0A"
  by (simp_all add: is_whitespace_def newline_def)

lemma is_token_Cons:
  "is_token (c # cs) \<longleftrightarrow> \<not> is_whitespace c \<and> list_all (\<lambda>c. \<not> is_whitespace c) cs"
  by (simp add: is_token_def)

lemma nonws_word:
  assumes "\<forall>y \<in> set xs. \<not> is_whitespace y"
  shows "takeWhile (\<lambda>x. \<not> is_whitespace x) xs = xs"
    and "dropWhile (\<lambda>x. \<not> is_whitespace x) xs = []"
  using assms by (simp_all add: takeWhile_eq_all_conv dropWhile_eq_Nil_conv)

lemma split_whitespace_Nil [simp, token_simps]: "split_whitespace [] = []"
  by (simp add: split_whitespace.simps)

lemma split_whitespace_ws [simp, token_simps]:
  "is_whitespace c \<Longrightarrow> split_whitespace (c # s) = split_whitespace s"
  by (simp add: split_whitespace.simps [of "c # s"] split_whitespace.simps [of s])

lemma split_whitespace_nonws:
  "\<not> is_whitespace c \<Longrightarrow> split_whitespace (c # s) =
     (c # takeWhile (\<lambda>x. \<not> is_whitespace x) s)
       # split_whitespace (dropWhile (\<lambda>x. \<not> is_whitespace x) s)"
  by (simp add: split_whitespace.simps [of "c # s"])

lemma split_whitespace_token [simp, token_simps]:
  assumes "is_token w" and "is_whitespace c"
  shows "split_whitespace (w @ c # s) = w # split_whitespace s"
proof (cases w)
  case Nil
  with assms show ?thesis by (simp add: is_token_def)
next
  case (Cons x xs)
  with assms(1) have x: "\<not> is_whitespace x" and xs: "\<forall>y \<in> set xs. \<not> is_whitespace y"
    by (auto simp: is_token_Cons list_all_iff)
  from xs assms(2) have "takeWhile (\<lambda>x. \<not> is_whitespace x) (xs @ c # s) = xs"
    "dropWhile (\<lambda>x. \<not> is_whitespace x) (xs @ c # s) = c # s"
    by (simp_all add: takeWhile_append2 dropWhile_append2)
  with Cons x assms(2) show ?thesis
    by (simp add: split_whitespace_nonws)
qed

lemma split_whitespace_all_ws:
  "list_all is_whitespace s \<Longrightarrow> split_whitespace (s @ r) = split_whitespace r"
  by (induction s) auto

lemma split_whitespace_single [simp, token_simps]:
  assumes "is_token w" shows "split_whitespace w = [w]"
proof (cases w)
  case Nil
  with assms show ?thesis by (simp add: is_token_def)
next
  case (Cons x xs)
  with assms have x: "\<not> is_whitespace x" and xs: "\<forall>y \<in> set xs. \<not> is_whitespace y"
    by (auto simp: is_token_Cons list_all_iff)
  from Cons x show ?thesis
    by (simp add: split_whitespace_nonws nonws_word [OF xs])
qed

lemma split_whitespace_tokens: "w \<in> set (split_whitespace s) \<Longrightarrow> is_token w"
proof (induction s rule: split_whitespace.induct)
  case (1 s)
  show ?case
  proof (cases "dropWhile is_whitespace s")
    case Nil
    with "1.prems" show ?thesis by (simp add: split_whitespace.simps [of s])
  next
    case (Cons c cs)
    then have "\<not> is_whitespace c"
      by (metis dropWhile_eq_Cons_conv)
    then have "is_token (c # takeWhile (\<lambda>x. \<not> is_whitespace x) cs)"
      by (auto simp: is_token_Cons list_all_iff dest: set_takeWhileD)
    with "1" Cons show ?thesis
      by (auto simp: split_whitespace.simps [of s])
  qed
qed

lemma trim_eq_Nil_iff: "trim s = [] \<longleftrightarrow> list_all is_whitespace s"
proof -
  have "dropWhile is_whitespace (rev t) = [] \<longleftrightarrow> (\<forall>c \<in> set t. is_whitespace c)" for t
    by (simp add: dropWhile_eq_Nil_conv)
  then have "trim s = [] \<longleftrightarrow> (\<forall>c \<in> set (dropWhile is_whitespace s). is_whitespace c)"
    by (simp add: trim_def)
  also have "\<dots> \<longleftrightarrow> (\<forall>c \<in> set s. is_whitespace c)"
  proof
    assume *: "\<forall>c \<in> set (dropWhile is_whitespace s). is_whitespace c"
    have "takeWhile is_whitespace s @ dropWhile is_whitespace s = s" by simp
    then show "\<forall>c \<in> set s. is_whitespace c"
      using * by (metis Un_iff set_append set_takeWhileD)
  qed (auto dest: set_dropWhileD)
  finally show ?thesis by (simp add: list_all_iff)
qed

lemma split_whitespace_Nil_iff: "split_whitespace s = [] \<longleftrightarrow> list_all is_whitespace s"
proof
  assume "split_whitespace s = []"
  then have "dropWhile is_whitespace s = []"
    by (simp add: split_whitespace.simps [of s] split: list.splits)
  then show "list_all is_whitespace s"
    by (simp add: dropWhile_eq_Nil_conv list_all_iff)
next
  assume "list_all is_whitespace s"
  then show "split_whitespace s = []"
    using split_whitespace_all_ws [of s "[]"] by simp
qed

lemma split_whitespace_append_ws:
  "list_all is_whitespace r \<Longrightarrow> split_whitespace (s @ r) = split_whitespace s"
proof (induction s rule: split_whitespace.induct)
  case (1 s)
  let ?nw = "\<lambda>x. \<not> is_whitespace x"
  show ?case
  proof (cases "dropWhile is_whitespace s")
    case Nil
    then have "list_all is_whitespace s"
      by (simp add: dropWhile_eq_Nil_conv list_all_iff)
    with "1.prems" show ?thesis
      using split_whitespace_Nil_iff [of "s @ r"] split_whitespace_Nil_iff [of s] by simp
  next
    case (Cons c cs)
    then have dw: "dropWhile is_whitespace (s @ r) = c # cs @ r"
      by (metis append_Cons dropWhile_append1 dropWhile_eq_Nil_conv list.distinct(1))
    show ?thesis
    proof (cases "\<exists>x \<in> set cs. is_whitespace x")
      case True
      then have "takeWhile ?nw (cs @ r) = takeWhile ?nw cs"
        "dropWhile ?nw (cs @ r) = dropWhile ?nw cs @ r"
        by (auto simp: takeWhile_append1 dropWhile_append1)
      with Cons dw "1" show ?thesis
        by (simp add: split_whitespace.simps [of s] split_whitespace.simps [of "s @ r"])
    next
      case False
      then have "takeWhile ?nw (cs @ r) = cs" "dropWhile ?nw (cs @ r) = r"
        using "1.prems" by (cases r; simp add: takeWhile_append2 dropWhile_append2)+
      then have "split_whitespace (s @ r) = [c # cs]"
        using dw "1.prems"
        by (simp del: takeWhile_append dropWhile_append
            add: split_whitespace.simps [of "s @ r"] split_whitespace_Nil_iff)
      then show ?thesis
        using Cons False by (simp add: split_whitespace.simps [of s] nonws_word)
    qed
  qed
qed

text \<open>Trimming a line first, as the reference client does, does not change its segments.\<close>

lemma split_whitespace_trim [simp]: "split_whitespace (trim s) = split_whitespace s"
proof -
  let ?m = "dropWhile is_whitespace s"
  have s: "s = takeWhile is_whitespace s @ ?m" by simp
  have pre: "list_all is_whitespace (takeWhile is_whitespace s)"
    by (auto simp: list_all_iff dest: set_takeWhileD)
  have m: "?m = trim s @ rev (takeWhile is_whitespace (rev ?m))"
    by (metis rev_append rev_rev_ident takeWhile_dropWhile_id trim_def)
  have post: "list_all is_whitespace (rev (takeWhile is_whitespace (rev ?m)))"
    by (auto simp: list_all_iff dest: set_takeWhileD)
  have "split_whitespace s = split_whitespace ?m"
    using split_whitespace_all_ws [OF pre, of ?m] s by simp
  also have "\<dots> = split_whitespace (trim s)"
    using split_whitespace_append_ws [OF post, of "trim s"] m by simp
  finally show ?thesis by simp
qed

section \<open>Decimal numbers\<close>

text \<open>Decimal digits, as \<open>format!("{}", n)\<close> prints them.\<close>

fun digits :: "nat \<Rightarrow> string" where
  "digits n = (if n < 10 then [char_of (48 + n)] else digits (n div 10) @ [char_of (48 + n mod 10)])"

declare digits.simps [simp del]

text \<open>Reading a decimal number back.\<close>

definition undigits :: "string \<Rightarrow> nat" where
  "undigits s = foldl (\<lambda>a c. 10 * a + (of_char c - 48)) 0 s"

lemma undigits_snoc: "undigits (s @ [c]) = 10 * undigits s + (of_char c - 48)"
  by (simp add: undigits_def)

lemma undigits_digits: "undigits (digits n) = n"
proof (induction n rule: digits.induct)
  case (1 n)
  have d: "(of_char (char_of (48 + d) :: char) :: nat) = 48 + d" if "d < 10" for d
    using that by (simp add: of_char_of)
  show ?case
  proof (cases "n < 10")
    case True
    then show ?thesis by (simp add: digits.simps [of n] undigits_def d)
  next
    case False
    moreover have "n mod 10 < 10" by (rule mod_less_divisor) simp
    ultimately show ?thesis using 1 by (simp add: digits.simps [of n] undigits_snoc d)
  qed
qed

lemma length_digits: "0 < w \<Longrightarrow> n < 10 ^ w \<Longrightarrow> length (digits n) \<le> w"
proof (induction w arbitrary: n)
  case (Suc w)
  show ?case
  proof (cases "n < 10")
    case False
    with Suc.prems have "w \<noteq> 0" by (cases w) auto
    moreover have "n div 10 < 10 ^ w" using Suc.prems by (simp add: less_mult_imp_div_less mult.commute)
    ultimately have "length (digits (n div 10)) \<le> w" by (intro Suc.IH) auto
    with False show ?thesis by (simp add: digits.simps [of n])
  qed (simp add: digits.simps [of n])
qed simp

section \<open>Association lists with ascending keys\<close>

lemma alist_of_keys:
  "distinct (map fst xs) \<Longrightarrow> map (\<lambda>k. (k, the (map_of xs k))) (map fst xs) = xs"
  unfolding map_map by (rule map_idI) (auto simp: map_of_is_SomeI)

lemma sorted_alist_eqI:
  fixes xs ys :: "('a :: linorder \<times> 'b) list"
  assumes sorted: "sorted_wrt (<) (map fst xs)" "sorted_wrt (<) (map fst ys)"
    and eq: "map_of xs = map_of ys"
  shows "xs = ys"
proof -
  have "set (map fst xs) = set (map fst ys)"
    using eq by (metis dom_map_of_conv_image_fst list.set_map)
  with sorted have keys: "map fst xs = map fst ys"
    by (intro strict_sorted_equal) auto
  have dist: "distinct (map fst xs)" "distinct (map fst ys)"
    using sorted strict_sorted_iff by blast+
  have "xs = map (\<lambda>k. (k, the (map_of xs k))) (map fst xs)"
    using alist_of_keys [OF dist(1)] by (rule sym)
  also have "\<dots> = map (\<lambda>k. (k, the (map_of ys k))) (map fst ys)"
    unfolding keys eq by (rule refl)
  also have "\<dots> = ys"
    using dist(2) by (rule alist_of_keys)
  finally show ?thesis .
qed

end
