(* ===== verification/Errors.thy ===== *)
theory Errors
  imports Prelude
begin

text \<open>
  The unified error type of the runner (\<open>runner/src/error.rs\<close>): the enum, its \<open>Display\<close>
  implementation, and the \<open>From\<close> conversions the two macros generate, by which the \<open>?\<close> operator
  turns a library error into a \<open>RunnerError\<close>.
\<close>

datatype RunnerError =
    Io string
  | Parse string
  | Chan string
  | Join

fun fmt :: "RunnerError \<Rightarrow> string" where
  "fmt (Io msg) = ''io error: '' @ msg"
| "fmt (Parse msg) = ''parse error: '' @ msg"
| "fmt (Chan msg) = ''chan error: '' @ msg"
| "fmt Join = ''thread join error''"

text \<open>The library errors that are converted, each with its \<open>to_string\<close> text.\<close>

datatype std_error =
    IoError string
  | ParseBoolError string
  | ParseIntError string
  | ParseFloatError string
  | RecvError string
  | RecvTimeoutError string
  | SendError string

fun impl_from :: "std_error \<Rightarrow> RunnerError" where
  "impl_from (IoError s) = Io s"
| "impl_from (ParseBoolError s) = Parse s"
| "impl_from (ParseIntError s) = Parse s"
| "impl_from (ParseFloatError s) = Parse s"
| "impl_from (RecvError s) = Chan s"
| "impl_from (RecvTimeoutError s) = Chan s"
| "impl_from (SendError s) = Chan s"

text \<open>
  The text of an error names its class: errors of different classes never print alike, and within
  a class the message is kept.
\<close>

lemma fmt_inject: "fmt e = fmt e' \<longleftrightarrow> e = e'"
  by (cases e; cases e') auto

definition is_chan :: "RunnerError \<Rightarrow> bool" where
  "is_chan e = (case e of Chan _ \<Rightarrow> True | _ \<Rightarrow> False)"

lemma is_chan_simps [simp]:
  "\<not> is_chan (Io m)" "\<not> is_chan (Parse m)" "is_chan (Chan m)" "\<not> is_chan Join"
  by (simp_all add: is_chan_def)

end
