(* ===== verification/Ioapi.thy ===== *)
theory Ioapi
  imports Errors
begin

text \<open>
  The standard input/output workload interface (\<open>runner/src/ioapi.rs\<close>): the call and response
  types, how a call is written as a line, and how a response is read back from the output of a
  client process.

  A \<open>BufRead\<close> is the text still to be read, followed by the end of the input or by an I/O error.
  Functions that loop over \<open>read_line\<close> may not return, since \<open>read_line\<close> yields empty reads for
  ever at the end of the input: they are option valued, and \<open>None\<close> is not returning.
\<close>

section \<open>Calls and responses\<close>

datatype KvCall =
    CPut (call_key: string) (call_value: string)
  | CSwap (call_key: string) (call_value: string)
  | CGet (call_key: string)
  | CScan (call_start: string) (call_end: string)
  | CDelete (call_key: string)
  | CStop

datatype KvResp =
    RPut string bool
  | RSwap string "string option"
  | RGet string "string option"
  | RScan string string "(string \<times> string) list"
  | RDelete string bool
  | RStop

text \<open>
  An \<open>io::Write\<close> is the text written so far; writing fails for ever once the writer is broken (the
  reading end of the pipe is closed).
\<close>

record writer =
  wr_text :: string
  wr_fault :: "string option"

definition write_all :: "string \<Rightarrow> writer \<Rightarrow> string + writer" where
  "write_all s w =
     (case wr_fault w of
        Some e \<Rightarrow> Inl e
      | None \<Rightarrow> Inr (w\<lparr>wr_text := wr_text w @ s\<rparr>))"

text \<open>The line of a call.\<close>

fun call_line :: "KvCall \<Rightarrow> string" where
  "call_line (CPut key value) = ''PUT '' @ key @ '' '' @ value @ [newline]"
| "call_line (CSwap key value) = ''SWAP '' @ key @ '' '' @ value @ [newline]"
| "call_line (CGet key) = ''GET '' @ key @ [newline]"
| "call_line (CScan key_start key_end) = ''SCAN '' @ key_start @ '' '' @ key_end @ [newline]"
| "call_line (CDelete key) = ''DELETE '' @ key @ [newline]"
| "call_line CStop = ''STOP'' @ [newline]"

definition into_write :: "KvCall \<Rightarrow> writer \<Rightarrow> RunnerError + writer" where
  "into_write call w = map_sum (\<lambda>e. impl_from (IoError e)) id (write_all (call_line call) w)"

fun update_info :: "KvCall \<Rightarrow> (string \<times> string option) option" where
  "update_info (CPut key value) = Some (key, Some value)"
| "update_info (CSwap key value) = Some (key, Some value)"
| "update_info (CDelete key) = Some (key, None)"
| "update_info _ = None"

section \<open>Readers\<close>

record reader =
  rd_input :: string
  rd_fault :: "string option"

text \<open>The number of bytes of a string in UTF-8.\<close>

definition utf8_len :: "string \<Rightarrow> nat" where
  "utf8_len s = (\<Sum>c\<leftarrow>s. if (of_char c :: nat) < 128 then 1 else 2)"

text \<open>
  \<open>BufRead::read_line\<close>: appends the next line, with its newline, to the buffer; an unterminated
  rest is a line of its own when the input ends and is lost when reading it fails.
\<close>

definition read_line :: "reader \<Rightarrow> string \<Rightarrow> string + (nat \<times> string \<times> reader)" where
  "read_line rd buffer =
     (let line = takeWhile (\<lambda>c. c \<noteq> newline) (rd_input rd);
          rest = dropWhile (\<lambda>c. c \<noteq> newline) (rd_input rd)
      in case rest of
           nl # rest' \<Rightarrow>
             Inr (utf8_len (line @ [nl]), buffer @ line @ [nl], rd\<lparr>rd_input := rest'\<rparr>)
         | [] \<Rightarrow>
             (case rd_fault rd of
                Some e \<Rightarrow> Inl e
              | None \<Rightarrow> Inr (utf8_len line, buffer @ line, rd\<lparr>rd_input := []\<rparr>)))"

text \<open>
  The loop that skips empty lines.  It does not clear the buffer between two reads, and at the end of
  the input it spins.  The reference client has the same loop around its own \<open>read_line\<close>.
\<close>

partial_function (option) read_nonblank ::
  "reader \<Rightarrow> string \<Rightarrow> (string + (nat \<times> string \<times> reader)) option" where
  "read_nonblank rd buffer =
     (case read_line rd buffer of
        Inl e \<Rightarrow> Some (Inl e)
      | Inr (sz, buffer', rd') \<Rightarrow>
          if trim buffer' \<noteq> [] then Some (Inr (sz, buffer', rd'))
          else read_nonblank rd' buffer')"

definition read_next_line ::
  "reader \<Rightarrow> (RunnerError + (nat \<times> string \<times> reader)) option" where
  "read_next_line rd =
     map_option (map_sum (\<lambda>e. impl_from (IoError e)) id) (read_nonblank rd [])"

section \<open>Parsing a response\<close>

definition get_segs_of_line :: "string \<Rightarrow> string list" where
  "get_segs_of_line buffer = split_whitespace buffer"

fun expect_next_seg :: "string list \<Rightarrow> string \<Rightarrow> RunnerError + (string \<times> string list)" where
  "expect_next_seg [] buffer = Inl (Io (''invalid line: '' @ buffer))"
| "expect_next_seg (s # segs) buffer = Inr (s, segs)"

text \<open>The block that reads the \<open>found\<close> field, and the one that reads an optional value.\<close>

definition read_found :: "string \<Rightarrow> RunnerError + bool" where
  "read_found found =
     (if found = ''found'' then Inr True
      else if found = ''not_found'' then Inr False
      else Inl (Parse (''invalid 'found' field: '' @ found)))"

definition read_value :: "string \<Rightarrow> string option" where
  "read_value v = (if v = ''null'' then None else Some v)"

text \<open>The loop over the entries of a scan.\<close>

partial_function (option) read_scan_entries ::
  "reader \<Rightarrow> (string \<times> string) list
     \<Rightarrow> (RunnerError + ((string \<times> string) list \<times> string \<times> reader)) option" where
  "read_scan_entries rd entries =
     (case read_next_line rd of
        None \<Rightarrow> None
      | Some (Inl e) \<Rightarrow> Some (Inl e)
      | Some (Inr (sz, buffer, rd')) \<Rightarrow>
          if trim buffer = ''SCAN END'' then Some (Inr (entries, buffer, rd'))
          else (case expect_next_seg (get_segs_of_line buffer) buffer of
                  Inl e \<Rightarrow> Some (Inl e)
                | Inr (key, segs) \<Rightarrow>
                    (case expect_next_seg segs buffer of
                       Inl e \<Rightarrow> Some (Inl e)
                     | Inr (value, segs') \<Rightarrow> read_scan_entries rd' (entries @ [(key, value)]))))"

text \<open>
  The response whose first line is \<open>buffer\<close>, in the order in which the code takes the segments.
  The result carries the buffer and the reader as the call leaves them.
\<close>

definition parse_key_field ::
  "(string \<Rightarrow> string \<Rightarrow> RunnerError + KvResp) \<Rightarrow> string list \<Rightarrow> string \<Rightarrow> RunnerError + KvResp" where
  "parse_key_field mk segs buffer =
     (case expect_next_seg segs buffer of
        Inl e \<Rightarrow> Inl e
      | Inr (key, segs1) \<Rightarrow>
          (case expect_next_seg segs1 buffer of
             Inl e \<Rightarrow> Inl e
           | Inr (field, _) \<Rightarrow> mk key field))"

definition from_read_scan ::
  "string list \<Rightarrow> string \<Rightarrow> reader \<Rightarrow> (RunnerError + (KvResp \<times> string \<times> reader)) option" where
  "from_read_scan segs buffer rd =
     (case expect_next_seg segs buffer of
        Inl e \<Rightarrow> Some (Inl e)
      | Inr (key_start, segs1) \<Rightarrow>
          (case expect_next_seg segs1 buffer of
             Inl e \<Rightarrow> Some (Inl e)
           | Inr (key_end, segs2) \<Rightarrow>
               (case expect_next_seg segs2 buffer of
                  Inl e \<Rightarrow> Some (Inl e)
                | Inr (begin, _) \<Rightarrow>
                    if begin \<noteq> ''BEGIN'' then Some (Inl (Io (''invalid line: '' @ buffer)))
                    else (case read_scan_entries rd [] of
                            None \<Rightarrow> None
                          | Some (Inl e) \<Rightarrow> Some (Inl e)
                          | Some (Inr (entries, buffer', rd')) \<Rightarrow>
                              Some (Inr (RScan key_start key_end entries, buffer', rd'))))))"

definition from_read :: "reader \<Rightarrow> (RunnerError + (KvResp \<times> string \<times> reader)) option" where
  "from_read rd =
     (case read_next_line rd of
        None \<Rightarrow> None
      | Some (Inl e) \<Rightarrow> Some (Inl e)
      | Some (Inr (sz, buffer, rd')) \<Rightarrow>
          (let ret = (\<lambda>r. Some (case r of Inl e \<Rightarrow> Inl e | Inr resp \<Rightarrow> Inr (resp, buffer, rd')));
               invalid = Some (Inl (Io (''invalid line: '' @ buffer)))
           in case get_segs_of_line buffer of
                [] \<Rightarrow> invalid
              | cmd # segs \<Rightarrow>
                  if cmd = ''PUT'' then
                    ret (parse_key_field (\<lambda>key f. map_sum id (RPut key) (read_found f)) segs buffer)
                  else if cmd = ''SWAP'' then
                    ret (parse_key_field (\<lambda>key f. Inr (RSwap key (read_value f))) segs buffer)
                  else if cmd = ''GET'' then
                    ret (parse_key_field (\<lambda>key f. Inr (RGet key (read_value f))) segs buffer)
                  else if cmd = ''SCAN'' then from_read_scan segs buffer rd'
                  else if cmd = ''DELETE'' then
                    ret (parse_key_field (\<lambda>key f. map_sum id (RDelete key) (read_found f)) segs buffer)
                  else if cmd = ''STOP'' then ret (Inr RStop)
                  else invalid))"

section \<open>Reading lines\<close>

lemma map_sum_eq_Inr:
  assumes "map_sum f id r = Inr x" obtains "r = Inr x"
  using assms by (cases r) auto

lemma token_no_newline: "is_token w \<Longrightarrow> newline \<notin> set w"
  by (auto simp: is_token_def list_all_iff)

lemma read_line_line [seg_simps]:
  "newline \<notin> set l \<Longrightarrow>
   read_line \<lparr>rd_input = l @ newline # rest, rd_fault = f\<rparr> buffer =
     Inr (utf8_len (l @ [newline]), buffer @ l @ [newline], \<lparr>rd_input = rest, rd_fault = f\<rparr>)"
proof -
  assume "newline \<notin> set l"
  then have "\<forall>c \<in> set l. c \<noteq> newline" by auto
  then have "takeWhile (\<lambda>c. c \<noteq> newline) (l @ newline # rest) = l"
    and "dropWhile (\<lambda>c. c \<noteq> newline) (l @ newline # rest) = newline # rest"
    by (simp_all add: takeWhile_append2 dropWhile_append2)
  then show ?thesis
    by (simp add: read_line_def Let_def)
qed

lemma read_line_eof:
  "newline \<notin> set (rd_input rd) \<Longrightarrow>
   read_line rd buffer =
     (case rd_fault rd of
        Some e \<Rightarrow> Inl e
      | None \<Rightarrow> Inr (utf8_len (rd_input rd), buffer @ rd_input rd, rd\<lparr>rd_input := []\<rparr>))"
proof -
  assume "newline \<notin> set (rd_input rd)"
  then have "\<forall>c \<in> set (rd_input rd). c \<noteq> newline" by auto
  then have "takeWhile (\<lambda>c. c \<noteq> newline) (rd_input rd) = rd_input rd"
    and "dropWhile (\<lambda>c. c \<noteq> newline) (rd_input rd) = []"
    by (simp_all only: takeWhile_eq_all_conv dropWhile_eq_Nil_conv)
  then show ?thesis
    by (simp add: read_line_def Let_def del: takeWhile_eq_all_conv dropWhile_eq_Nil_conv
        split: option.split)
qed

text \<open>Either there is a line with a newline, or the rest of the input is unterminated.\<close>

lemma reader_cases:
  obtains (line) l rest f where
    "rd = \<lparr>rd_input = l @ newline # rest, rd_fault = f\<rparr>" "newline \<notin> set l"
  | (last) "newline \<notin> set (rd_input rd)"
proof (cases "newline \<in> set (rd_input rd)")
  case True
  then obtain l rest where "rd_input rd = l @ newline # rest" "newline \<notin> set l"
    by (meson split_list_first)
  then have "rd = \<lparr>rd_input = l @ newline # rest, rd_fault = rd_fault rd\<rparr>" by simp
  then show ?thesis using \<open>newline \<notin> set l\<close> by (rule line)
next
  case False
  then show ?thesis by (rule last)
qed

lemma read_nonblank_line:
  assumes "newline \<notin> set l" and "\<not> list_all is_whitespace l"
  shows "read_nonblank \<lparr>rd_input = l @ newline # rest, rd_fault = f\<rparr> [] =
    Some (Inr (utf8_len (l @ [newline]), l @ [newline], \<lparr>rd_input = rest, rd_fault = f\<rparr>))"
  using assms
  by (simp add: read_nonblank.simps [of _ "[]"] read_line_line trim_eq_Nil_iff)

lemma read_next_line_line:
  assumes "newline \<notin> set l" and "\<not> list_all is_whitespace l"
  shows "read_next_line \<lparr>rd_input = l @ newline # rest, rd_fault = f\<rparr> =
    Some (Inr (utf8_len (l @ [newline]), l @ [newline], \<lparr>rd_input = rest, rd_fault = f\<rparr>))"
  using assms by (simp add: read_next_line_def read_nonblank_line)

text \<open>
  The loop never returns on blank input: every read appends white space only, and at the end of the
  input every further read appends nothing.
\<close>

lemma read_nonblank_blank:
  assumes "list_all is_whitespace (rd_input rd)" and "rd_fault rd = None"
    and "list_all is_whitespace buffer"
  shows "read_nonblank rd buffer = None"
proof (rule ccontr)
  assume "read_nonblank rd buffer \<noteq> None"
  then obtain r where ret: "read_nonblank rd buffer = Some r" by blast
  let ?blank = "\<lambda>rd buffer. list_all is_whitespace (rd_input rd) \<and> rd_fault rd = None
    \<and> list_all is_whitespace buffer"
  have "\<not> ?blank rd buffer"
  proof (rule read_nonblank.raw_induct [where P = "\<lambda>rd buffer r. \<not> ?blank rd buffer", OF _ ret])
    fix f rd buffer r
    assume IH: "\<And>rd buffer r. f rd buffer = Some r \<Longrightarrow> \<not> ?blank rd buffer"
      and eq: "(case read_line rd buffer of
        Inl e \<Rightarrow> Some (Inl e)
      | Inr (sz, buffer', rd') \<Rightarrow>
          if trim buffer' \<noteq> [] then Some (Inr (sz, buffer', rd')) else f rd' buffer') = Some r"
    show "\<not> ?blank rd buffer"
    proof
      assume blank: "?blank rd buffer"
      show False
      proof (cases rd rule: reader_cases)
        case (line l rest g)
        with blank eq have "f \<lparr>rd_input = rest, rd_fault = g\<rparr> (buffer @ l @ [newline]) = Some r"
          by (simp add: read_line_line trim_eq_Nil_iff)
        from IH [OF this] blank line show False by simp
      next
        case last
        with blank eq have "f (rd\<lparr>rd_input := []\<rparr>) (buffer @ rd_input rd) = Some r"
          by (simp add: read_line_eof trim_eq_Nil_iff)
        from IH [OF this] blank show False by simp
      qed
    qed
  qed
  with assms show False by simp
qed

lemma read_nonblank_returns:
  assumes "\<not> (list_all is_whitespace (rd_input rd) \<and> rd_fault rd = None)"
  shows "read_nonblank rd buffer \<noteq> None"
  using assms
proof (induction "length (rd_input rd)" arbitrary: rd buffer rule: less_induct)
  case less
  show ?case
  proof (cases rd rule: reader_cases)
    case (line l rest f)
    show ?thesis
    proof (cases "list_all is_whitespace (buffer @ l)")
      case True
      with line less show ?thesis
        by (subst read_nonblank.simps) (simp add: read_line_line trim_eq_Nil_iff)
    next
      case False
      with line show ?thesis
        by (subst read_nonblank.simps) (auto simp: read_line_line trim_eq_Nil_iff)
    qed
  next
    case last
    with less.prems show ?thesis
      by (subst read_nonblank.simps)
        (auto simp: read_line_eof trim_eq_Nil_iff split: option.splits)
  qed
qed

lemma read_next_line_None_iff:
  "read_next_line rd = None \<longleftrightarrow> list_all is_whitespace (rd_input rd) \<and> rd_fault rd = None"
proof -
  have "read_nonblank rd [] = None \<longleftrightarrow>
    list_all is_whitespace (rd_input rd) \<and> rd_fault rd = None"
    using read_nonblank_blank [of rd "[]"] read_nonblank_returns [of rd "[]"]
    by (metis list.pred_inject(1))
  then show ?thesis by (simp add: read_next_line_def)
qed

text \<open>Leading blank lines are skipped, but stay in the buffer.\<close>

lemma read_nonblank_skip:
  assumes "list_all is_whitespace buffer" and "list_all is_whitespace l" and "newline \<notin> set l"
  shows "read_nonblank \<lparr>rd_input = l @ newline # rest, rd_fault = f\<rparr> buffer =
    read_nonblank \<lparr>rd_input = rest, rd_fault = f\<rparr> (buffer @ l @ [newline])"
  using assms
  by (subst read_nonblank.simps) (simp add: read_line_line trim_eq_Nil_iff)

lemma read_next_line_decreases:
  assumes "read_next_line rd = Some (Inr (sz, buffer, rd'))"
  shows "\<not> list_all is_whitespace buffer \<and> rd_fault rd' = rd_fault rd
    \<and> length (rd_input rd') < length (rd_input rd)"
proof -
  have "list_all is_whitespace b \<Longrightarrow> read_nonblank rd b = Some (Inr (sz, buffer, rd')) \<Longrightarrow>
    \<not> list_all is_whitespace buffer \<and> rd_fault rd' = rd_fault rd
      \<and> length (rd_input rd') < length (rd_input rd)" for b
  proof (induction "length (rd_input rd)" arbitrary: rd b rule: less_induct)
    case less
    show ?case
    proof (cases rd rule: reader_cases)
      case (line l rest f)
      with less.prems less.hyps [of "\<lparr>rd_input = rest, rd_fault = f\<rparr>" "b @ l @ [newline]"]
      show ?thesis
        by (subst (asm) read_nonblank.simps)
          (auto simp: read_line_line trim_eq_Nil_iff split: if_splits)
    next
      case last
      have "rd_input rd \<noteq> []"
      proof
        assume "rd_input rd = []"
        with less.prems read_nonblank_blank [of rd b] have "rd_fault rd \<noteq> None" by auto
        with \<open>rd_input rd = []\<close> less.prems show False
          by (subst (asm) read_nonblank.simps) (auto simp: read_line_eof)
      qed
      with last less.prems show ?thesis
        by (subst (asm) read_nonblank.simps)
          (auto simp: read_line_eof trim_eq_Nil_iff read_nonblank_blank
            split: option.splits if_splits)
    qed
  qed
  moreover from assms have "read_nonblank rd [] = Some (Inr (sz, buffer, rd'))"
    by (cases "read_nonblank rd []") (auto simp: read_next_line_def elim!: map_sum_eq_Inr)
  ultimately show ?thesis by (metis list.pred_inject(1))
qed

section \<open>Reading a response\<close>

text \<open>The command words of the protocol, split off the front of a line.\<close>

lemma is_token_words [simp]:
  "is_token ''PUT''" "is_token ''SWAP''" "is_token ''GET''" "is_token ''SCAN''" "is_token ''DELETE''"
  "is_token ''STOP''" "is_token ''END''" "is_token ''BEGIN''" "is_token ''found''"
  "is_token ''not_found''" "is_token ''null''"
  by (simp_all add: is_token_def is_whitespace_def)

lemma split_command [token_simps]:
  "split_whitespace (CHR ''P'' # CHR ''U'' # CHR ''T'' # CHR '' '' # s) = ''PUT'' # split_whitespace s"
  "split_whitespace (CHR ''S'' # CHR ''W'' # CHR ''A'' # CHR ''P'' # CHR '' '' # s) =
     ''SWAP'' # split_whitespace s"
  "split_whitespace (CHR ''G'' # CHR ''E'' # CHR ''T'' # CHR '' '' # s) = ''GET'' # split_whitespace s"
  "split_whitespace (CHR ''S'' # CHR ''C'' # CHR ''A'' # CHR ''N'' # CHR '' '' # s) =
     ''SCAN'' # split_whitespace s"
  "split_whitespace (CHR ''D'' # CHR ''E'' # CHR ''L'' # CHR ''E'' # CHR ''T'' # CHR ''E'' # CHR '' '' # s) =
     ''DELETE'' # split_whitespace s"
  "split_whitespace (CHR ''S'' # CHR ''T'' # CHR ''O'' # CHR ''P'' # newline # s) =
     ''STOP'' # split_whitespace s"
  using split_whitespace_token [of "''PUT''" "CHR '' ''" s] split_whitespace_token [of "''SWAP''" "CHR '' ''" s]
    split_whitespace_token [of "''GET''" "CHR '' ''" s] split_whitespace_token [of "''SCAN''" "CHR '' ''" s]
    split_whitespace_token [of "''DELETE''" "CHR '' ''" s] split_whitespace_token [of "''STOP''" newline s]
  by simp_all

text \<open>
  A line built from tokens that are separated by single spaces has these tokens as its segments, is
  not blank and has no newline inside.
\<close>

fun unwords :: "string list \<Rightarrow> string" where
  "unwords [] = []"
| "unwords [w] = w"
| "unwords (w # ws) = w @ CHR '' '' # unwords ws"

lemma split_unwords:
  "list_all is_token ws \<Longrightarrow> is_whitespace c \<Longrightarrow>
     split_whitespace (unwords ws @ c # s) = ws @ split_whitespace s"
  by (induction ws rule: unwords.induct) simp_all

lemma unwords_line:
  assumes "list_all is_token ws" and "ws \<noteq> []"
  shows "newline \<notin> set (unwords ws)" and "\<not> list_all is_whitespace (unwords ws)"
proof -
  have nl: "newline \<noteq> CHR '' ''" by (simp add: newline_def)
  show "newline \<notin> set (unwords ws)"
    using assms nl by (induction ws rule: unwords.induct) (auto simp: token_no_newline)
  obtain w ws' where ws: "ws = w # ws'" using assms(2) by (cases ws) auto
  with assms(1) have "hd w \<in> set w" "\<not> is_whitespace (hd w)"
    by (auto simp: is_token_def list_all_iff)
  with ws show "\<not> list_all is_whitespace (unwords ws)"
    by (cases ws') (auto simp: list_all_iff)
qed

lemma unwords_segs:
  "list_all is_token ws \<Longrightarrow> get_segs_of_line (unwords ws @ [newline]) = ws"
  using split_unwords [of ws newline "[]"] by (simp add: get_segs_of_line_def)

text \<open>Reading a response whose first line has the segments \<open>cmd # segs\<close>.\<close>

lemma read_next_line_unwords:
  assumes "list_all is_token ws" and "ws \<noteq> []"
  shows "\<exists>sz. read_next_line \<lparr>rd_input = unwords ws @ newline # rest, rd_fault = f\<rparr> =
    Some (Inr (sz, unwords ws @ [newline], \<lparr>rd_input = rest, rd_fault = f\<rparr>))"
  using read_next_line_line [OF unwords_line [OF assms]] by simp

lemma from_read_word_line:
  assumes ws: "list_all is_token ws" "ws \<noteq> []"
  shows "from_read \<lparr>rd_input = unwords ws @ newline # rest, rd_fault = f\<rparr> =
    (let buffer = unwords ws @ [newline]; rd' = \<lparr>rd_input = rest, rd_fault = f\<rparr>;
         ret = (\<lambda>r. Some (case r of Inl e \<Rightarrow> Inl e | Inr resp \<Rightarrow> Inr (resp, buffer, rd')));
         segs = tl ws
     in if hd ws = ''PUT'' then
          ret (parse_key_field (\<lambda>key f. map_sum id (RPut key) (read_found f)) segs buffer)
        else if hd ws = ''SWAP'' then
          ret (parse_key_field (\<lambda>key f. Inr (RSwap key (read_value f))) segs buffer)
        else if hd ws = ''GET'' then
          ret (parse_key_field (\<lambda>key f. Inr (RGet key (read_value f))) segs buffer)
        else if hd ws = ''SCAN'' then from_read_scan segs buffer rd'
        else if hd ws = ''DELETE'' then
          ret (parse_key_field (\<lambda>key f. map_sum id (RDelete key) (read_found f)) segs buffer)
        else if hd ws = ''STOP'' then ret (Inr RStop)
        else Some (Inl (Io (''invalid line: '' @ buffer))))"
proof -
  obtain w ws' where ws': "ws = w # ws'" using ws(2) by (cases ws) auto
  have segs: "get_segs_of_line (unwords ws @ [newline]) = w # ws'"
    using unwords_segs [OF ws(1)] ws' by simp
  obtain sz where line: "read_next_line \<lparr>rd_input = unwords ws @ newline # rest, rd_fault = f\<rparr> =
    Some (Inr (sz, unwords ws @ [newline], \<lparr>rd_input = rest, rd_fault = f\<rparr>))"
    using read_next_line_unwords [OF ws] by blast
  have hd_tl: "hd ws = w" "tl ws = ws'" using ws' by simp_all
  show ?thesis
    unfolding from_read_def line Let_def hd_tl
    by (simp only: option.case sum.case prod.case segs list.case)
qed

text \<open>The end marker of a scan, and an entry line before it.\<close>

lemma trim_line_words:
  assumes "list_all is_token ws" and "ws \<noteq> []"
  shows "split_whitespace (trim (unwords ws @ [newline])) = ws"
  using assms split_unwords [of ws newline "[]"] by simp

lemma trim_scan_end: "trim (''SCAN END'' @ [newline]) = ''SCAN END''"
  by (simp add: trim_def is_whitespace_def newline_def)

lemma read_scan_end:
  "\<exists>sz. read_next_line \<lparr>rd_input = ''SCAN END'' @ newline # rest, rd_fault = f\<rparr> =
    Some (Inr (sz, ''SCAN END'' @ [newline], \<lparr>rd_input = rest, rd_fault = f\<rparr>))"
  using read_next_line_unwords [of "[''SCAN'', ''END'']" rest f] by simp

lemma read_scan_entries_end:
  "read_scan_entries \<lparr>rd_input = ''SCAN END'' @ newline # rest, rd_fault = f\<rparr> acc =
    Some (Inr (acc, ''SCAN END'' @ [newline], \<lparr>rd_input = rest, rd_fault = f\<rparr>))"
proof -
  obtain sz where *: "read_next_line \<lparr>rd_input = ''SCAN END'' @ newline # rest, rd_fault = f\<rparr> =
    Some (Inr (sz, ''SCAN END'' @ [newline], \<lparr>rd_input = rest, rd_fault = f\<rparr>))"
    using read_scan_end by blast
  show ?thesis
    by (subst read_scan_entries.simps, subst *) (simp del: append_Cons add: trim_scan_end)
qed

text \<open>A line of the shape the clients print for one entry: two spaces, the key, a space, the value.\<close>

definition entry_line :: "string \<times> string \<Rightarrow> string" where
  "entry_line kv = ''  '' @ fst kv @ '' '' @ snd kv"

lemma read_scan_entries_entry:
  assumes k: "is_token k" and v: "is_token v" and ne: "(k, v) \<noteq> (''SCAN'', ''END'')"
  shows "read_scan_entries \<lparr>rd_input = entry_line (k, v) @ newline # rest, rd_fault = f\<rparr> acc =
    read_scan_entries \<lparr>rd_input = rest, rd_fault = f\<rparr> (acc @ [(k, v)])"
proof -
  let ?l = "entry_line (k, v)"
  have "newline \<notin> set ?l" and nb: "\<not> list_all is_whitespace ?l"
    using token_no_newline [OF k] token_no_newline [OF v] k
    by (auto simp: entry_line_def is_token_def list_all_iff newline_def neq_Nil_conv)
  note * = read_next_line_line [OF this, of rest f]
  have segs: "split_whitespace (?l @ [newline]) = [k, v]"
    using k v by (simp add: entry_line_def)
  then have "trim (?l @ [newline]) \<noteq> ''SCAN END''"
  proof (rule contrapos_pn)
    assume "trim (?l @ [newline]) = ''SCAN END''"
    then have "split_whitespace (?l @ [newline]) = split_whitespace ''SCAN END''"
      by (metis split_whitespace_trim)
    also have "\<dots> = [''SCAN'', ''END'']"
      using split_whitespace_single [of "''END''"] by (simp add: split_command)
    finally show "split_whitespace (?l @ [newline]) \<noteq> [k, v]" using ne by auto
  qed
  then show ?thesis
    by (subst read_scan_entries.simps, subst *) (simp add: get_segs_of_line_def segs)
qed

definition entry_ok :: "string \<times> string \<Rightarrow> bool" where
  "entry_ok kv \<longleftrightarrow> is_token (fst kv) \<and> is_token (snd kv) \<and> kv \<noteq> (''SCAN'', ''END'')"

lemma read_scan_entries_list:
  assumes "list_all entry_ok kvs"
  shows "read_scan_entries
      \<lparr>rd_input = concat (map (\<lambda>kv. entry_line kv @ [newline]) kvs) @ ''SCAN END'' @ newline # rest,
        rd_fault = f\<rparr> acc =
    Some (Inr (acc @ kvs, ''SCAN END'' @ [newline], \<lparr>rd_input = rest, rd_fault = f\<rparr>))"
  using assms
proof (induction kvs arbitrary: acc)
  case Nil
  then show ?case using read_scan_entries_end [of rest f acc] by simp
next
  case (Cons kv kvs)
  obtain k v where [simp]: "kv = (k, v)" by (cases kv)
  let ?rest = "concat (map (\<lambda>kv. entry_line kv @ [newline]) kvs) @ ''SCAN END'' @ newline # rest"
  have "read_scan_entries \<lparr>rd_input = entry_line (k, v) @ newline # ?rest, rd_fault = f\<rparr> acc =
    read_scan_entries \<lparr>rd_input = ?rest, rd_fault = f\<rparr> (acc @ [(k, v)])"
    using Cons.prems by (intro read_scan_entries_entry) (auto simp: entry_ok_def)
  with Cons show ?case by simp
qed

section \<open>Properties\<close>

text \<open>C37: the loop that reads the next line of a client never returns exactly if the output of the
  client has ended and all of it is white space: it spins at the end of the input.\<close>

theorem read_next_line_spins:
  "read_next_line rd = None \<longleftrightarrow> list_all is_whitespace (rd_input rd) \<and> rd_fault rd = None"
  by (rule read_next_line_None_iff)

lemma read_scan_entries_returns:
  "rd_fault rd \<noteq> None \<Longrightarrow> read_scan_entries rd acc \<noteq> None"
proof (induction "length (rd_input rd)" arbitrary: rd acc rule: less_induct)
  case less
  obtain r where r: "read_next_line rd = Some r" using less.prems read_next_line_None_iff [of rd] by auto
  show ?case
  proof (cases r)
    case (Inl e)
    with r show ?thesis by (subst read_scan_entries.simps) simp
  next
    case (Inr t)
    obtain sz buffer rd' where t: "t = (sz, buffer, rd')" by (cases t) auto
    from read_next_line_decreases [of rd sz buffer rd'] r Inr t
    have "rd_fault rd' = rd_fault rd" "length (rd_input rd') < length (rd_input rd)" by auto
    with less have "read_scan_entries rd' acc' \<noteq> None" for acc' by simp
    with r Inr t show ?thesis
      by (subst read_scan_entries.simps) (auto split: sum.split)
  qed
qed

text \<open>C38: reading a response terminates when the output of the client ends in a read error instead of
  an end of file: with a response or with an error, whatever was printed before.\<close>

theorem from_read_returns:
  assumes "rd_fault rd \<noteq> None"
  shows "\<exists>res. from_read rd = Some res"
proof -
  obtain r where r: "read_next_line rd = Some r" using assms read_next_line_None_iff [of rd] by auto
  show ?thesis
  proof (cases r)
    case (Inr t)
    obtain sz buffer rd' where t: "t = (sz, buffer, rd')" by (cases t) auto
    have "rd_fault rd' \<noteq> None" using read_next_line_decreases [of rd sz buffer rd'] r Inr t assms by auto
    then have "from_read_scan segs b rd' \<noteq> None" for segs b
      using read_scan_entries_returns [of rd' "[]"] by (auto simp: from_read_scan_def split: sum.split)
    with r Inr t show ?thesis by (auto simp: from_read_def Let_def split: list.split)
  qed (use r in \<open>simp add: from_read_def\<close>)
qed

theorem from_read_returns_witness:
  "\<exists>res. from_read \<lparr>rd_input = ''SCAN a b BEGIN'' @ [newline], rd_fault = Some ''broken pipe''\<rparr> = Some res"
  using from_read_returns [of "\<lparr>rd_input = ''SCAN a b BEGIN'' @ [newline], rd_fault = Some ''broken pipe''\<rparr>"]
  by simp

end
