(* ===== verification/Proc.thy ===== *)
theory Proc
  imports Ioapi
begin

text \<open>
  Process running and management (\<open>runner/src/proc.rs\<close>).

  A client process is wrapped in two channels and a driver thread that moves calls from the first
  channel to the standard input of the process and responses from its standard output to the second.
  The record \<open>ClientProc\<close> holds the wrapper and its thread: the contents of the channels, the text in
  the two pipes, and where the thread stands.  One iteration of the driver is split where the thread
  can block: receiving a call and reading a response.  Blocking is \<open>None\<close>.

  The operating system is not part of the repository: starting, waiting for and killing a process
  are parameters.
\<close>

text \<open>A child process as the runner sees it: how it exits and how a kill is answered.\<close>

record child =
  ch_wait :: "string + (bool \<times> string)"
  ch_kill :: "string option"

section \<open>Server processes\<close>

record ServerProc =
  sp_handle :: child

definition ServerProc_new :: "(string list \<Rightarrow> string + child) \<Rightarrow> string list \<Rightarrow> RunnerError + ServerProc" where
  "ServerProc_new spawn just_args =
     (case spawn just_args of
        Inl e \<Rightarrow> Inl (impl_from (IoError e))
      | Inr handle \<Rightarrow> Inr \<lparr>sp_handle = handle\<rparr>)"

definition ServerProc_wait :: "ServerProc \<Rightarrow> RunnerError + unit" where
  "ServerProc_wait sp =
     (case ch_wait (sp_handle sp) of
        Inl e \<Rightarrow> Inl (impl_from (IoError e))
      | Inr (success, status) \<Rightarrow>
          if success then Inr () else Inl (Io (''server exited with status: '' @ status)))"

definition kill :: "child \<Rightarrow> RunnerError + unit" where
  "kill handle = (case ch_kill handle of None \<Rightarrow> Inr () | Some e \<Rightarrow> Inl (impl_from (IoError e)))"

definition ServerProc_stop :: "ServerProc \<Rightarrow> RunnerError + unit" where
  "ServerProc_stop sp = kill (sp_handle sp)"

section \<open>Client processes\<close>

text \<open>Where the driver thread stands, with its \<open>stopped\<close> flag.\<close>

datatype driver = AtRecv bool | AtRead bool | Exited

record ClientProc =
  cp_handle :: child
  cp_calls :: "KvCall list"
  cp_resps :: "KvResp list"
  cp_stdin :: writer
  cp_stdout :: reader
  cp_driver :: driver
  cp_dropped :: bool
  cp_errs :: "string list"

definition ClientProc_new :: "(string list \<Rightarrow> string + child) \<Rightarrow> string list \<Rightarrow> RunnerError + ClientProc" where
  "ClientProc_new spawn just_args =
     (case spawn just_args of
        Inl e \<Rightarrow> Inl (impl_from (IoError e))
      | Inr handle \<Rightarrow>
          Inr \<lparr>cp_handle = handle, cp_calls = [], cp_resps = [],
               cp_stdin = \<lparr>wr_text = [], wr_fault = None\<rparr>,
               cp_stdout = \<lparr>rd_input = [], rd_fault = None\<rparr>,
               cp_driver = AtRecv False, cp_dropped = False, cp_errs = []\<rparr>)"

definition send_call :: "KvCall \<Rightarrow> ClientProc \<Rightarrow> (RunnerError + unit) \<times> ClientProc" where
  "send_call call p =
     (if cp_driver p = Exited then (Inl (impl_from (SendError ''sending on a closed channel'')), p)
      else (Inr (), p\<lparr>cp_calls := cp_calls p @ [call]\<rparr>))"

text \<open>
  \<open>recv_timeout\<close> at the moment it returns: with the next response if there is one, else because the
  thread is gone or the time is up.
\<close>

definition wait_resp :: "ClientProc \<Rightarrow> (RunnerError + KvResp) \<times> ClientProc" where
  "wait_resp p =
     (case cp_resps p of
        r # rs \<Rightarrow> (Inr r, p\<lparr>cp_resps := rs\<rparr>)
      | [] \<Rightarrow> (Inl (impl_from (RecvTimeoutError
                (if cp_driver p = Exited then ''channel is empty and sending half is closed''
                 else ''timed out waiting on channel''))), p))"

text \<open>The end of \<open>stop\<close>, after the stop call was sent and while its response is awaited.\<close>

definition stop_end :: "ClientProc \<Rightarrow> (RunnerError + unit) \<times> ClientProc" where
  "stop_end p =
     (case wait_resp p of
        (Inl e, p') \<Rightarrow> (Inl e, p'\<lparr>cp_dropped := True\<rparr>)
      | (Inr resp, p') \<Rightarrow>
          if resp \<noteq> RStop then
            (Inl (Io ''unexpected response, expecting STOP''), p'\<lparr>cp_dropped := True\<rparr>)
          else (kill (cp_handle p'), p'\<lparr>cp_dropped := True\<rparr>))"

text \<open>
  The operations of the clients as the fuzzer and the benchmark use them, over the state of the world
  outside the runner; the first argument is the index of the client.  \<open>flush_op\<close> flushes the standard
  output of the runner itself.
\<close>

record 'w client_ops =
  send_call_op :: "nat \<Rightarrow> KvCall \<Rightarrow> 'w \<Rightarrow> (RunnerError + unit) \<times> 'w"
  wait_resp_op :: "nat \<Rightarrow> nat \<Rightarrow> 'w \<Rightarrow> (RunnerError + KvResp) \<times> 'w"
  stop_op :: "nat \<Rightarrow> 'w \<Rightarrow> (RunnerError + unit) \<times> 'w"
  flush_op :: "'w \<Rightarrow> (RunnerError + unit) \<times> 'w"

section \<open>The driver thread\<close>

text \<open>The first half of an iteration: receive a call and write it to the process.\<close>

definition driver_call :: "bool \<Rightarrow> ClientProc \<Rightarrow> (RunnerError option \<times> bool \<times> ClientProc) option" where
  "driver_call stopped p =
     (case cp_calls p of
        [] \<Rightarrow>
          if cp_dropped p
          then Some (Some (impl_from (RecvError ''receiving on a closed channel'')), stopped, p)
          else None
      | call # calls \<Rightarrow>
          (let stopped' = (if call = CStop then True else stopped);
               p' = p\<lparr>cp_calls := calls\<rparr>
           in case into_write call (cp_stdin p) of
                Inl e \<Rightarrow> Some (Some e, stopped', p')
              | Inr stdin' \<Rightarrow> Some (None, stopped', p'\<lparr>cp_stdin := stdin'\<rparr>)))"

text \<open>The second half: read a response and send it on.\<close>

definition driver_resp :: "ClientProc \<Rightarrow> (RunnerError option \<times> ClientProc) option" where
  "driver_resp p =
     (case from_read (cp_stdout p) of
        None \<Rightarrow> None
      | Some (Inl e) \<Rightarrow> Some (Some e, p)
      | Some (Inr (resp, line, stdout')) \<Rightarrow>
          (let p' = p\<lparr>cp_stdout := stdout'\<rparr>
           in if cp_dropped p
              then Some (Some (impl_from (SendError ''sending on a closed channel'')), p')
              else Some (None, p'\<lparr>cp_resps := cp_resps p @ [resp]\<rparr>)))"

text \<open>
  The loop of the thread: it goes from one half to the other and ends at the first error, which it
  reports unless it has been stopped or a channel was closed.
\<close>

definition driver_break :: "RunnerError \<Rightarrow> bool \<Rightarrow> ClientProc \<Rightarrow> ClientProc" where
  "driver_break err stopped p =
     p\<lparr>cp_driver := Exited,
       cp_errs := (if \<not> stopped \<and> \<not> is_chan err then cp_errs p @ [''Error in driver: '' @ fmt err]
                   else cp_errs p)\<rparr>"

definition driver_thread :: "ClientProc \<Rightarrow> ClientProc" where
  "driver_thread p =
     (case cp_driver p of
        AtRecv stopped \<Rightarrow>
          (case driver_call stopped p of
             None \<Rightarrow> p
           | Some (Some err, stopped', p') \<Rightarrow> driver_break err stopped' p'
           | Some (None, stopped', p') \<Rightarrow> p'\<lparr>cp_driver := AtRead stopped'\<rparr>)
      | AtRead stopped \<Rightarrow>
          (case driver_resp p of
             None \<Rightarrow> p
           | Some (Some err, p') \<Rightarrow> driver_break err stopped p'
           | Some (None, p') \<Rightarrow> p'\<lparr>cp_driver := AtRecv stopped\<rparr>)
      | Exited \<Rightarrow> p)"

section \<open>What the thread guarantees\<close>

text \<open>Once the thread has ended, nothing it does changes, sending fails, and waiting drains the channel.\<close>

lemma driver_thread_exited [simp]: "cp_driver p = Exited \<Longrightarrow> driver_thread p = p"
  by (simp add: driver_thread_def)

lemma send_call_exited: "cp_driver p = Exited \<Longrightarrow> \<exists>m. send_call c p = (Inl (Chan m), p)"
  by (simp add: send_call_def)

text \<open>
  The channels are first in, first out, and the thread moves at most one call and one response at a
  time: with \<open>stopped\<close> set only by a stop call.
\<close>

lemma driver_thread_calls:
  "cp_calls (driver_thread p) = cp_calls p \<or> (\<exists>c. cp_calls p = c # cp_calls (driver_thread p))"
  by (auto simp: driver_thread_def driver_call_def driver_resp_def driver_break_def Let_def
      split: driver.split option.split prod.split list.split sum.split)

lemma driver_thread_resps:
  "cp_resps (driver_thread p) = cp_resps p \<or> (\<exists>r. cp_resps (driver_thread p) = cp_resps p @ [r])"
  by (auto simp: driver_thread_def driver_call_def driver_resp_def driver_break_def Let_def
      split: driver.split option.split prod.split list.split sum.split)

text \<open>
  The error a step of the thread has to report: a call other than stop that cannot be written, or a
  response that cannot be read while the thread is not stopped, unless a channel was closed.
\<close>

definition reported_error :: "ClientProc \<Rightarrow> RunnerError \<Rightarrow> bool" where
  "reported_error p e \<longleftrightarrow> \<not> is_chan e
    \<and> ((cp_driver p = AtRecv False \<and> (\<exists>call calls. cp_calls p = call # calls \<and> call \<noteq> CStop
           \<and> into_write call (cp_stdin p) = Inl e))
       \<or> (cp_driver p = AtRead False \<and> from_read (cp_stdout p) = Some (Inl e)))"

definition driver_stopped :: "ClientProc \<Rightarrow> bool" where
  "driver_stopped p \<longleftrightarrow> cp_driver p \<in> {AtRecv True, AtRead True, Exited}"

lemmas driver_step_defs = driver_thread_def driver_call_def driver_resp_def driver_break_def Let_def

lemma driver_thread_report:
  assumes "reported_error p e"
  shows "cp_driver (driver_thread p) = Exited
    \<and> cp_errs (driver_thread p) = cp_errs p @ [''Error in driver: '' @ fmt e]"
  using assms by (auto simp: reported_error_def driver_step_defs)

lemma driver_thread_no_report:
  assumes "\<nexists>e. reported_error p e"
  shows "cp_errs (driver_thread p) = cp_errs p"
  using assms
  by (auto simp: reported_error_def driver_step_defs
      split: driver.split option.split prod.split list.split sum.split)

lemma driver_thread_stopped:
  assumes "driver_stopped p \<or> (\<exists>stopped calls. cp_driver p = AtRecv stopped \<and> cp_calls p = CStop # calls)"
  shows "driver_stopped (driver_thread p) \<and> cp_errs (driver_thread p) = cp_errs p"
  using assms
  by (auto simp: driver_stopped_def driver_step_defs
      split: driver.split option.split prod.split list.split sum.split)

section \<open>Properties\<close>

text \<open>C28: as long as the driver thread lives, it loses, repeats and reorders no call: what it has written
  to the client, followed by the lines of the calls still in the channel, stays the same text.\<close>

theorem driver_keeps_calls:
  assumes "cp_driver (driver_thread p) \<noteq> Exited"
  shows "wr_text (cp_stdin (driver_thread p)) @ concat (map call_line (cp_calls (driver_thread p))) =
    wr_text (cp_stdin p) @ concat (map call_line (cp_calls p))"
  using assms
  by (auto simp: driver_thread_def driver_call_def driver_resp_def driver_break_def Let_def
      into_write_def write_all_def
      split: driver.splits option.splits prod.splits list.splits sum.splits if_splits)

theorem driver_keeps_calls_witness:
  "wr_text (cp_stdin (driver_thread \<lparr>cp_handle = \<lparr>ch_wait = Inl [], ch_kill = None\<rparr>,
       cp_calls = [CGet ''a'', CGet ''b''], cp_resps = [], cp_stdin = \<lparr>wr_text = [], wr_fault = None\<rparr>,
       cp_stdout = \<lparr>rd_input = [], rd_fault = None\<rparr>, cp_driver = AtRecv False, cp_dropped = False,
       cp_errs = []\<rparr>)) = call_line (CGet ''a'')"
proof -
  let ?p = "\<lparr>cp_handle = \<lparr>ch_wait = Inl [], ch_kill = None\<rparr>, cp_calls = [CGet ''a'', CGet ''b''], cp_resps = [],
    cp_stdin = \<lparr>wr_text = [], wr_fault = None\<rparr>, cp_stdout = \<lparr>rd_input = [], rd_fault = None\<rparr>,
    cp_driver = AtRecv False, cp_dropped = False, cp_errs = []\<rparr> :: ClientProc"
  have *: "cp_driver (driver_thread ?p) \<noteq> Exited" "cp_calls (driver_thread ?p) = [CGet ''b'']"
    by (simp_all add: driver_thread_def driver_call_def into_write_def write_all_def)
  from driver_keeps_calls [OF *(1)] *(2) show ?thesis by simp
qed

text \<open>C29: the driver reports at most one error, when it ends, and it reports exactly the errors that matter:
  a step adds a report if and only if a call other than stop cannot be written or the response to such a
  call cannot be read, for a reason that is not a closed channel.  From the step on that takes up a stop
  call, whether its line can be written or not, the thread is stopped or has ended, stays so, and nothing
  is reported any more.\<close>

theorem driver_reports_real_errors:
  "(if \<exists>e. reported_error p e
    then cp_driver (driver_thread p) = Exited
      \<and> (\<exists>e. reported_error p e \<and> cp_errs (driver_thread p) = cp_errs p @ [''Error in driver: '' @ fmt e])
    else cp_errs (driver_thread p) = cp_errs p)
   \<and> (driver_stopped p \<or> (\<exists>stopped calls. cp_driver p = AtRecv stopped \<and> cp_calls p = CStop # calls)
      \<longrightarrow> driver_stopped (driver_thread p) \<and> cp_errs (driver_thread p) = cp_errs p)"
  using driver_thread_report [of p] driver_thread_no_report [of p] driver_thread_stopped [of p] by auto

theorem driver_reports_real_errors_witness:
  "(let p = (\<lambda>call. \<lparr>cp_handle = \<lparr>ch_wait = Inl [], ch_kill = None\<rparr>,
       cp_calls = [call], cp_resps = [], cp_stdin = \<lparr>wr_text = [], wr_fault = Some ''broken pipe''\<rparr>,
       cp_stdout = \<lparr>rd_input = [], rd_fault = None\<rparr>, cp_driver = AtRecv False, cp_dropped = False,
       cp_errs = []\<rparr>)
    in (\<exists>e. \<not> is_chan e \<and> cp_errs (driver_thread (p (CGet ''a''))) = [''Error in driver: '' @ fmt e])
       \<and> driver_stopped (driver_thread (p CStop)) \<and> cp_errs (driver_thread (p CStop)) = [])"
proof -
  let ?p = "\<lambda>call. \<lparr>cp_handle = \<lparr>ch_wait = Inl [], ch_kill = None\<rparr>, cp_calls = [call], cp_resps = [],
    cp_stdin = \<lparr>wr_text = [], wr_fault = Some ''broken pipe''\<rparr>, cp_stdout = \<lparr>rd_input = [], rd_fault = None\<rparr>,
    cp_driver = AtRecv False, cp_dropped = False, cp_errs = []\<rparr> :: ClientProc"
  have "\<exists>e. reported_error (?p (CGet ''a'')) e"
    by (simp add: reported_error_def into_write_def write_all_def)
  with driver_reports_real_errors [of "?p (CGet ''a'')"] driver_reports_real_errors [of "?p CStop"]
  show ?thesis by (auto simp: reported_error_def)
qed

end
