(* ===== verification/KvSpec.thy ===== *)
theory KvSpec
  imports Ioapi
begin

text \<open>
  What a key-value store promises, independent of how it is implemented: the effect of a call on the
  abstract map and the responses that are correct for it.  The locale \<open>kv_object\<close> says that a step
  function implements this promise through an abstraction function; both stores of the repository
  are interpreted against it.  They differ in which keys a scan ranges over, which is a parameter.
\<close>

type_synonym kvmap = "string \<rightharpoonup> string"

fun kv_apply :: "KvCall \<Rightarrow> kvmap \<Rightarrow> kvmap" where
  "kv_apply (CPut k v) m = m(k \<mapsto> v)"
| "kv_apply (CSwap k v) m = m(k \<mapsto> v)"
| "kv_apply (CDelete k) m = m(k := None)"
| "kv_apply _ m = m"

fun resp_ok :: "(string \<Rightarrow> string \<Rightarrow> string \<Rightarrow> bool) \<Rightarrow> KvCall \<Rightarrow> kvmap \<Rightarrow> KvResp \<Rightarrow> bool" where
  "resp_ok rng (CPut k v) m r \<longleftrightarrow> r = RPut k (m k \<noteq> None)"
| "resp_ok rng (CSwap k v) m r \<longleftrightarrow> r = RSwap k (m k)"
| "resp_ok rng (CGet k) m r \<longleftrightarrow> r = RGet k (m k)"
| "resp_ok rng (CScan a b) m r \<longleftrightarrow>
     (\<exists>es. r = RScan a b es \<and> sorted_wrt (<) (map fst es) \<and> map_of es = m |` {k. rng a b k})"
| "resp_ok rng (CDelete k) m r \<longleftrightarrow> r = RDelete k (m k \<noteq> None)"
| "resp_ok rng CStop m r \<longleftrightarrow> r = RStop"

text \<open>The range the protocol document asks for (both ends included), and the half-open one.\<close>

definition closed_range :: "string \<Rightarrow> string \<Rightarrow> string \<Rightarrow> bool" where
  "closed_range a b k \<longleftrightarrow> a \<le> k \<and> k \<le> b"

definition half_open_range :: "string \<Rightarrow> string \<Rightarrow> string \<Rightarrow> bool" where
  "half_open_range a b k \<longleftrightarrow> a \<le> k \<and> k < b"

text \<open>The calls whose range is not reversed.\<close>

fun call_ordered :: "KvCall \<Rightarrow> bool" where
  "call_ordered (CScan a b) \<longleftrightarrow> a \<le> b"
| "call_ordered _ \<longleftrightarrow> True"

lemma kv_apply_update_info:
  "kv_apply c m = (case update_info c of None \<Rightarrow> m | Some (k, v) \<Rightarrow> m(k := v))"
  by (cases c) auto

text \<open>The correct response to a call is unique.\<close>

lemma resp_ok_unique:
  assumes "resp_ok rng c m r" and "resp_ok rng c m r'"
  shows "r = r'"
proof (cases c)
  case (CScan a b)
  with assms obtain es es' where r: "r = RScan a b es" "r' = RScan a b es'"
    and sorted: "sorted_wrt (<) (map fst es)" "sorted_wrt (<) (map fst es')"
    and eq: "map_of es = map_of es'"
    by auto
  from sorted eq have "es = es'" by (rule sorted_alist_eqI)
  with r show ?thesis by simp
qed (use assms in auto)

text \<open>Running a sequence of calls, and the last value a sequence of calls leaves at a key.\<close>

fun run_calls ::
  "(KvCall \<Rightarrow> 's \<Rightarrow> (KvResp \<times> 's) rust) \<Rightarrow> KvCall list \<Rightarrow> 's \<Rightarrow> (KvResp list \<times> 's) rust" where
  "run_calls step [] s = Done ([], s)"
| "run_calls step (c # cs) s =
     (case step c s of
        Panic m \<Rightarrow> Panic m
      | Done (r, s') \<Rightarrow>
          (case run_calls step cs s' of
             Panic m \<Rightarrow> Panic m
           | Done (rs, s'') \<Rightarrow> Done (r # rs, s'')))"

fun last_write :: "string \<Rightarrow> KvCall list \<Rightarrow> string option option" where
  "last_write k [] = None"
| "last_write k (c # cs) =
     (case last_write k cs of
        Some v \<Rightarrow> Some v
      | None \<Rightarrow> (case update_info c of
                   Some (k', v) \<Rightarrow> if k' = k then Some v else None
                 | None \<Rightarrow> None))"

lemma fold_kv_apply_last_write:
  "fold kv_apply cs m k = (case last_write k cs of None \<Rightarrow> m k | Some v \<Rightarrow> v)"
  by (induction cs arbitrary: m)
    (auto simp: kv_apply_update_info split: option.splits prod.splits)

locale kv_object =
  fixes step :: "KvCall \<Rightarrow> 's \<Rightarrow> (KvResp \<times> 's) rust"
    and abs :: "'s \<Rightarrow> kvmap"
    and inv :: "'s \<Rightarrow> bool"
    and rng :: "string \<Rightarrow> string \<Rightarrow> string \<Rightarrow> bool"
  assumes step_inv: "inv s \<Longrightarrow> step c s = Done (r, s') \<Longrightarrow> inv s'"
    and step_abs: "inv s \<Longrightarrow> step c s = Done (r, s') \<Longrightarrow> abs s' = kv_apply c (abs s)"
    and step_resp: "inv s \<Longrightarrow> step c s = Done (r, s') \<Longrightarrow> resp_ok rng c (abs s) r"
    and step_done: "inv s \<Longrightarrow> call_ordered c \<Longrightarrow> \<exists>r s'. step c s = Done (r, s')"
begin

lemma run_calls_abs:
  "inv s \<Longrightarrow> run_calls step cs s = Done (rs, s') \<Longrightarrow>
     inv s' \<and> abs s' = fold kv_apply cs (abs s)"
proof (induction cs arbitrary: s rs)
  case Nil
  then show ?case by simp
next
  case (Cons c cs)
  from Cons.prems(2) obtain r s1 rs' where c: "step c s = Done (r, s1)"
    and cs: "run_calls step cs s1 = Done (rs', s')"
    by (auto split: rust.splits)
  from Cons.prems(1) c have "inv s1" and "abs s1 = kv_apply c (abs s)"
    by (rule step_inv, rule step_abs)
  with Cons.IH [OF _ cs] show ?case by simp
qed

lemma run_calls_done:
  "inv s \<Longrightarrow> list_all call_ordered cs \<Longrightarrow> \<exists>rs s'. run_calls step cs s = Done (rs, s')"
proof (induction cs arbitrary: s)
  case (Cons c cs)
  then obtain r s1 where c: "step c s = Done (r, s1)"
    using step_done [of s c] by auto
  then have "inv s1" using Cons.prems(1) step_inv by blast
  with Cons.IH [of s1] Cons.prems(2) obtain rs s' where "run_calls step cs s1 = Done (rs, s')"
    by auto
  with c show ?case by simp
qed simp

text \<open>A read returns what the last update of its key wrote, whatever came in between.\<close>

lemma read_last_write:
  assumes "inv s" and "run_calls step cs s = Done (rs, s')"
  shows "\<exists>s''. step (CGet k) s' =
    Done (RGet k (case last_write k cs of None \<Rightarrow> abs s k | Some v \<Rightarrow> v), s'')"
proof -
  from assms have inv: "inv s'" and abs: "abs s' = fold kv_apply cs (abs s)"
    using run_calls_abs by blast+
  from step_done [OF inv] obtain r s'' where get: "step (CGet k) s' = Done (r, s'')"
    by fastforce
  with step_resp [OF inv get] have "r = RGet k (abs s' k)" by simp
  with get abs show ?thesis by (simp add: fold_kv_apply_last_write)
qed

text \<open>The responses of a run are the ones the abstract map prescribes, call by call.\<close>

lemma run_calls_resp:
  "inv s \<Longrightarrow> run_calls step cs s = Done (rs, s') \<Longrightarrow>
     length rs = length cs \<and>
     (\<forall>i < length cs. resp_ok rng (cs ! i) (fold kv_apply (take i cs) (abs s)) (rs ! i))"
proof (induction cs arbitrary: s rs)
  case Nil
  then show ?case by simp
next
  case (Cons c cs)
  from Cons.prems(2) obtain r s1 rs' where c: "step c s = Done (r, s1)"
    and cs: "run_calls step cs s1 = Done (rs', s')" and rs: "rs = r # rs'"
    by (auto split: rust.splits)
  have inv: "inv s1" and abs: "abs s1 = kv_apply c (abs s)"
    using Cons.prems(1) c step_inv step_abs by blast+
  show ?case
    using Cons.IH [OF inv cs] step_resp [OF Cons.prems(1) c] rs abs
    by (auto simp: nth_Cons' take_Cons')
qed

end

end
