(* ===== verification/Ordmap.thy ===== *)
theory Ordmap
  imports Prelude
begin

text \<open>
  The ordered map from strings to strings that both key-value stores of the repository rest on:
  Rust's \<open>BTreeMap<String, String>\<close> in the reference client and C++'s
  \<open>std::map<std::string, std::string>\<close> in the server.  The operations the two programs call are
  defined on association lists with strictly ascending keys; the locale \<open>ordered_map\<close> states what
  the clients rely on, and its interpretation shows that the lists provide it.
\<close>

type_synonym ordmap = "(string \<times> string) list"

definition om_inv :: "ordmap \<Rightarrow> bool" where
  "om_inv m \<longleftrightarrow> sorted_wrt (<) (map fst m)"

definition om_empty :: ordmap where
  "om_empty = []"

definition om_get :: "ordmap \<Rightarrow> string \<Rightarrow> string option" where
  "om_get m k = map_of m k"

fun om_insert :: "string \<Rightarrow> string \<Rightarrow> ordmap \<Rightarrow> ordmap" where
  "om_insert k v [] = [(k, v)]"
| "om_insert k v ((a, b) # m) =
     (if k < a then (k, v) # (a, b) # m
      else if k = a then (k, v) # m
      else (a, b) # om_insert k v m)"

definition om_remove :: "string \<Rightarrow> ordmap \<Rightarrow> ordmap" where
  "om_remove k m = filter (\<lambda>kv. fst kv \<noteq> k) m"

text \<open>The entries whose keys satisfy a condition, in ascending order of their keys.\<close>

definition om_select :: "(string \<Rightarrow> bool) \<Rightarrow> ordmap \<Rightarrow> ordmap" where
  "om_select P m = filter (\<lambda>kv. P (fst kv)) m"

section \<open>What the clients rely on\<close>

locale ordered_map =
  fixes empty :: 'm
    and get :: "'m \<Rightarrow> string \<Rightarrow> string option"
    and ins :: "string \<Rightarrow> string \<Rightarrow> 'm \<Rightarrow> 'm"
    and rem :: "string \<Rightarrow> 'm \<Rightarrow> 'm"
    and select :: "(string \<Rightarrow> bool) \<Rightarrow> 'm \<Rightarrow> (string \<times> string) list"
    and inv :: "'m \<Rightarrow> bool"
  assumes inv_empty: "inv empty"
    and inv_ins: "inv m \<Longrightarrow> inv (ins k v m)"
    and inv_rem: "inv m \<Longrightarrow> inv (rem k m)"
    and get_empty: "get empty = Map.empty"
    and get_ins: "inv m \<Longrightarrow> get (ins k v m) = (get m)(k \<mapsto> v)"
    and get_rem: "inv m \<Longrightarrow> get (rem k m) = (get m)(k := None)"
    and select_sorted: "inv m \<Longrightarrow> sorted_wrt (<) (map fst (select P m))"
    and select_get: "inv m \<Longrightarrow> (k, v) \<in> set (select P m) \<longleftrightarrow> P k \<and> get m k = Some v"
begin

lemma select_distinct: "inv m \<Longrightarrow> distinct (map fst (select P m))"
  using select_sorted strict_sorted_iff by blast

lemma select_map_of: "inv m \<Longrightarrow> map_of (select P m) = (get m) |` {k. P k}"
proof (rule ext)
  fix k assume inv: "inv m"
  show "map_of (select P m) k = (get m |` {k. P k}) k"
  proof (cases "map_of (select P m) k")
    case None
    then have "\<And>v. (k, v) \<notin> set (select P m)"
      by (metis map_of_eq_None_iff fst_conv image_eqI)
    with inv None show ?thesis
      by (cases "get m k") (auto simp: select_get restrict_map_def)
  next
    case (Some v)
    then have "(k, v) \<in> set (select P m)" by (rule map_of_SomeD)
    with inv Some show ?thesis by (simp add: select_get restrict_map_def)
  qed
qed

text \<open>Two maps that answer every lookup alike answer every range query alike.\<close>

lemma select_cong:
  assumes "inv m" "inv m'" and eq: "\<And>k. P k \<Longrightarrow> get m k = get m' k"
  shows "select P m = select P m'"
proof (rule sorted_alist_eqI)
  show "map_of (select P m) = map_of (select P m')"
    using assms by (auto simp: select_map_of restrict_map_def)
qed (use assms select_sorted in auto)

end

section \<open>Association lists with ascending keys provide it\<close>

lemma om_insert_keys: "fst ` set (om_insert k v m) = insert k (fst ` set m)"
  by (induction k v m rule: om_insert.induct) auto

lemma om_inv_Cons: "om_inv ((a, b) # m) \<longleftrightarrow> (\<forall>k \<in> fst ` set m. a < k) \<and> om_inv m"
  by (auto simp: om_inv_def)

lemma om_inv_insert: "om_inv m \<Longrightarrow> om_inv (om_insert k v m)"
proof (induction k v m rule: om_insert.induct)
  case (1 k v)
  show ?case by (simp add: om_inv_def)
next
  case (2 k v a b m)
  then show ?case by (auto simp: om_inv_Cons om_insert_keys)
qed

lemma om_inv_filter: "om_inv m \<Longrightarrow> om_inv (filter P m)"
  by (induction m) (auto simp: om_inv_Cons)

lemma om_get_insert: "om_inv m \<Longrightarrow> om_get (om_insert k v m) = (om_get m)(k \<mapsto> v)"
proof (induction k v m rule: om_insert.induct)
  case (1 k v)
  show ?case by (auto simp: om_get_def)
next
  case (2 k v a b m)
  then show ?case by (auto simp: om_get_def om_inv_Cons fun_eq_iff)
qed

lemma om_get_remove: "om_get (om_remove k m) = (om_get m)(k := None)"
  by (induction m) (auto simp: om_get_def om_remove_def fun_eq_iff)

lemma om_distinct: "om_inv m \<Longrightarrow> distinct (map fst m)"
  unfolding om_inv_def using strict_sorted_iff by blast

interpretation om: ordered_map om_empty om_get om_insert om_remove om_select om_inv
proof unfold_locales
  show "om_inv om_empty" by (simp add: om_inv_def om_empty_def)
  show "om_get om_empty = Map.empty" by (simp add: om_get_def om_empty_def fun_eq_iff)
next
  fix m k v P assume inv: "om_inv m"
  show "om_inv (om_insert k v m)" using inv by (rule om_inv_insert)
  show "om_inv (om_remove k m)" using inv by (simp add: om_remove_def om_inv_filter)
  show "om_get (om_insert k v m) = (om_get m)(k \<mapsto> v)" using inv by (rule om_get_insert)
  show "om_get (om_remove k m) = (om_get m)(k := None)" by (rule om_get_remove)
  show "sorted_wrt (<) (map fst (om_select P m))"
    using om_inv_filter [OF inv] by (simp add: om_inv_def om_select_def)
  show "(k, v) \<in> set (om_select P m) \<longleftrightarrow> P k \<and> om_get m k = Some v"
    using om_distinct [OF inv] by (auto simp: om_select_def om_get_def)
qed

lemmas om_simps [simp] = om.inv_empty om.get_empty om.inv_ins om.inv_rem om.get_ins om.get_rem

section \<open>A map with or without a root\<close>

text \<open>
  Rust's \<open>BTreeMap\<close> allocates its root node with the first insertion and keeps it from then on, also when
  the last entry is removed.  The contents do not depend on it, but \<open>BTreeMap::range\<close> looks at its bounds
  only if there is a root.
\<close>

datatype btree = NoRoot | Root ordmap

fun bt_map :: "btree \<Rightarrow> ordmap" where
  "bt_map NoRoot = om_empty"
| "bt_map (Root m) = m"

definition bt_inv :: "btree \<Rightarrow> bool" where
  "bt_inv t \<longleftrightarrow> om_inv (bt_map t)"

definition bt_get :: "btree \<Rightarrow> string \<Rightarrow> string option" where
  "bt_get t = om_get (bt_map t)"

definition bt_insert :: "string \<Rightarrow> string \<Rightarrow> btree \<Rightarrow> btree" where
  "bt_insert k v t = Root (om_insert k v (bt_map t))"

fun bt_remove :: "string \<Rightarrow> btree \<Rightarrow> btree" where
  "bt_remove k NoRoot = NoRoot"
| "bt_remove k (Root m) = Root (om_remove k m)"

definition bt_select :: "(string \<Rightarrow> bool) \<Rightarrow> btree \<Rightarrow> (string \<times> string) list" where
  "bt_select P t = om_select P (bt_map t)"

lemma bt_map_remove: "bt_map (bt_remove k t) = om_remove k (bt_map t)"
  by (cases t) (simp_all add: om_remove_def om_empty_def)

interpretation bt: ordered_map NoRoot bt_get bt_insert bt_remove bt_select bt_inv
  by unfold_locales
    (simp_all add: bt_inv_def bt_get_def bt_insert_def bt_select_def bt_map_remove om.inv_empty om.inv_ins om.inv_rem
      om.get_empty om.get_ins om.get_rem om.select_sorted om.select_get)

declare bt.inv_empty [simp] bt.inv_ins [simp] bt.inv_rem [simp] bt.get_empty [simp] bt.get_ins [simp] bt.get_rem [simp]

end
