(* ===== verification/Refcli.thy ===== *)
theory Refcli
  imports KvSpec Ordmap
begin

text \<open>
  The reference client (\<open>refcli/src/main.rs\<close>): it parses a call from a line, answers it from a
  sorted map of its own, and prints the response.  The crate declares the call and response enums a
  second time, with the same variants and fields as the runner.
\<close>

type_synonym ref_call = KvCall
type_synonym ref_resp = KvResp

text \<open>An \<open>io::Error\<close> is either raised by this program or comes from reading or writing.\<close>

datatype io_error = InvalidInput string | OsError string

definition ref_expect_next_seg :: "string list \<Rightarrow> string \<Rightarrow> io_error + (string \<times> string list)" where
  "ref_expect_next_seg segs line =
     (case segs of
        [] \<Rightarrow> Inl (InvalidInput (''invalid input line: '' @ line))
      | s # segs' \<Rightarrow> Inr (s, segs'))"

definition one_seg :: "(string \<Rightarrow> ref_call) \<Rightarrow> string list \<Rightarrow> string \<Rightarrow> io_error + ref_call" where
  "one_seg mk segs line =
     (case ref_expect_next_seg segs line of
        Inl e \<Rightarrow> Inl e
      | Inr (a, _) \<Rightarrow> Inr (mk a))"

definition two_segs ::
  "(string \<Rightarrow> string \<Rightarrow> ref_call) \<Rightarrow> string list \<Rightarrow> string \<Rightarrow> io_error + ref_call" where
  "two_segs mk segs line =
     (case ref_expect_next_seg segs line of
        Inl e \<Rightarrow> Inl e
      | Inr (a, segs') \<Rightarrow>
          (case ref_expect_next_seg segs' line of
             Inl e \<Rightarrow> Inl e
           | Inr (b, _) \<Rightarrow> Inr (mk a b)))"

definition parse_input_call :: "string \<Rightarrow> io_error + ref_call" where
  "parse_input_call line =
     (let invalid = Inl (InvalidInput (''invalid input line: '' @ line))
      in case split_whitespace line of
           [] \<Rightarrow> invalid
         | cmd # segs \<Rightarrow>
             if cmd = ''PUT'' then two_segs CPut segs line
             else if cmd = ''SWAP'' then two_segs CSwap segs line
             else if cmd = ''GET'' then one_seg CGet segs line
             else if cmd = ''SCAN'' then two_segs CScan segs line
             else if cmd = ''DELETE'' then one_seg CDelete segs line
             else if cmd = ''STOP'' then Inr CStop
             else invalid)"

text \<open>
  \<open>BTreeMap::range(start..end)\<close>: the end is excluded.  A map without a root has nothing in any range; with
  a root, reversed bounds panic.
\<close>

fun btree_range :: "string \<Rightarrow> string \<Rightarrow> btree \<Rightarrow> (string \<times> string) list rust" where
  "btree_range key_start key_end NoRoot = Done []"
| "btree_range key_start key_end (Root m) =
     (if key_start > key_end then Panic ''range start is greater than range end in BTreeMap''
      else Done (om_select (half_open_range key_start key_end) m))"

fun handle_kv_call :: "ref_call \<Rightarrow> btree \<Rightarrow> (ref_resp \<times> btree) rust" where
  "handle_kv_call (CPut key value) state =
     (let found = bt_get state key \<noteq> None
      in Done (RPut key found, bt_insert key value state))"
| "handle_kv_call (CSwap key value) state =
     (let old_value = bt_get state key
      in Done (RSwap key old_value, bt_insert key value state))"
| "handle_kv_call (CGet key) state = Done (RGet key (bt_get state key), state)"
| "handle_kv_call (CScan key_start key_end) state =
     (case btree_range key_start key_end state of
        Panic m \<Rightarrow> Panic m
      | Done entries \<Rightarrow> Done (RScan key_start key_end entries, state))"
| "handle_kv_call (CDelete key) state =
     (let found = bt_get state key \<noteq> None
      in Done (RDelete key found, bt_remove key state))"
| "handle_kv_call CStop state = Done (RStop, state)"

text \<open>The text of a response, and writing it.\<close>

definition found_word :: "bool \<Rightarrow> string" where
  "found_word found = (if found then ''found'' else ''not_found'')"

definition value_word :: "string option \<Rightarrow> string" where
  "value_word v = (case v of Some v' \<Rightarrow> v' | None \<Rightarrow> ''null'')"

fun resp_text :: "ref_resp \<Rightarrow> string" where
  "resp_text (RPut key found) = ''PUT '' @ key @ '' '' @ found_word found @ [newline]"
| "resp_text (RSwap key old_value) = ''SWAP '' @ key @ '' '' @ value_word old_value @ [newline]"
| "resp_text (RGet key value) = ''GET '' @ key @ '' '' @ value_word value @ [newline]"
| "resp_text (RScan key_start key_end entries) =
     ''SCAN '' @ key_start @ '' '' @ key_end @ '' BEGIN'' @ [newline]
     @ concat (map (\<lambda>kv. entry_line kv @ [newline]) entries)
     @ ''SCAN END'' @ [newline]"
| "resp_text (RDelete key found) = ''DELETE '' @ key @ '' '' @ found_word found @ [newline]"
| "resp_text RStop = ''STOP'' @ [newline]"

text \<open>The lines are written one by one, each with its own \<open>writeln!\<close> and \<open>?\<close>.\<close>

fun resp_lines :: "ref_resp \<Rightarrow> string list" where
  "resp_lines (RScan key_start key_end entries) =
     (''SCAN '' @ key_start @ '' '' @ key_end @ '' BEGIN'' @ [newline])
     # map (\<lambda>kv. entry_line kv @ [newline]) entries @ [''SCAN END'' @ [newline]]"
| "resp_lines resp = [resp_text resp]"

fun write_lines :: "string list \<Rightarrow> writer \<Rightarrow> string + writer" where
  "write_lines [] out = Inr out"
| "write_lines (l # ls) out =
     (case write_all l out of Inl e \<Rightarrow> Inl e | Inr out' \<Rightarrow> write_lines ls out')"

definition write_response :: "ref_resp \<Rightarrow> writer \<Rightarrow> io_error + writer" where
  "write_response resp out = map_sum OsError id (write_lines (resp_lines resp) out)"

datatype ref_exit =
    Finished writer btree
  | Failed io_error
  | Panicked string

partial_function (option) ref_main :: "reader \<Rightarrow> writer \<Rightarrow> btree \<Rightarrow> ref_exit option" where
  "ref_main stdin stdout state =
     (case read_nonblank stdin [] of
        None \<Rightarrow> None
      | Some (Inl e) \<Rightarrow> Some (Failed (OsError e))
      | Some (Inr (sz, buffer, stdin')) \<Rightarrow>
          (case parse_input_call (trim buffer) of
             Inl e \<Rightarrow> Some (Failed e)
           | Inr call \<Rightarrow>
               (case handle_kv_call call state of
                  Panic m \<Rightarrow> Some (Panicked m)
                | Done (resp, state') \<Rightarrow>
                    (case write_response resp stdout of
                       Inl e \<Rightarrow> Some (Failed e)
                     | Inr stdout' \<Rightarrow>
                         if resp = RStop then Some (Finished stdout' state')
                         else ref_main stdin' stdout' state'))))"

section \<open>The store\<close>

lemma btree_range_Done:
  "btree_range a b t = Done es \<Longrightarrow> es = bt_select (half_open_range a b) t"
  by (cases t) (auto simp: bt_select_def om_select_def om_empty_def split: if_splits)

lemma btree_range_ordered: "a \<le> b \<Longrightarrow> btree_range a b t = Done (bt_select (half_open_range a b) t)"
  by (cases t) (auto simp: bt_select_def om_select_def om_empty_def)

lemma handle_kv_call_done:
  "call_ordered c \<Longrightarrow> \<exists>r s'. handle_kv_call c s = Done (r, s')"
  by (cases c) (auto simp: btree_range_ordered Let_def)

interpretation refcli: kv_object handle_kv_call bt_get bt_inv half_open_range
proof unfold_locales
  fix s c r s' assume inv: "bt_inv s" and step: "handle_kv_call c s = Done (r, s')"
  show "bt_inv s'"
    using inv step by (cases c) (auto simp: Let_def split: rust.splits)
  show "bt_get s' = kv_apply c (bt_get s)"
    using inv step by (cases c) (auto simp: Let_def split: rust.splits)
  show "resp_ok half_open_range c (bt_get s) r"
    using inv step
    by (cases c) (auto simp: Let_def bt.select_sorted bt.select_map_of split: rust.splits dest!: btree_range_Done)
next
  fix s c assume "call_ordered c"
  then show "\<exists>r s'. handle_kv_call c s = Done (r, s')" by (rule handle_kv_call_done)
qed

section \<open>Printing and parsing\<close>

text \<open>The calls and responses whose strings survive the white-space separated line format.\<close>

fun call_wf :: "KvCall \<Rightarrow> bool" where
  "call_wf (CPut k v) \<longleftrightarrow> is_token k \<and> is_token v"
| "call_wf (CSwap k v) \<longleftrightarrow> is_token k \<and> is_token v"
| "call_wf (CGet k) \<longleftrightarrow> is_token k"
| "call_wf (CScan a b) \<longleftrightarrow> is_token a \<and> is_token b"
| "call_wf (CDelete k) \<longleftrightarrow> is_token k"
| "call_wf CStop \<longleftrightarrow> True"

definition value_wf :: "string option \<Rightarrow> bool" where
  "value_wf v = (case v of None \<Rightarrow> True | Some w \<Rightarrow> is_token w \<and> w \<noteq> ''null'')"

fun resp_wf :: "KvResp \<Rightarrow> bool" where
  "resp_wf (RPut k _) \<longleftrightarrow> is_token k"
| "resp_wf (RSwap k v) \<longleftrightarrow> is_token k \<and> value_wf v"
| "resp_wf (RGet k v) \<longleftrightarrow> is_token k \<and> value_wf v"
| "resp_wf (RScan a b es) \<longleftrightarrow> is_token a \<and> is_token b \<and> list_all entry_ok es"
| "resp_wf (RDelete k _) \<longleftrightarrow> is_token k"
| "resp_wf RStop \<longleftrightarrow> True"

text \<open>The segments of a call.\<close>

fun call_words :: "KvCall \<Rightarrow> string list" where
  "call_words (CPut k v) = [''PUT'', k, v]"
| "call_words (CSwap k v) = [''SWAP'', k, v]"
| "call_words (CGet k) = [''GET'', k]"
| "call_words (CScan a b) = [''SCAN'', a, b]"
| "call_words (CDelete k) = [''DELETE'', k]"
| "call_words CStop = [''STOP'']"

lemma call_line_words: "call_line c = unwords (call_words c) @ [newline]"
  by (cases c) simp_all

lemma call_words_tokens:
  assumes "call_wf c" shows "list_all is_token (call_words c)" and "call_words c \<noteq> []"
  using assms by (cases c; simp)+

lemma parse_call_words:
  "split_whitespace line = call_words c \<Longrightarrow> parse_input_call line = Inr c"
  by (cases c) (simp_all add: parse_input_call_def one_seg_def two_segs_def ref_expect_next_seg_def)

lemma parse_call_line: "call_wf c \<Longrightarrow> parse_input_call (trim (call_line c)) = Inr c"
  by (rule parse_call_words)
    (simp add: call_line_words split_unwords call_words_tokens)

lemma found_word_token [simp]: "is_token (found_word b)"
  by (simp add: found_word_def)

lemma read_found_word [simp]: "read_found (found_word b) = Inr b"
  by (simp add: found_word_def read_found_def)

lemma read_value_word [simp]: "value_wf v \<Longrightarrow> read_value (value_word v) = v"
  by (auto simp: value_word_def read_value_def value_wf_def split: option.splits)

lemma value_word_token [simp]: "value_wf v \<Longrightarrow> is_token (value_word v)"
  by (auto simp: value_word_def value_wf_def split: option.splits)

text \<open>The segments of the first line of a response, and the lines after it.\<close>

fun resp_words :: "KvResp \<Rightarrow> string list" where
  "resp_words (RPut k b) = [''PUT'', k, found_word b]"
| "resp_words (RSwap k v) = [''SWAP'', k, value_word v]"
| "resp_words (RGet k v) = [''GET'', k, value_word v]"
| "resp_words (RScan a b es) = [''SCAN'', a, b, ''BEGIN'']"
| "resp_words (RDelete k b) = [''DELETE'', k, found_word b]"
| "resp_words RStop = [''STOP'']"

fun resp_rest :: "KvResp \<Rightarrow> string" where
  "resp_rest (RScan a b es) =
     concat (map (\<lambda>kv. entry_line kv @ [newline]) es) @ ''SCAN END'' @ [newline]"
| "resp_rest _ = []"

lemma resp_text_words: "resp_text r = unwords (resp_words r) @ newline # resp_rest r"
  by (cases r) simp_all

lemma resp_words_tokens:
  assumes "resp_wf r" shows "list_all is_token (resp_words r)" and "resp_words r \<noteq> []"
  using assms by (cases r; simp)+

lemma from_read_resp_text:
  assumes "resp_wf r"
  shows "\<exists>buffer. from_read \<lparr>rd_input = resp_text r @ rest, rd_fault = f\<rparr> =
    Some (Inr (r, buffer, \<lparr>rd_input = rest, rd_fault = f\<rparr>))"
proof -
  note line = from_read_word_line [OF resp_words_tokens [OF assms], of "resp_rest r @ rest" f]
  have inp: "resp_text r @ rest = unwords (resp_words r) @ newline # resp_rest r @ rest"
    by (simp add: resp_text_words)
  show ?thesis
  proof (cases r)
    case (RScan a b es)
    with assms have "list_all entry_ok es" by simp
    from read_scan_entries_list [OF this, of rest f "[]"] RScan show ?thesis
      unfolding inp line by (simp add: from_read_scan_def)
  qed (use assms in \<open>unfold inp line, simp_all add: parse_key_field_def\<close>)
qed

lemma resp_lines_text: "concat (resp_lines r) = resp_text r"
  by (cases r) simp_all

lemma write_lines_ok:
  "wr_fault out = None \<Longrightarrow> write_lines ls out = Inr (out\<lparr>wr_text := wr_text out @ concat ls\<rparr>)"
  by (induction ls arbitrary: out) (simp_all add: write_all_def)

lemma write_response_ok:
  "wr_fault out = None \<Longrightarrow> write_response r out = Inr (out\<lparr>wr_text := wr_text out @ resp_text r\<rparr>)"
  by (simp add: write_response_def write_lines_ok resp_lines_text)

section \<open>Whole sessions\<close>

lemma read_nonblank_call_line:
  assumes "call_wf c"
  shows "\<exists>sz. read_nonblank \<lparr>rd_input = call_line c @ rest, rd_fault = f\<rparr> [] =
    Some (Inr (sz, call_line c, \<lparr>rd_input = rest, rd_fault = f\<rparr>))"
  using read_nonblank_line [OF unwords_line [OF call_words_tokens [OF assms]], of rest f]
  by (simp add: call_line_words)

text \<open>One round of the main loop, on a well-formed line.\<close>

lemma ref_main_round:
  assumes "call_wf c" and "handle_kv_call c st = Done (r, st')" and "wr_fault out = None"
  shows "ref_main \<lparr>rd_input = call_line c @ rest, rd_fault = f\<rparr> out st =
    (let out' = out\<lparr>wr_text := wr_text out @ resp_text r\<rparr>
     in if r = RStop then Some (Finished out' st')
        else ref_main \<lparr>rd_input = rest, rd_fault = f\<rparr> out' st')"
proof -
  obtain sz where line: "read_nonblank \<lparr>rd_input = call_line c @ rest, rd_fault = f\<rparr> [] =
    Some (Inr (sz, call_line c, \<lparr>rd_input = rest, rd_fault = f\<rparr>))"
    using read_nonblank_call_line [OF assms(1)] by blast
  show ?thesis
    by (subst ref_main.simps, subst line)
      (simp add: parse_call_line [OF assms(1)] assms(2,3) write_response_ok Let_def)
qed

lemma resp_stop_iff: "handle_kv_call c st = Done (r, st') \<Longrightarrow> r = RStop \<longleftrightarrow> c = CStop"
  by (cases c) (auto simp: Let_def split: rust.splits)

lemma ref_main_calls:
  assumes "list_all call_wf cs" and "CStop \<notin> set cs" and "wr_fault out = None"
    and "run_calls handle_kv_call cs st = Done (rs, st')"
  shows "ref_main \<lparr>rd_input = concat (map call_line cs) @ rest, rd_fault = f\<rparr> out st =
    ref_main \<lparr>rd_input = rest, rd_fault = f\<rparr>
      (out\<lparr>wr_text := wr_text out @ concat (map resp_text rs)\<rparr>) st'"
  using assms
proof (induction cs arbitrary: out st rs)
  case Nil
  then show ?case by simp
next
  case (Cons c cs)
  from Cons.prems(4) obtain r s1 rs' where c: "handle_kv_call c st = Done (r, s1)"
    and cs: "run_calls handle_kv_call cs s1 = Done (rs', st')" and rs: "rs = r # rs'"
    by (auto split: rust.splits)
  let ?out = "out\<lparr>wr_text := wr_text out @ resp_text r\<rparr>"
  have "ref_main \<lparr>rd_input = call_line c @ concat (map call_line cs) @ rest, rd_fault = f\<rparr> out st =
    ref_main \<lparr>rd_input = concat (map call_line cs) @ rest, rd_fault = f\<rparr> ?out s1"
    using ref_main_round [OF _ c] resp_stop_iff [OF c] Cons.prems by (auto simp: Let_def)
  also have "\<dots> = ref_main \<lparr>rd_input = rest, rd_fault = f\<rparr>
      (?out\<lparr>wr_text := wr_text ?out @ concat (map resp_text rs')\<rparr>) st'"
    using Cons.prems cs by (intro Cons.IH) auto
  finally show ?case using rs by simp
qed

lemma ref_main_eof:
  "list_all is_whitespace inp \<Longrightarrow> ref_main \<lparr>rd_input = inp, rd_fault = None\<rparr> out st = None"
  using read_nonblank_blank [of "\<lparr>rd_input = inp, rd_fault = None\<rparr>" "[]"]
  by (subst ref_main.simps) simp

section \<open>Properties\<close>

text \<open>C27: a call written by the runner is the call the reference client parses, for keys and values
  without white space.\<close>

theorem call_roundtrip:
  assumes "call_wf c" and "wr_fault w = None"
  shows "\<exists>line. into_write c w = Inr (w\<lparr>wr_text := wr_text w @ line\<rparr>) \<and> parse_input_call (trim line) = Inr c"
  using assms parse_call_line [OF assms(1)] by (auto simp: into_write_def write_all_def)

theorem call_roundtrip_witness:
  "\<exists>line. into_write (CPut ''k'' ''v'') \<lparr>wr_text = [], wr_fault = None\<rparr> = Inr \<lparr>wr_text = line, wr_fault = None\<rparr>
     \<and> parse_input_call (trim line) = Inr (CPut ''k'' ''v'')"
  using call_roundtrip [of "CPut ''k'' ''v''" "\<lparr>wr_text = [], wr_fault = None\<rparr>"]
  by (simp add: is_token_def is_whitespace_def)

text \<open>C26: a response written by the reference client is the response the runner reads back, and
  exactly the text of that response is consumed, for keys and values without white space, values
  other than \<open>null\<close>, and no scan entry of key \<open>SCAN\<close> and value \<open>END\<close>.\<close>

theorem resp_roundtrip:
  assumes "resp_wf r" and "wr_fault w = None"
  shows "\<exists>out buffer. write_response r w = Inr (w\<lparr>wr_text := wr_text w @ out\<rparr>)
    \<and> from_read \<lparr>rd_input = out @ rest, rd_fault = f\<rparr> = Some (Inr (r, buffer, \<lparr>rd_input = rest, rd_fault = f\<rparr>))"
  using assms from_read_resp_text [OF assms(1), of rest f]
  by (auto simp: write_response_ok)

theorem resp_roundtrip_witness:
  "\<exists>out buffer. write_response (RScan ''a'' ''b'' [(''a'', ''v'')]) \<lparr>wr_text = [], wr_fault = None\<rparr> =
       Inr \<lparr>wr_text = out, wr_fault = None\<rparr>
     \<and> from_read \<lparr>rd_input = out @ ''STOP'', rd_fault = None\<rparr> =
       Some (Inr (RScan ''a'' ''b'' [(''a'', ''v'')], buffer, \<lparr>rd_input = ''STOP'', rd_fault = None\<rparr>))"
  using resp_roundtrip [of "RScan ''a'' ''b'' [(''a'', ''v'')]" "\<lparr>wr_text = [], wr_fault = None\<rparr>" "''STOP''" None]
  by (simp add: is_token_def is_whitespace_def entry_ok_def)

text \<open>C40: the protocol cannot carry the value \<open>null\<close>: a get that finds it is read back as a get that
  finds nothing.\<close>

theorem null_value_lost:
  assumes "is_token k"
  shows "\<exists>buffer rd. from_read \<lparr>rd_input = resp_text (RGet k (Some ''null'')), rd_fault = None\<rparr> =
    Some (Inr (RGet k None, buffer, rd))"
proof -
  have "resp_text (RGet k (Some ''null'')) = resp_text (RGet k None)" by (simp add: value_word_def)
  moreover have "resp_wf (RGet k None)" using assms by (simp add: value_wf_def)
  ultimately show ?thesis using from_read_resp_text [of "RGet k None" "[]" None] by auto
qed

theorem null_value_lost_witness:
  "\<exists>buffer rd. from_read \<lparr>rd_input = resp_text (RGet ''k'' (Some ''null'')), rd_fault = None\<rparr> =
     Some (Inr (RGet ''k'' None, buffer, rd))"
  using null_value_lost [of "''k''"] by (simp add: is_token_def is_whitespace_def)

text \<open>In the reference client a get returns the value of the last put, swap or delete of its key,
  whatever other calls came before, between and after.\<close>

lemma refcli_read_last_write:
  assumes "run_calls handle_kv_call cs NoRoot = Done (rs, st)"
  shows "handle_kv_call (CGet k) st = Done (RGet k (case last_write k cs of None \<Rightarrow> None | Some v \<Rightarrow> v), st)"
  using refcli.read_last_write [OF bt.inv_empty assms, of k] by (simp split: option.splits)

text \<open>C17: the reference client implements the abstract key-value map with half-open scans: run on any
  sequence of calls whose scans are not reversed, it never panics, answers every call as the map does
  at that point, and ends in the state of the map.\<close>

theorem refcli_refines_map:
  assumes "list_all call_ordered cs"
  shows "\<exists>rs st. run_calls handle_kv_call cs NoRoot = Done (rs, st) \<and> length rs = length cs
    \<and> bt_get st = fold kv_apply cs Map.empty
    \<and> (\<forall>i < length cs. resp_ok half_open_range (cs ! i) (fold kv_apply (take i cs) Map.empty) (rs ! i))"
proof -
  obtain rs st where run: "run_calls handle_kv_call cs NoRoot = Done (rs, st)"
    using refcli.run_calls_done [OF bt.inv_empty assms] by blast
  with refcli.run_calls_resp [OF bt.inv_empty run] refcli.run_calls_abs [OF bt.inv_empty run]
  show ?thesis by simp
qed

theorem refcli_refines_map_witness:
  "\<exists>rs st. run_calls handle_kv_call [CPut ''a'' ''1'', CScan ''a'' ''b''] NoRoot = Done (rs, st)
     \<and> length rs = 2 \<and> bt_get st ''a'' = Some ''1''"
  using refcli_refines_map [of "[CPut ''a'' ''1'', CScan ''a'' ''b'']"] by auto

text \<open>C25: a whole session of the reference client: on the lines of any well-formed calls with ordered scans
  and a final stop, the program answers each call in turn, acknowledges the stop and exits, leaving the rest
  of its input unread.\<close>

theorem refcli_session:
  assumes "list_all call_wf cs" and "CStop \<notin> set cs" and "list_all call_ordered cs"
  shows "\<exists>rs st. run_calls handle_kv_call cs NoRoot = Done (rs, st)
    \<and> ref_main \<lparr>rd_input = concat (map call_line cs) @ call_line CStop @ rest, rd_fault = f\<rparr>
        \<lparr>wr_text = [], wr_fault = None\<rparr> NoRoot =
      Some (Finished \<lparr>wr_text = concat (map resp_text (rs @ [RStop])), wr_fault = None\<rparr> st)"
proof -
  obtain rs st where run: "run_calls handle_kv_call cs NoRoot = Done (rs, st)"
    using refcli.run_calls_done [OF bt.inv_empty assms(3)] by blast
  have "ref_main \<lparr>rd_input = concat (map call_line cs) @ call_line CStop @ rest, rd_fault = f\<rparr>
      \<lparr>wr_text = [], wr_fault = None\<rparr> NoRoot =
    ref_main \<lparr>rd_input = call_line CStop @ rest, rd_fault = f\<rparr>
      \<lparr>wr_text = concat (map resp_text rs), wr_fault = None\<rparr> st"
    using ref_main_calls [OF assms(1,2) _ run, of "\<lparr>wr_text = [], wr_fault = None\<rparr>"] by simp
  also have "\<dots> = Some (Finished \<lparr>wr_text = concat (map resp_text (rs @ [RStop])), wr_fault = None\<rparr> st)"
    by (subst ref_main_round [of CStop _ RStop st]) (simp_all add: Let_def)
  finally show ?thesis using run by blast
qed

theorem refcli_session_witness:
  "\<exists>rs st. run_calls handle_kv_call [CPut ''k'' ''v''] NoRoot = Done (rs, st)
     \<and> ref_main \<lparr>rd_input = concat (map call_line [CPut ''k'' ''v'']) @ call_line CStop @ [], rd_fault = None\<rparr>
         \<lparr>wr_text = [], wr_fault = None\<rparr> NoRoot =
       Some (Finished \<lparr>wr_text = concat (map resp_text (rs @ [RStop])), wr_fault = None\<rparr> st)"
  using refcli_session [of "[CPut ''k'' ''v'']" "[]" None]
  by (simp add: is_token_def is_whitespace_def)

text \<open>C39: without a stop the reference client never exits: it answers any well-formed calls with ordered
  scans and then spins at the end of its input.  (An invalid line or a reversed scan would end it.)\<close>

theorem refcli_needs_stop:
  assumes "list_all call_wf cs" and "CStop \<notin> set cs" and "list_all call_ordered cs"
    and "list_all is_whitespace rest"
  shows "ref_main \<lparr>rd_input = concat (map call_line cs) @ rest, rd_fault = None\<rparr>
    \<lparr>wr_text = [], wr_fault = None\<rparr> NoRoot = None"
proof -
  obtain rs st where run: "run_calls handle_kv_call cs NoRoot = Done (rs, st)"
    using refcli.run_calls_done [OF bt.inv_empty assms(3)] by blast
  from ref_main_calls [OF assms(1,2) _ run, of "\<lparr>wr_text = [], wr_fault = None\<rparr>" rest None]
    ref_main_eof [OF assms(4)] show ?thesis by simp
qed

theorem refcli_needs_stop_witness:
  "ref_main \<lparr>rd_input = concat (map call_line [CGet ''k'']) @ [newline], rd_fault = None\<rparr>
     \<lparr>wr_text = [], wr_fault = None\<rparr> NoRoot = None"
  by (rule refcli_needs_stop) (simp_all add: is_token_def is_whitespace_def newline_def)

end
