(* ===== verification/KvServer.thy ===== *)
theory KvServer
  imports Refcli
begin

text \<open>
  The key-value store under test: the gRPC service (\<open>kvstore/src/server.cpp\<close>), whose handlers run one
  at a time under a mutex on a \<open>std::map\<close>, and the command line client
  (\<open>kvstore/src/client.cpp\<close>), which turns lines into requests and replies into lines.  Between them is
  gRPC, which is not part of the repository: \<open>System\<close> lets a schedule decide when a request is served
  and whether the call fails.

  A handler that runs off the end of the map has undefined behaviour in C++; here it is a panic.
\<close>

section \<open>The service\<close>

datatype rpc_req =
    PutRequest string string
  | SwapRequest string string
  | GetRequest string
  | ScanRequest string string
  | DeleteRequest string

datatype rpc_res =
    PutResponse bool
  | SwapResponse bool string
  | GetResponse bool string
  | ScanResponse "(string \<times> string) list"
  | DeleteResponse bool

text \<open>Positions in the map stand for iterators; the length of the map is \<open>end()\<close>.\<close>

definition lower_bound :: "string \<Rightarrow> ordmap \<Rightarrow> nat" where
  "lower_bound k m = length (takeWhile (\<lambda>kv. fst kv < k) m)"

definition upper_bound :: "string \<Rightarrow> ordmap \<Rightarrow> nat" where
  "upper_bound k m = length (takeWhile (\<lambda>kv. fst kv \<le> k) m)"

function scan_loop :: "nat \<Rightarrow> nat \<Rightarrow> ordmap \<Rightarrow> (string \<times> string) list rust" where
  "scan_loop it stop m =
     (if it = stop then Done []
      else if it \<ge> length m then Panic ''iterator incremented past the end''
      else (case scan_loop (it + 1) stop m of
              Panic e \<Rightarrow> Panic e
            | Done es \<Rightarrow> Done (m ! it # es)))"
  by pat_completeness auto
termination by (relation "measure (\<lambda>(it, stop, m). length m - it)") auto

declare scan_loop.simps [simp del]

fun KvStoreService :: "rpc_req \<Rightarrow> ordmap \<Rightarrow> (rpc_res \<times> ordmap) rust" where
  "KvStoreService (PutRequest key val) store =
     (let found = om_get store key \<noteq> None
      in Done (PutResponse found, om_insert key val store))"
| "KvStoreService (SwapRequest key val) store =
     (case om_get store key of
        Some old \<Rightarrow> Done (SwapResponse True old, om_insert key val store)
      | None \<Rightarrow> Done (SwapResponse False [], om_insert key val store))"
| "KvStoreService (GetRequest key) store =
     (case om_get store key of
        Some val \<Rightarrow> Done (GetResponse True val, store)
      | None \<Rightarrow> Done (GetResponse False [], store))"
| "KvStoreService (ScanRequest key_start key_end) store =
     (case scan_loop (lower_bound key_start store) (upper_bound key_end store) store of
        Panic e \<Rightarrow> Panic e
      | Done entries \<Rightarrow> Done (ScanResponse entries, store))"
| "KvStoreService (DeleteRequest key) store =
     (case om_get store key of
        Some _ \<Rightarrow> Done (DeleteResponse True, om_remove key store)
      | None \<Rightarrow> Done (DeleteResponse False, store))"

section \<open>The client\<close>

text \<open>\<open>iss >> word\<close> in the C locale; past the end of the line the word stays empty.\<close>

definition is_space :: "char \<Rightarrow> bool" where
  "is_space c \<longleftrightarrow> (of_char c :: nat) \<in> {9, 10, 11, 12, 13, 32}"

definition next_word :: "string \<Rightarrow> string \<times> string" where
  "next_word s =
     (let s' = dropWhile is_space s
      in (takeWhile (\<lambda>c. \<not> is_space c) s', dropWhile (\<lambda>c. \<not> is_space c) s'))"

datatype client_cmd = Rpc rpc_req | Quit | Ignore

definition client_line :: "string \<Rightarrow> client_cmd" where
  "client_line line =
     (let (cmd, s1) = next_word line; (a, s2) = next_word s1; (b, _) = next_word s2
      in if cmd = ''PUT'' then Rpc (PutRequest a b)
         else if cmd = ''SWAP'' then Rpc (SwapRequest a b)
         else if cmd = ''GET'' then Rpc (GetRequest a)
         else if cmd = ''SCAN'' then Rpc (ScanRequest a b)
         else if cmd = ''DELETE'' then Rpc (DeleteRequest a)
         else if cmd = ''STOP'' then Quit
         else Ignore)"

text \<open>What the client prints when a call has succeeded; when it has not, it prints nothing.\<close>

fun client_print :: "rpc_req \<Rightarrow> rpc_res \<Rightarrow> string" where
  "client_print (PutRequest key _) (PutResponse found) =
     ''PUT '' @ key @ '' '' @ (if found then ''found'' else ''not_found'') @ [newline]"
| "client_print (SwapRequest key _) (SwapResponse found old) =
     ''SWAP '' @ key @ '' '' @ (if found then old else ''null'') @ [newline]"
| "client_print (GetRequest key) (GetResponse found val) =
     ''GET '' @ key @ '' '' @ (if found then val else ''null'') @ [newline]"
| "client_print (ScanRequest a b) (ScanResponse entries) =
     ''SCAN '' @ a @ '' '' @ b @ '' BEGIN'' @ [newline]
     @ concat (map (\<lambda>(k, v). ''  '' @ k @ '' '' @ v @ [newline]) entries)
     @ ''SCAN END'' @ [newline]"
| "client_print (DeleteRequest key) (DeleteResponse found) =
     ''DELETE '' @ key @ '' '' @ (if found then ''found'' else ''not_found'') @ [newline]"
| "client_print _ _ = []"

section \<open>Scanning\<close>

lemma scan_loop_range:
  "i \<le> j \<Longrightarrow> j \<le> length m \<Longrightarrow> scan_loop i j m = Done (drop i (take j m))"
proof (induction i j m rule: scan_loop.induct)
  case (1 i j m)
  show ?case
  proof (cases "i = j")
    case False
    with 1 have "i < length (take j m)" by simp
    then have "drop i (take j m) = m ! i # drop (Suc i) (take j m)"
      using 1 False by (simp flip: Cons_nth_drop_Suc)
    with 1 False show ?thesis by (subst scan_loop.simps) simp
  qed (simp add: scan_loop.simps)
qed

lemma scan_loop_past:
  "j < i \<Longrightarrow> i \<le> length m \<Longrightarrow> scan_loop i j m = Panic ''iterator incremented past the end''"
proof (induction i j m rule: scan_loop.induct)
  case (1 i j m)
  then show ?case by (subst scan_loop.simps) auto
qed

lemma upper_bound_le: "upper_bound k m \<le> length m"
  by (simp add: upper_bound_def length_takeWhile_le)

lemma lower_bound_le: "lower_bound k m \<le> length m"
  by (simp add: lower_bound_def length_takeWhile_le)

lemma lower_le_upper: "a \<le> b \<Longrightarrow> lower_bound a m \<le> upper_bound b m"
  unfolding lower_bound_def upper_bound_def by (induction m) (auto dest: order_less_le_trans)

lemma takeWhile_filter:
  "om_inv m \<Longrightarrow> (\<And>x y. x < y \<Longrightarrow> P y \<Longrightarrow> P x) \<Longrightarrow>
     takeWhile (\<lambda>kv. P (fst kv)) m = filter (\<lambda>kv. P (fst kv)) m"
proof (induction m)
  case (Cons kv m)
  obtain k v where [simp]: "kv = (k, v)" by (cases kv)
  from Cons.prems(1) have "\<forall>kv' \<in> set m. k < fst kv'" "om_inv m" by (auto simp: om_inv_Cons)
  then have "\<not> P k \<Longrightarrow> \<forall>kv' \<in> set m. \<not> P (fst kv')" using Cons.prems(2) by blast
  with Cons.IH [OF \<open>om_inv m\<close> Cons.prems(2)] show ?case by simp
qed simp

lemma dropWhile_filter:
  "om_inv m \<Longrightarrow> (\<And>x y. x < y \<Longrightarrow> P y \<Longrightarrow> P x) \<Longrightarrow>
     dropWhile (\<lambda>kv. P (fst kv)) m = filter (\<lambda>kv. \<not> P (fst kv)) m"
proof (induction m)
  case (Cons kv m)
  obtain k v where [simp]: "kv = (k, v)" by (cases kv)
  from Cons.prems(1) have "\<forall>kv' \<in> set m. k < fst kv'" "om_inv m" by (auto simp: om_inv_Cons)
  then have "\<not> P k \<Longrightarrow> \<forall>kv' \<in> set m. \<not> P (fst kv')" using Cons.prems(2) by blast
  with Cons.IH [OF \<open>om_inv m\<close> Cons.prems(2)] show ?case by simp
qed simp

lemma scan_range:
  assumes "om_inv m" and "a \<le> b"
  shows "scan_loop (lower_bound a m) (upper_bound b m) m = Done (om_select (closed_range a b) m)"
proof -
  let ?lt = "\<lambda>kv :: string \<times> string. fst kv < a" and ?le = "\<lambda>kv :: string \<times> string. fst kv \<le> b"
  have le: "takeWhile ?le m = filter ?le m" and inv: "om_inv (filter ?le m)"
    using assms(1) by (auto intro: takeWhile_filter om_inv_filter)
  have "takeWhile ?lt m = takeWhile ?lt (takeWhile ?le m)"
    using assms(2) by (induction m) (auto dest: order_less_le_trans)
  then have "drop (lower_bound a m) (take (upper_bound b m) m) = dropWhile ?lt (takeWhile ?le m)"
    by (simp add: lower_bound_def upper_bound_def dropWhile_eq_drop flip: takeWhile_eq_take)
  also have "\<dots> = filter (\<lambda>kv. \<not> fst kv < a) (filter ?le m)"
    unfolding le by (rule dropWhile_filter [OF inv]) auto
  also have "\<dots> = om_select (closed_range a b) m"
    by (simp add: om_select_def closed_range_def not_less conj_commute)
  finally show ?thesis
    using scan_loop_range [OF lower_le_upper [OF assms(2)] upper_bound_le] by simp
qed

section \<open>Client and service together\<close>

text \<open>The request of a call and the response of a reply, as the fuzzer sees them.\<close>

fun req_of :: "KvCall \<Rightarrow> rpc_req option" where
  "req_of (CPut k v) = Some (PutRequest k v)"
| "req_of (CSwap k v) = Some (SwapRequest k v)"
| "req_of (CGet k) = Some (GetRequest k)"
| "req_of (CScan a b) = Some (ScanRequest a b)"
| "req_of (CDelete k) = Some (DeleteRequest k)"
| "req_of CStop = None"

fun resp_of :: "rpc_req \<Rightarrow> rpc_res \<Rightarrow> KvResp" where
  "resp_of (PutRequest k _) (PutResponse b) = RPut k b"
| "resp_of (SwapRequest k _) (SwapResponse b v) = RSwap k (if b then Some v else None)"
| "resp_of (GetRequest k) (GetResponse b v) = RGet k (if b then Some v else None)"
| "resp_of (ScanRequest a b) (ScanResponse es) = RScan a b es"
| "resp_of (DeleteRequest k) (DeleteResponse b) = RDelete k b"
| "resp_of _ _ = RStop"

definition kvstore_call :: "KvCall \<Rightarrow> ordmap \<Rightarrow> (KvResp \<times> ordmap) rust" where
  "kvstore_call c store =
     (case req_of c of
        None \<Rightarrow> Done (RStop, store)
      | Some req \<Rightarrow>
          (case KvStoreService req store of
             Panic e \<Rightarrow> Panic e
           | Done (res, store') \<Rightarrow> Done (resp_of req res, store')))"

lemma kvstore_call_done:
  "om_inv s \<Longrightarrow> call_ordered c \<Longrightarrow> \<exists>r s'. kvstore_call c s = Done (r, s')"
  by (cases c) (auto simp: kvstore_call_def scan_range Let_def split: option.split)

lemma scan_unordered:
  assumes "scan_loop (lower_bound a m) (upper_bound b m) m = Done es" and "om_inv m"
  shows "es = om_select (closed_range a b) m"
proof (cases "a \<le> b")
  case True
  with assms show ?thesis by (simp add: scan_range)
next
  case False
  have "es = []"
  proof (rule ccontr)
    assume "es \<noteq> []"
    then have "lower_bound a m < upper_bound b m"
      using assms(1) scan_loop_past [OF _ lower_bound_le, of "upper_bound b m" a m]
      by (cases "lower_bound a m" "upper_bound b m" rule: linorder_cases) (auto simp: scan_loop.simps)
    moreover have "upper_bound b m \<le> lower_bound a m"
      unfolding lower_bound_def upper_bound_def using False by (induction m) auto
    ultimately show False by simp
  qed
  moreover have "om_select (closed_range a b) m = []"
    using False by (auto simp: om_select_def closed_range_def filter_empty_conv)
  ultimately show ?thesis by simp
qed

interpretation kvstore: kv_object kvstore_call om_get om_inv closed_range
proof unfold_locales
  fix s c r s' assume inv: "om_inv s" and step: "kvstore_call c s = Done (r, s')"
  show "om_inv s'"
    using inv step by (cases c) (auto simp: kvstore_call_def Let_def split: option.splits rust.splits)
  show "om_get s' = kv_apply c (om_get s)"
    using inv step
    by (cases c) (auto simp: kvstore_call_def Let_def split: option.splits rust.splits)
  show "resp_ok closed_range c (om_get s) r"
    using inv step
    by (cases c) (auto simp: kvstore_call_def Let_def om.select_sorted om.select_map_of
        dest!: scan_unordered split: option.splits rust.splits)
next
  fix s c assume "om_inv s" "call_ordered c"
  then show "\<exists>r s'. kvstore_call c s = Done (r, s')" by (rule kvstore_call_done)
qed

section \<open>Properties\<close>

text \<open>C16: the server implements the abstract key-value map with closed scans: on any sequence of calls
  whose scans are not reversed, every handler returns, answers as the map does at that point, and the
  store ends in the state of the map.\<close>

theorem kvstore_refines_map:
  assumes "list_all call_ordered cs"
  shows "\<exists>rs st. run_calls kvstore_call cs om_empty = Done (rs, st) \<and> length rs = length cs
    \<and> om_get st = fold kv_apply cs Map.empty
    \<and> (\<forall>i < length cs. resp_ok closed_range (cs ! i) (fold kv_apply (take i cs) Map.empty) (rs ! i))"
proof -
  obtain rs st where run: "run_calls kvstore_call cs om_empty = Done (rs, st)"
    using kvstore.run_calls_done [OF om.inv_empty assms] by blast
  with kvstore.run_calls_resp [OF om.inv_empty run] kvstore.run_calls_abs [OF om.inv_empty run]
  show ?thesis by simp
qed

theorem kvstore_refines_map_witness:
  "\<exists>rs st. run_calls kvstore_call [CPut ''a'' ''1'', CScan ''a'' ''a''] om_empty = Done (rs, st)
     \<and> length rs = 2 \<and> om_get st ''a'' = Some ''1''"
  using kvstore_refines_map [of "[CPut ''a'' ''1'', CScan ''a'' ''a'']"] by auto

text \<open>C24: the server and the reference client agree on every call but a scan; on a scan with ordered
  bounds they differ exactly in the entry of the end key, which only the server returns.\<close>

theorem stores_differ_on_scan_end:
  assumes "bt_inv t" and "om_inv st" and "bt_get t = om_get st" and "call_ordered c"
    and "handle_kv_call c t = Done (r, t1)" and "kvstore_call c st = Done (r', st2)"
  shows "bt_get t1 = om_get st2 \<and>
    (case c of
       CScan a b \<Rightarrow> \<exists>es. r = RScan a b es \<and>
         r' = RScan a b (es @ (case om_get st b of None \<Rightarrow> [] | Some v \<Rightarrow> [(b, v)]))
     | _ \<Rightarrow> r' = r)"
proof -
  note ref = refcli.step_resp [OF assms(1,5), unfolded assms(3)] refcli.step_abs [OF assms(1,5), unfolded assms(3)]
  note srv = kvstore.step_resp [OF assms(2,6)] kvstore.step_abs [OF assms(2,6)]
  show ?thesis
  proof (cases c)
    case (CScan a b)
    with ref(1) srv(1) obtain es es' where r: "r = RScan a b es" "r' = RScan a b es'"
      and sorted: "sorted_wrt (<) (map fst es)" "sorted_wrt (<) (map fst es')"
      and es: "map_of es = om_get st |` {k. half_open_range a b k}"
        "map_of es' = om_get st |` {k. closed_range a b k}" by auto
    let ?tail = "case om_get st b of None \<Rightarrow> [] | Some v \<Rightarrow> [(b, v)]"
    have lt: "k < b" if "k \<in> fst ` set es" for k
    proof -
      from that have "map_of es k \<noteq> None" by (simp add: map_of_eq_None_iff)
      then show ?thesis unfolding es by (auto simp: restrict_map_def half_open_range_def split: if_splits)
    qed
    have "es' = es @ ?tail"
    proof (rule sorted_alist_eqI [OF sorted(2)])
      show "sorted_wrt (<) (map fst (es @ ?tail))"
        using sorted(1) lt by (auto simp: sorted_wrt_append split: option.split)
      have "a \<le> b" using assms(4) CScan by simp
      moreover have "map_of es b = None" using lt by (auto simp: map_of_eq_None_iff)
      ultimately show "map_of es' = map_of (es @ ?tail)"
        by (auto simp: es map_add_def restrict_map_def closed_range_def half_open_range_def fun_eq_iff
            split: option.splits)
    qed
    with r ref(2) srv(2) CScan show ?thesis by simp
  qed (use ref srv in simp_all)
qed

theorem stores_differ_on_scan_end_witness:
  "handle_kv_call (CScan ''a'' ''b'') (Root [(''a'', ''1''), (''b'', ''2'')]) =
     Done (RScan ''a'' ''b'' [(''a'', ''1'')], Root [(''a'', ''1''), (''b'', ''2'')])
   \<and> kvstore_call (CScan ''a'' ''b'') [(''a'', ''1''), (''b'', ''2'')] =
     Done (RScan ''a'' ''b'' ([(''a'', ''1'')] @ [(''b'', ''2'')]), [(''a'', ''1''), (''b'', ''2'')])"
proof -
  let ?st = "[(''a'', ''1''), (''b'', ''2'')]"
  have inv: "om_inv ?st" by (simp add: om_inv_def)
  then have bt: "bt_inv (Root ?st)" "bt_get (Root ?st) = om_get ?st" by (simp_all add: bt_inv_def bt_get_def)
  have ref: "handle_kv_call (CScan ''a'' ''b'') (Root ?st) = Done (RScan ''a'' ''b'' [(''a'', ''1'')], Root ?st)"
    by (simp add: om_select_def half_open_range_def)
  obtain r' st2 where srv: "kvstore_call (CScan ''a'' ''b'') ?st = Done (r', st2)"
    using kvstore_call_done [OF inv, of "CScan ''a'' ''b''"] by auto
  then have "st2 = ?st" by (auto simp: kvstore_call_def split: rust.splits)
  with stores_differ_on_scan_end [OF bt(1) inv bt(2) _ ref srv] ref srv show ?thesis by (simp add: om_get_def)
qed

text \<open>C33: a scan handler runs off the end of the map exactly if the bounds are reversed and some stored
  key lies strictly between them.\<close>

theorem kvstore_scan_undefined:
  assumes "om_inv st"
  shows "(\<exists>e. KvStoreService (ScanRequest a b) st = Panic e) \<longleftrightarrow> (\<exists>k. om_get st k \<noteq> None \<and> b < k \<and> k < a)"
proof -
  have "takeWhile (\<lambda>kv. fst kv < a) st = filter (\<lambda>kv. fst kv < a) st"
    "takeWhile (\<lambda>kv. fst kv \<le> b) st = filter (\<lambda>kv. fst kv \<le> b) st"
    using assms by (auto intro: takeWhile_filter)
  then have bounds: "lower_bound a st = length (filter (\<lambda>kv. fst kv < a) st)"
    "upper_bound b st = length (filter (\<lambda>kv. fst kv \<le> b) st)"
    by (simp_all add: lower_bound_def upper_bound_def)
  have "(\<exists>e. KvStoreService (ScanRequest a b) st = Panic e) \<longleftrightarrow> upper_bound b st < lower_bound a st"
    using scan_loop_range [OF _ upper_bound_le, of "lower_bound a st" b st]
      scan_loop_past [OF _ lower_bound_le, of "upper_bound b st" a st]
    by (cases "upper_bound b st < lower_bound a st") auto
  also have "\<dots> \<longleftrightarrow> (\<exists>kv \<in> set st. b < fst kv \<and> fst kv < a)"
  proof (cases "a \<le> b")
    case True
    with lower_le_upper [OF True, of st] show ?thesis by auto
  next
    case False
    then have "filter (\<lambda>kv. fst kv \<le> b) st = filter (\<lambda>kv. fst kv \<le> b) (filter (\<lambda>kv. fst kv < a) st)"
      by (auto simp: not_le intro!: filter_cong dest: order_le_less_trans)
    then have "upper_bound b st < lower_bound a st \<longleftrightarrow>
        (\<exists>kv \<in> set (filter (\<lambda>kv. fst kv < a) st). \<not> fst kv \<le> b)"
      unfolding bounds
      using length_filter_less [of _ "filter (\<lambda>kv. fst kv < a) st" "\<lambda>kv. fst kv \<le> b"]
      by (metis (mono_tags, lifting) filter_id_conv less_irrefl)
    also have "\<dots> \<longleftrightarrow> (\<exists>kv \<in> set st. b < fst kv \<and> fst kv < a)" by (simp only: set_filter not_le) blast
    finally show ?thesis .
  qed
  also have "\<dots> \<longleftrightarrow> (\<exists>k. om_get st k \<noteq> None \<and> b < k \<and> k < a)"
    by (force simp: om_get_def map_of_eq_None_iff)
  finally show ?thesis .
qed

theorem kvstore_scan_undefined_witness:
  "\<exists>e. KvStoreService (ScanRequest ''c'' ''a'') [(''b'', ''1'')] = Panic e"
proof -
  have "om_inv [(''b'', ''1'')]" by (simp add: om_inv_def)
  from kvstore_scan_undefined [OF this, of "''c''" "''a''"] show ?thesis
    by (auto simp: om_get_def)
qed

end
