(* ===== verification/Fuzz_Random.thy ===== *)
theory Fuzz_Random
  imports Ioapi
begin

text \<open>
  The randomization helpers of the fuzzer (\<open>runner/src/bin/fuzzer/random.rs\<close>) and the statistics
  they update (\<open>Stats\<close> of \<open>runner/src/bin/fuzzer/main.rs\<close>).

  The random number generator is the \<open>rand\<close> crate, which is not part of the repository: it is a
  record of operations over a generator state, a parameter of every definition that draws from it,
  and \<open>rng_ok\<close> states what its documentation promises.  A bit vector is a list of booleans.
  Counters are 64-bit words; a position in a vector is a natural number.
\<close>

record 'g rng_ops =
  random_range :: "'g \<Rightarrow> nat \<Rightarrow> nat \<times> 'g"
  random_bool :: "'g \<Rightarrow> bool \<times> 'g"
  sample_string :: "'g \<Rightarrow> nat \<Rightarrow> string \<times> 'g"

definition is_alphanumeric :: "char \<Rightarrow> bool" where
  "is_alphanumeric c \<longleftrightarrow>
     (let n = (of_char c :: nat) in 48 \<le> n \<and> n \<le> 57 \<or> 65 \<le> n \<and> n \<le> 90 \<or> 97 \<le> n \<and> n \<le> 122)"

definition rng_ok :: "'g rng_ops \<Rightarrow> bool" where
  "rng_ok R \<longleftrightarrow>
     (\<forall>g mx. 0 < mx \<longrightarrow> fst (random_range R g mx) < mx) \<and>
     (\<forall>g len. length (fst (sample_string R g len)) = len
        \<and> list_all is_alphanumeric (fst (sample_string R g len)))"

definition KEY_LEN :: nat where "KEY_LEN = 8"
definition VALUE_LEN :: nat where "VALUE_LEN = 16"

definition gen_rand_index :: "'g rng_ops \<Rightarrow> nat \<Rightarrow> 'g \<Rightarrow> (nat \<times> 'g) rust" where
  "gen_rand_index R mx g =
     (if mx = 0 then Panic ''cannot sample empty range'' else Done (random_range R g mx))"

definition gen_rand_string :: "'g rng_ops \<Rightarrow> nat \<Rightarrow> 'g \<Rightarrow> string \<times> 'g" where
  "gen_rand_string R len g = sample_string R g len"

definition gen_call_vs_wait ::
  "'g rng_ops \<Rightarrow> usize \<Rightarrow> usize \<Rightarrow> bool list \<Rightarrow> 'g \<Rightarrow> bool \<times> 'g" where
  "gen_call_vs_wait R ops_called num_ops flying g =
     (if ops_called = num_ops \<or> list_all (\<lambda>b. b) flying then (False, g)
      else if list_all Not flying then (True, g)
      else random_bool R g)"

partial_function (option) gen_rand_client ::
  "'g rng_ops \<Rightarrow> bool list \<Rightarrow> bool \<Rightarrow> 'g \<Rightarrow> (nat \<times> 'g) rust option" where
  "gen_rand_client R flying want_flying g =
     (case gen_rand_index R (length flying) g of
        Panic m \<Rightarrow> Some (Panic m)
      | Done (cidx, g') \<Rightarrow>
          if cidx \<ge> length flying then Some (Panic ''called Option::unwrap() on a None value'')
          else if flying ! cidx = want_flying then Some (Done (cidx, g'))
          else gen_rand_client R flying want_flying g')"

section \<open>Statistics\<close>

record Stats =
  cnt_put :: usize
  cnt_swap :: usize
  cnt_get :: usize
  cnt_scan :: usize
  cnt_delete :: usize
  keys_freq :: "usize list list"

definition Stats_new :: "string list list \<Rightarrow> Stats" where
  "Stats_new keys =
     \<lparr>cnt_put = 0, cnt_swap = 0, cnt_get = 0, cnt_scan = 0, cnt_delete = 0,
      keys_freq = map (\<lambda>ks. replicate (length ks) 0) keys\<rparr>"

text \<open>\<open>keys_freq[cidx][kidx] += 1\<close>, which panics outside the bounds.\<close>

definition bump_freq :: "nat \<Rightarrow> nat \<Rightarrow> usize list list \<Rightarrow> usize list list rust" where
  "bump_freq cidx kidx freq =
     (if cidx < length freq \<and> kidx < length (freq ! cidx)
      then Done (freq[cidx := (freq ! cidx)[kidx := freq ! cidx ! kidx + 1]])
      else Panic ''index out of bounds'')"

text \<open>Drawing a key: its index, and the count of that index.\<close>

definition draw_key ::
  "'g rng_ops \<Rightarrow> string list \<Rightarrow> nat \<Rightarrow> usize list list \<Rightarrow> 'g \<Rightarrow> (nat \<times> usize list list \<times> 'g) rust" where
  "draw_key R keys cidx freq g =
     (case gen_rand_index R (length keys) g of
        Panic m \<Rightarrow> Panic m
      | Done (kidx, g') \<Rightarrow>
          (case bump_freq cidx kidx freq of
             Panic m \<Rightarrow> Panic m
           | Done freq' \<Rightarrow> Done (kidx, freq', g')))"

definition gen_rand_scan ::
  "'g rng_ops \<Rightarrow> string list \<Rightarrow> Stats \<Rightarrow> nat \<Rightarrow> 'g \<Rightarrow> (KvCall \<times> Stats \<times> 'g) rust" where
  "gen_rand_scan R keys stats cidx g =
     (case gen_rand_index R (length keys) g of
        Panic m \<Rightarrow> Panic m
      | Done (ksidx, g1) \<Rightarrow>
          (case gen_rand_index R (length keys) g1 of
             Panic m \<Rightarrow> Panic m
           | Done (keidx, g2) \<Rightarrow>
               (let key_start = keys ! ksidx; key_end = keys ! keidx;
                    (lo, hi) = (if key_end < key_start then (key_end, key_start)
                                else (key_start, key_end))
                in case bump_freq cidx ksidx (keys_freq stats) of
                     Panic m \<Rightarrow> Panic m
                   | Done freq1 \<Rightarrow>
                       (case bump_freq cidx keidx freq1 of
                          Panic m \<Rightarrow> Panic m
                        | Done freq2 \<Rightarrow>
                            Done (CScan lo hi,
                              stats\<lparr>cnt_scan := cnt_scan stats + 1, keys_freq := freq2\<rparr>, g2)))))"

definition gen_rand_kvcall ::
  "'g rng_ops \<Rightarrow> string list \<Rightarrow> Stats \<Rightarrow> nat \<Rightarrow> 'g \<Rightarrow> (KvCall \<times> Stats \<times> 'g) rust" where
  "gen_rand_kvcall R keys stats cidx g =
     (case gen_rand_index R 10 g of
        Panic m \<Rightarrow> Panic m
      | Done (op, g0) \<Rightarrow>
          if op \<le> 1 then
            (case draw_key R keys cidx (keys_freq stats) g0 of
               Panic m \<Rightarrow> Panic m
             | Done (kidx, freq, g1) \<Rightarrow>
                 (let (val, g2) = gen_rand_string R VALUE_LEN g1
                  in Done (CPut (keys ! kidx) val,
                       stats\<lparr>cnt_put := cnt_put stats + 1, keys_freq := freq\<rparr>, g2)))
          else if op \<le> 3 then
            (case draw_key R keys cidx (keys_freq stats) g0 of
               Panic m \<Rightarrow> Panic m
             | Done (kidx, freq, g1) \<Rightarrow>
                 (let (val, g2) = gen_rand_string R VALUE_LEN g1
                  in Done (CSwap (keys ! kidx) val,
                       stats\<lparr>cnt_swap := cnt_swap stats + 1, keys_freq := freq\<rparr>, g2)))
          else if op \<le> 6 then
            (case draw_key R keys cidx (keys_freq stats) g0 of
               Panic m \<Rightarrow> Panic m
             | Done (kidx, freq, g1) \<Rightarrow>
                 Done (CGet (keys ! kidx),
                   stats\<lparr>cnt_get := cnt_get stats + 1, keys_freq := freq\<rparr>, g1))
          else if op \<le> 8 then gen_rand_scan R keys stats cidx g0
          else if op = 9 then
            (case draw_key R keys cidx (keys_freq stats) g0 of
               Panic m \<Rightarrow> Panic m
             | Done (kidx, freq, g1) \<Rightarrow>
                 Done (CDelete (keys ! kidx),
                   stats\<lparr>cnt_delete := cnt_delete stats + 1, keys_freq := freq\<rparr>, g1))
          else Panic ''random KvCall variant out of range'')"

section \<open>What the generators produce\<close>

lemma rng_ok_range: "rng_ok R \<Longrightarrow> 0 < n \<Longrightarrow> random_range R g n = (i, g') \<Longrightarrow> i < n"
  unfolding rng_ok_def by (metis fst_conv)

lemma rng_ok_string:
  "rng_ok R \<Longrightarrow> sample_string R g n = (s, g') \<Longrightarrow> length s = n \<and> list_all is_alphanumeric s"
  unfolding rng_ok_def by (metis fst_conv)

lemma gen_rand_index_Done:
  "rng_ok R \<Longrightarrow> gen_rand_index R n g = Done (i, g') \<Longrightarrow> i < n"
  by (auto simp: gen_rand_index_def dest: rng_ok_range split: if_splits)

lemma gen_rand_index_total: "0 < n \<Longrightarrow> gen_rand_index R n g = Done (random_range R g n)"
  by (simp add: gen_rand_index_def)

text \<open>The shape of the statistics: one counter per key of each client.\<close>

definition stats_shape :: "string list list \<Rightarrow> Stats \<Rightarrow> bool" where
  "stats_shape keys stats \<longleftrightarrow> map length (keys_freq stats) = map length keys"

lemma bump_freq_ok:
  assumes "map length freq = map length keys" and "c < length keys" and "k < length (keys ! c)"
  shows "\<exists>freq'. bump_freq c k freq = Done freq' \<and> map length freq' = map length keys"
proof -
  have len: "length freq = length keys" using assms(1) by (rule map_eq_imp_length_eq)
  with assms have "length (freq ! c) = length (keys ! c)" by (metis nth_map)
  with assms len show ?thesis
    by (auto simp: bump_freq_def map_update list_update_same_conv)
qed

lemma draw_key_ok:
  assumes "rng_ok R" and "map length freq = map length keys" and "c < length keys" and "keys ! c \<noteq> []"
  shows "\<exists>k freq' g'. draw_key R (keys ! c) c freq g = Done (k, freq', g')
    \<and> k < length (keys ! c) \<and> map length freq' = map length keys"
proof -
  obtain k g' where r: "random_range R g (length (keys ! c)) = (k, g')" by fastforce
  with assms(1,4) have k: "k < length (keys ! c)" by (metis length_greater_0_conv rng_ok_range)
  with bump_freq_ok [OF assms(2,3)] obtain freq' where
    "bump_freq c k freq = Done freq'" "map length freq' = map length keys" by blast
  with r k assms(4) show ?thesis by (simp add: draw_key_def gen_rand_index_def)
qed

text \<open>
  The calls the fuzzer can issue: over the keys of its pool, with values of 16 alphanumeric
  characters and with ordered scan bounds; never a stop.
\<close>

definition value_gen :: "string \<Rightarrow> bool" where
  "value_gen v \<longleftrightarrow> length v = VALUE_LEN \<and> list_all is_alphanumeric v"

fun fuzz_call_ok :: "string set \<Rightarrow> KvCall \<Rightarrow> bool" where
  "fuzz_call_ok pool (CPut k v) \<longleftrightarrow> k \<in> pool \<and> value_gen v"
| "fuzz_call_ok pool (CSwap k v) \<longleftrightarrow> k \<in> pool \<and> value_gen v"
| "fuzz_call_ok pool (CGet k) \<longleftrightarrow> k \<in> pool"
| "fuzz_call_ok pool (CScan a b) \<longleftrightarrow> a \<in> pool \<and> b \<in> pool \<and> a \<le> b"
| "fuzz_call_ok pool (CDelete k) \<longleftrightarrow> k \<in> pool"
| "fuzz_call_ok pool CStop \<longleftrightarrow> False"

lemma gen_rand_scan_ok:
  assumes "rng_ok R" and "stats_shape keys stats" and "c < length keys" and "keys ! c \<noteq> []"
  shows "\<exists>call stats' g'. gen_rand_scan R (keys ! c) stats c g = Done (call, stats', g')
    \<and> fuzz_call_ok (set (keys ! c)) call \<and> stats_shape keys stats'"
proof -
  let ?ks = "keys ! c"
  obtain k1 g1 where r1: "random_range R g (length ?ks) = (k1, g1)" by fastforce
  obtain k2 g2 where r2: "random_range R g1 (length ?ks) = (k2, g2)" by fastforce
  have k: "k1 < length ?ks" "k2 < length ?ks"
    using r1 r2 assms(1,4) by (metis length_greater_0_conv rng_ok_range)+
  obtain f1 where f1: "bump_freq c k1 (keys_freq stats) = Done f1" "map length f1 = map length keys"
    using bump_freq_ok assms(2,3) k(1) unfolding stats_shape_def by blast
  obtain f2 where f2: "bump_freq c k2 f1 = Done f2" "map length f2 = map length keys"
    using bump_freq_ok [OF f1(2) assms(3) k(2)] by blast
  show ?thesis
    using r1 r2 k f1 f2 assms(4)
    by (auto simp: gen_rand_scan_def gen_rand_index_def Let_def stats_shape_def not_less
        split: prod.split)
qed

lemma gen_rand_kvcall_ok:
  assumes R: "rng_ok R" and shape: "stats_shape keys stats"
    and c: "c < length keys" "keys ! c \<noteq> []"
  shows "\<exists>call stats' g'. gen_rand_kvcall R (keys ! c) stats c g = Done (call, stats', g')
    \<and> fuzz_call_ok (set (keys ! c)) call \<and> stats_shape keys stats'"
proof -
  obtain op g0 where op: "random_range R g 10 = (op, g0)" by fastforce
  have op10: "op < 10" using R op by (metis rng_ok_range zero_less_numeral)
  obtain k freq g1 where dk: "draw_key R (keys ! c) c (keys_freq stats) g0 = Done (k, freq, g1)"
    and k: "k < length (keys ! c)" and freq: "map length freq = map length keys"
    using draw_key_ok [OF R _ c] shape unfolding stats_shape_def by blast
  obtain v g2 where v: "sample_string R g1 VALUE_LEN = (v, g2)" by fastforce
  have "value_gen v" using rng_ok_string [OF R v] by (simp add: value_gen_def)
  moreover obtain call stats' g3 where "gen_rand_scan R (keys ! c) stats c g0 = Done (call, stats', g3)"
    "fuzz_call_ok (set (keys ! c)) call" "stats_shape keys stats'"
    using gen_rand_scan_ok [OF R shape c] by blast
  ultimately show ?thesis
    using op op10 dk k freq v
    by (auto simp: gen_rand_kvcall_def gen_rand_index_def gen_rand_string_def stats_shape_def)
qed

lemma gen_rand_client_sound:
  assumes "rng_ok R" and ret: "gen_rand_client R flying want g = Some r"
  shows "flying = [] \<or> (\<exists>c g'. r = Done (c, g') \<and> c < length flying \<and> flying ! c = want)"
proof -
  let ?Q = "\<lambda>R flying want r. rng_ok R \<longrightarrow> flying = [] \<or>
    (\<exists>c g'. r = Done (c, g') \<and> c < length flying \<and> flying ! c = want)"
  have "?Q R flying want r"
  proof (rule gen_rand_client.raw_induct [where P = "\<lambda>R flying want g r. ?Q R flying want r", OF _ ret],
      rule impI)
    fix f and R :: "'a rng_ops" and flying want g r
    assume IH: "\<And>R flying want g r. f R flying want g = Some r \<Longrightarrow> ?Q R flying want r"
      and eq: "(case gen_rand_index R (length flying) g of
        Panic m \<Rightarrow> Some (Panic m)
      | Done (cidx, g') \<Rightarrow>
          if cidx \<ge> length flying then Some (Panic ''called Option::unwrap() on a None value'')
          else if flying ! cidx = want then Some (Done (cidx, g'))
          else f R flying want g') = Some r" and R: "rng_ok R"
    show "flying = [] \<or> (\<exists>c g'. r = Done (c, g') \<and> c < length flying \<and> flying ! c = want)"
    proof (cases "flying = []")
      case False
      obtain c g' where cg: "random_range R g (length flying) = (c, g')" by fastforce
      with R False have c: "c < length flying" by (metis length_greater_0_conv rng_ok_range)
      from cg False have idx: "gen_rand_index R (length flying) g = Done (c, g')"
        by (simp add: gen_rand_index_def)
      show ?thesis
      proof (cases "flying ! c = want")
        case True
        with eq c have "r = Done (c, g')" by (simp add: idx)
        with c True show ?thesis by blast
      next
        case False
        with eq c have "f R flying want g' = Some r" by (simp add: idx)
        from IH [OF this] R show ?thesis by blast
      qed
    qed simp
  qed
  with assms(1) show ?thesis by blast
qed

section \<open>A generator\<close>

text \<open>
  A round-robin generator, whose state counts the draws.  It satisfies what is assumed of generators
  and is used to apply the results to concrete runs.
\<close>

definition round_robin :: "nat rng_ops" where
  "round_robin =
     \<lparr>random_range = (\<lambda>g n. (g mod n, Suc g)), random_bool = (\<lambda>g. (even g, Suc g)),
      sample_string = (\<lambda>g n. (replicate n (char_of (48 + g mod 10)), Suc g))\<rparr>"

lemma round_robin_ok: "rng_ok round_robin"
proof -
  have "is_alphanumeric (char_of (48 + d mod 10))" for d :: nat
  proof -
    have "d mod 10 < 10" by (rule mod_less_divisor) simp
    then have "(of_char (char_of (48 + d mod 10)) :: nat) = 48 + d mod 10" by (simp add: of_char_of)
    then show ?thesis using \<open>d mod 10 < 10\<close> by (auto simp: is_alphanumeric_def Let_def)
  qed
  then show ?thesis by (simp add: rng_ok_def round_robin_def list_all_iff)
qed

section \<open>Properties\<close>

text \<open>C30: generating a random call never panics and yields a call of the fuzzer's vocabulary: over the
  keys of the chosen client, with 16 alphanumeric characters as values, scan bounds in order, and never
  a stop; the counters keep their shape.\<close>

theorem random_call_valid:
  assumes "rng_ok R" and "stats_shape keys stats" and "c < length keys" and "keys ! c \<noteq> []"
  shows "\<exists>call stats' g'. gen_rand_kvcall R (keys ! c) stats c g = Done (call, stats', g')
    \<and> fuzz_call_ok (set (keys ! c)) call \<and> stats_shape keys stats'"
  using gen_rand_kvcall_ok [OF assms] .

theorem random_call_valid_witness:
  "\<exists>call stats' g'. gen_rand_kvcall round_robin [''a'', ''b''] (Stats_new [[''a'', ''b'']]) 0 7 = Done (call, stats', g')
     \<and> fuzz_call_ok {''a'', ''b''} call"
proof -
  have "stats_shape [[''a'', ''b'']] (Stats_new [[''a'', ''b'']])" by (simp add: stats_shape_def Stats_new_def)
  from random_call_valid [OF round_robin_ok this, of 0 7] show ?thesis by auto
qed

end
