(* ===== verification/History.thy ===== *)
theory History
  imports Ioapi
begin

text \<open>
  The approximate real-time consistency checker of the fuzzer
  (\<open>runner/src/bin/fuzzer/history.rs\<close>).  It keeps, per key and per client, a trimmed history of the
  acknowledged updates with their call and response timestamps, and a queue of responses that are
  checked once every client has moved past them.

  The hash map from keys to histories is an association list with distinct keys (its iteration order
  does not matter, see \<open>check_scan_perm\<close>); vectors and deques are lists.  Indexing a vector out of its
  bounds panics.  The runner is built in release mode, where \<open>debug_assert!\<close> is not compiled;
  \<open>Fuzz_Asserts\<close> proves that the conditions hold anyway.
\<close>

record UpdateSpan =
  us_call :: u64
  us_resp :: u64
  us_value :: "string option"

record QueuedSpan =
  qs_call :: u64
  qs_resp :: u64
  qs_kvresp :: KvResp

type_synonym spans_map = "(string \<times> UpdateSpan list list) list"

record History =
  queue :: "QueuedSpan list"
  spans :: spans_map
  maxtr :: "u64 list"

section \<open>Creating a history and queueing a response\<close>

definition dummy_span :: UpdateSpan where
  "dummy_span = \<lparr>us_call = 0, us_resp = 0, us_value = None\<rparr>"

definition add_key :: "nat \<Rightarrow> string \<Rightarrow> spans_map \<Rightarrow> spans_map" where
  "add_key num_clis key sp =
     (if map_of sp key = None then sp @ [(key, replicate num_clis [dummy_span])] else sp)"

definition History_new :: "nat \<Rightarrow> string list list \<Rightarrow> History" where
  "History_new num_clis keys =
     \<lparr>queue = [],
      spans = fold (\<lambda>cli_keys. fold (add_key num_clis) cli_keys) keys [],
      maxtr = replicate num_clis 0\<rparr>"

definition add_to_queue :: "u64 \<Rightarrow> u64 \<Rightarrow> KvResp \<Rightarrow> History \<Rightarrow> History" where
  "add_to_queue ts_call ts_resp resp h =
     h\<lparr>queue := queue h @ [\<lparr>qs_call = ts_call, qs_resp = ts_resp, qs_kvresp = resp\<rparr>]\<rparr>"

definition queue_len :: "History \<Rightarrow> nat" where
  "queue_len h = length (queue h)"

section \<open>Checking a response\<close>

text \<open>
  The inner loop of the four single-key checks, over the updates of one client from the newest to the
  oldest: succeed on an update that was called before the response and has a matching value, give up
  after an update that had finished before the call.
\<close>

fun scan_spans :: "(string option \<Rightarrow> bool) \<Rightarrow> u64 \<Rightarrow> u64 \<Rightarrow> UpdateSpan list \<Rightarrow> bool" where
  "scan_spans match ts_call ts_resp [] = False"
| "scan_spans match ts_call ts_resp (span # older) =
     (if us_call span < ts_resp \<and> match (us_value span) then True
      else if us_resp span < ts_call then False
      else scan_spans match ts_call ts_resp older)"

definition check_put :: "UpdateSpan list list \<Rightarrow> u64 \<Rightarrow> u64 \<Rightarrow> bool \<Rightarrow> bool" where
  "check_put key_spans ts_call ts_resp found =
     list_ex (\<lambda>cli_spans. scan_spans (\<lambda>v. (v \<noteq> None) = found) ts_call ts_resp (rev cli_spans)) key_spans"

definition check_swap :: "UpdateSpan list list \<Rightarrow> u64 \<Rightarrow> u64 \<Rightarrow> string option \<Rightarrow> bool" where
  "check_swap key_spans ts_call ts_resp old_value =
     list_ex (\<lambda>cli_spans. scan_spans (\<lambda>v. v = old_value) ts_call ts_resp (rev cli_spans)) key_spans"

definition check_get :: "UpdateSpan list list \<Rightarrow> u64 \<Rightarrow> u64 \<Rightarrow> string option \<Rightarrow> bool" where
  "check_get key_spans ts_call ts_resp val =
     list_ex (\<lambda>cli_spans. scan_spans (\<lambda>v. v = val) ts_call ts_resp (rev cli_spans)) key_spans"

definition check_delete :: "UpdateSpan list list \<Rightarrow> u64 \<Rightarrow> u64 \<Rightarrow> bool \<Rightarrow> bool" where
  "check_delete key_spans ts_call ts_resp found =
     list_ex (\<lambda>cli_spans. scan_spans (\<lambda>v. (v \<noteq> None) = found) ts_call ts_resp (rev cli_spans)) key_spans"

fun entries_to_map ::
  "string \<Rightarrow> string \<Rightarrow> (string \<times> string) list \<Rightarrow> (string \<rightharpoonup> string) \<Rightarrow> (string \<rightharpoonup> string) option" where
  "entries_to_map key_start key_end [] m = Some m"
| "entries_to_map key_start key_end ((key, val) # entries) m =
     (if key < key_start \<or> key > key_end then None
      else if m key \<noteq> None then None
      else entries_to_map key_start key_end entries (m(key \<mapsto> val)))"

definition check_scan ::
  "spans_map \<Rightarrow> u64 \<Rightarrow> u64 \<Rightarrow> string \<Rightarrow> string \<Rightarrow> (string \<times> string) list \<Rightarrow> bool" where
  "check_scan sp ts_call ts_resp key_start key_end entries =
     (case entries_to_map key_start key_end entries Map.empty of
        None \<Rightarrow> False
      | Some entries_map \<Rightarrow>
          list_all (\<lambda>(key, key_spans).
            \<not> (key \<ge> key_start \<and> key \<le> key_end
               \<and> \<not> check_get key_spans ts_call ts_resp (entries_map key))) sp)"

definition check_call :: "spans_map \<Rightarrow> QueuedSpan \<Rightarrow> bool" where
  "check_call sp entry =
     (let tc = qs_call entry; tr = qs_resp entry
      in case qs_kvresp entry of
           RPut key found \<Rightarrow>
             (case map_of sp key of Some ks \<Rightarrow> check_put ks tc tr found | None \<Rightarrow> False)
         | RSwap key old_value \<Rightarrow>
             (case map_of sp key of Some ks \<Rightarrow> check_swap ks tc tr old_value | None \<Rightarrow> False)
         | RGet key val \<Rightarrow>
             (case map_of sp key of Some ks \<Rightarrow> check_get ks tc tr val | None \<Rightarrow> False)
         | RScan key_start key_end entries \<Rightarrow> check_scan sp tc tr key_start key_end entries
         | RDelete key found \<Rightarrow>
             (case map_of sp key of Some ks \<Rightarrow> check_delete ks tc tr found | None \<Rightarrow> False)
         | RStop \<Rightarrow> False)"

section \<open>Recording an update\<close>

fun keep_ts_of :: "u64 \<Rightarrow> u64 \<Rightarrow> UpdateSpan list \<Rightarrow> u64" where
  "keep_ts_of min_coming_ts min_queued_ts [] = 0"
| "keep_ts_of min_coming_ts min_queued_ts (span # older) =
     (if us_resp span < min_coming_ts \<and> us_resp span < min_queued_ts then us_call span
      else keep_ts_of min_coming_ts min_queued_ts older)"

fun pop_old :: "u64 \<Rightarrow> UpdateSpan list \<Rightarrow> UpdateSpan list" where
  "pop_old keep_ts (s1 # s2 # rest) =
     (if us_resp s1 < keep_ts then pop_old keep_ts (s2 # rest) else s1 # s2 # rest)"
| "pop_old keep_ts cli_spans = cli_spans"

definition trim_client :: "u64 \<Rightarrow> u64 \<Rightarrow> UpdateSpan list \<Rightarrow> UpdateSpan list" where
  "trim_client min_coming_ts min_queued_ts cli_spans =
     pop_old (keep_ts_of min_coming_ts min_queued_ts (rev cli_spans)) cli_spans"

text \<open>The loop that pops the responses that have become decidable off the queue.\<close>

fun check_queue :: "spans_map \<Rightarrow> u64 \<Rightarrow> QueuedSpan list \<Rightarrow> KvResp option \<times> QueuedSpan list" where
  "check_queue sp min_coming_ts [] = (None, [])"
| "check_queue sp min_coming_ts (entry # q) =
     (if qs_resp entry < min_coming_ts then
        (if check_call sp entry then check_queue sp min_coming_ts q
         else (Some (qs_kvresp entry), q))
      else (None, entry # q))"

text \<open>Replacing the value at a key that is in the association list.\<close>

definition alist_put :: "'k \<Rightarrow> 'v \<Rightarrow> ('k \<times> 'v) list \<Rightarrow> ('k \<times> 'v) list" where
  "alist_put k v m = map (\<lambda>(k', v'). if k' = k then (k', v) else (k', v')) m"

fun min_of :: "u64 \<Rightarrow> u64 list \<Rightarrow> u64" where
  "min_of m [] = m"
| "min_of m (x # xs) = min_of (min m x) xs"

definition apply_update ::
  "nat \<Rightarrow> u64 \<Rightarrow> u64 \<Rightarrow> string \<Rightarrow> string option \<Rightarrow> History
     \<Rightarrow> (KvResp option option \<times> History) rust" where
  "apply_update cidx ts_call ts_resp key val h =
     (case map_of (spans h) key of
        None \<Rightarrow> Done (Some None, h)
      | Some key_spans \<Rightarrow>
          if cidx \<ge> length key_spans \<or> cidx \<ge> length (maxtr h) then Panic ''index out of bounds''
          else
            (let span = \<lparr>us_call = ts_call, us_resp = ts_resp, us_value = val\<rparr>;
                 key_spans1 = key_spans[cidx := key_spans ! cidx @ [span]];
                 maxtr' = (maxtr h)[cidx := ts_resp];
                 min_coming_ts = min_of (hd maxtr') (tl maxtr');
                 min_queued_ts = min_of u64_MAX (map qs_call (queue h));
                 key_spans2 = map (trim_client min_coming_ts min_queued_ts) key_spans1;
                 spans' = alist_put key key_spans2 (spans h);
                 (failed, queue') = check_queue spans' min_coming_ts (queue h)
             in Done (map_option Some failed,
                  \<lparr>queue = queue', spans = spans', maxtr = maxtr'\<rparr>)))"

section \<open>Acknowledging a response\<close>

text \<open>
  What the fuzzer does with a response it has harvested: queue it and, if the call was an update,
  record the update.
\<close>

definition acknowledge ::
  "nat \<Rightarrow> u64 \<Rightarrow> u64 \<Rightarrow> KvResp \<Rightarrow> (string \<times> string option) option \<Rightarrow> History
     \<Rightarrow> (KvResp option option \<times> History) rust" where
  "acknowledge cidx ts_call ts_resp resp upd h =
     (let h1 = add_to_queue ts_call ts_resp resp h
      in case upd of
           None \<Rightarrow> Done (None, h1)
         | Some (key, val) \<Rightarrow> apply_update cidx ts_call ts_resp key val h1)"

section \<open>What the checks decide\<close>

text \<open>
  An update is \<open>visible\<close> to an operation that ran from \<open>tc\<close> to \<open>tr\<close> if it was called before \<open>tr\<close> and
  no later update of the same client had finished before \<open>tc\<close>.
\<close>

definition visible :: "(string option \<Rightarrow> bool) \<Rightarrow> u64 \<Rightarrow> u64 \<Rightarrow> UpdateSpan list \<Rightarrow> bool" where
  "visible P tc tr cli \<longleftrightarrow>
     (\<exists>older s newer. cli = older @ s # newer \<and> us_call s < tr \<and> P (us_value s)
        \<and> (\<forall>s' \<in> set newer. \<not> us_resp s' < tc))"

lemma visible_Nil [simp]: "\<not> visible P tc tr []"
  by (simp add: visible_def)

lemma visible_snoc:
  "visible P tc tr (cli @ [s]) \<longleftrightarrow>
     us_call s < tr \<and> P (us_value s) \<or> \<not> us_resp s < tc \<and> visible P tc tr cli"
proof
  assume "visible P tc tr (cli @ [s])"
  then obtain older s0 newer where split: "cli @ [s] = older @ s0 # newer"
    and s0: "us_call s0 < tr" "P (us_value s0)" "\<forall>s' \<in> set newer. \<not> us_resp s' < tc"
    unfolding visible_def by blast
  show "us_call s < tr \<and> P (us_value s) \<or> \<not> us_resp s < tc \<and> visible P tc tr cli"
  proof (cases newer rule: rev_cases)
    case Nil
    with split s0 show ?thesis by simp
  next
    case (snoc newer' s')
    with split have "cli = older @ s0 # newer'" "s' = s" by simp_all
    with s0 snoc show ?thesis unfolding visible_def by auto
  qed
next
  assume "us_call s < tr \<and> P (us_value s) \<or> \<not> us_resp s < tc \<and> visible P tc tr cli"
  then show "visible P tc tr (cli @ [s])"
  proof
    assume "us_call s < tr \<and> P (us_value s)"
    then show ?thesis unfolding visible_def by fastforce
  next
    assume *: "\<not> us_resp s < tc \<and> visible P tc tr cli"
    then obtain older s0 newer where "cli = older @ s0 # newer" "us_call s0 < tr" "P (us_value s0)"
      "\<forall>s' \<in> set newer. \<not> us_resp s' < tc"
      unfolding visible_def by blast
    with * have "cli @ [s] = older @ s0 # (newer @ [s]) \<and> us_call s0 < tr \<and> P (us_value s0)
      \<and> (\<forall>s' \<in> set (newer @ [s]). \<not> us_resp s' < tc)"
      by auto
    then show ?thesis unfolding visible_def by blast
  qed
qed

lemma scan_spans_visible: "scan_spans P tc tr (rev cli) \<longleftrightarrow> visible P tc tr cli"
  by (induction cli rule: rev_induct) (auto simp: visible_snoc)

lemma check_visible:
  "check_put ks tc tr b \<longleftrightarrow> (\<exists>cli \<in> set ks. visible (\<lambda>v. (v \<noteq> None) = b) tc tr cli)"
  "check_delete ks tc tr b \<longleftrightarrow> (\<exists>cli \<in> set ks. visible (\<lambda>v. (v \<noteq> None) = b) tc tr cli)"
  "check_swap ks tc tr v \<longleftrightarrow> (\<exists>cli \<in> set ks. visible (\<lambda>v'. v' = v) tc tr cli)"
  "check_get ks tc tr v \<longleftrightarrow> (\<exists>cli \<in> set ks. visible (\<lambda>v'. v' = v) tc tr cli)"
  by (simp_all add: check_put_def check_delete_def check_swap_def check_get_def
      list_ex_iff scan_spans_visible)

lemma visible_mono: "visible P tc tr cli \<Longrightarrow> (\<And>v. P v \<Longrightarrow> Q v) \<Longrightarrow> visible Q tc tr cli"
  unfolding visible_def by blast

lemma visible_last: "cli \<noteq> [] \<Longrightarrow> us_call (last cli) < tr \<Longrightarrow> P (us_value (last cli)) \<Longrightarrow> visible P tc tr cli"
  using visible_snoc [of P tc tr "butlast cli" "last cli"] by simp

text \<open>The entries of a scan response, read into a map.\<close>

lemma entries_to_map_eq:
  "entries_to_map a b es m =
     (if distinct (map fst es) \<and> (\<forall>k \<in> fst ` set es. a \<le> k \<and> k \<le> b \<and> m k = None)
      then Some (m ++ map_of es) else None)"
proof (induction es arbitrary: m)
  case Nil
  then show ?case by simp
next
  case (Cons kv es)
  obtain k v where kv: "kv = (k, v)" by (cases kv)
  consider "k < a \<or> k > b \<or> m k \<noteq> None" | "\<not> (k < a \<or> k > b \<or> m k \<noteq> None)" "k \<in> fst ` set es"
    | "\<not> (k < a \<or> k > b \<or> m k \<noteq> None)" "k \<notin> fst ` set es" by blast
  then show ?case
  proof cases
    case 1
    then show ?thesis by (auto simp: kv)
  next
    case 2
    then have "entries_to_map a b es (m(k \<mapsto> v)) = None"
      unfolding Cons.IH by auto
    with 2 show ?thesis by (auto simp: kv simp del: fun_upd_apply)
  next
    case 3
    then have "map_of es k = None" by (simp add: map_of_eq_None_iff)
    then have upd: "(m(k \<mapsto> v)) ++ map_of es = m ++ map_of ((k, v) # es)"
      by (auto simp: map_add_def split: option.split)
    have "(\<forall>k' \<in> fst ` set es. a \<le> k' \<and> k' \<le> b \<and> (m(k \<mapsto> v)) k' = None) \<longleftrightarrow>
      (\<forall>k' \<in> fst ` set es. a \<le> k' \<and> k' \<le> b \<and> m k' = None)"
      using 3 by auto
    then have "entries_to_map a b es (m(k \<mapsto> v)) =
      (if distinct (map fst es) \<and> (\<forall>k' \<in> fst ` set es. a \<le> k' \<and> k' \<le> b \<and> m k' = None)
       then Some (m ++ map_of ((k, v) # es)) else None)"
      unfolding Cons.IH upd by (simp only:)
    with 3 show ?thesis
      by (auto simp: kv not_less simp del: fun_upd_apply)
  qed
qed

lemma check_scan_iff:
  "check_scan sp tc tr a b es \<longleftrightarrow>
     distinct (map fst es) \<and> (\<forall>k \<in> fst ` set es. a \<le> k \<and> k \<le> b) \<and>
     (\<forall>(k, ks) \<in> set sp. a \<le> k \<and> k \<le> b \<longrightarrow> check_get ks tc tr (map_of es k))"
proof (cases "entries_to_map a b es Map.empty")
  case None
  then have "\<not> (distinct (map fst es) \<and> (\<forall>k \<in> fst ` set es. a \<le> k \<and> k \<le> b))"
    by (auto simp: entries_to_map_eq split: if_splits)
  with None show ?thesis by (auto simp: check_scan_def)
next
  case (Some m)
  then show ?thesis
    by (auto simp: check_scan_def list_all_iff entries_to_map_eq split: if_splits)
qed

lemma check_scan_perm: "set sp = set sp' \<Longrightarrow> check_scan sp tc tr a b es = check_scan sp' tc tr a b es"
  by (simp add: check_scan_iff)

section \<open>Trimming\<close>

lemma min_of_eq: "min_of m xs = Min (insert m (set xs))"
proof (induction xs arbitrary: m)
  case (Cons x xs)
  have "min_of m (x # xs) = Min (insert (min m x) (set xs))"
    using Cons [of "min m x"] by simp
  also have "\<dots> = Min (insert m (set (x # xs)))"
    by (cases "xs = []") (simp_all add: min.assoc)
  finally show ?case .
qed simp

lemma min_of_le: "x \<in> insert m (set xs) \<Longrightarrow> min_of m xs \<le> x"
  unfolding min_of_eq by (rule Min_le) auto

lemma min_of_in: "min_of m xs \<in> insert m (set xs)"
  unfolding min_of_eq by (rule Min_in) auto

lemma pop_old_suffix:
  "\<exists>pre. cli = pre @ pop_old t cli \<and> (\<forall>s \<in> set pre. us_resp s < t)"
proof (induction t cli rule: pop_old.induct)
  case (1 t s1 s2 rest)
  show ?case
  proof (cases "us_resp s1 < t")
    case True
    with 1 obtain pre where "s2 # rest = pre @ pop_old t (s2 # rest)" "\<forall>s \<in> set pre. us_resp s < t"
      by auto
    with True have "s1 # s2 # rest = (s1 # pre) @ pop_old t (s1 # s2 # rest)
      \<and> (\<forall>s \<in> set (s1 # pre). us_resp s < t)"
      by simp
    then show ?thesis by blast
  qed simp
qed simp_all

lemma pop_old_nonempty: "cli \<noteq> [] \<Longrightarrow> pop_old t cli \<noteq> []"
  by (induction t cli rule: pop_old.induct) auto

lemma keep_ts_of_cases:
  "keep_ts_of mc mq cli = 0 \<or>
   (\<exists>s \<in> set cli. us_resp s < mc \<and> us_resp s < mq \<and> keep_ts_of mc mq cli = us_call s)"
  by (induction cli) auto

text \<open>Spans that end no earlier than they start.\<close>

definition span_ok :: "UpdateSpan \<Rightarrow> bool" where
  "span_ok s \<longleftrightarrow> us_call s \<le> us_resp s"

text \<open>
  What trimming keeps: a suffix, which is not empty, and if anything was dropped, then the suffix has
  an update that finished before every operation that can still be checked.
\<close>

lemma trim_client_suffix:
  assumes ok: "\<forall>s \<in> set cli. span_ok s"
  obtains pre where "cli = pre @ trim_client mc mq cli"
    and "pre \<noteq> [] \<Longrightarrow> \<exists>s \<in> set (trim_client mc mq cli). us_resp s < mc \<and> us_resp s < mq"
proof -
  let ?t = "keep_ts_of mc mq (rev cli)"
  obtain pre where split: "cli = pre @ pop_old ?t cli" and pre: "\<forall>s \<in> set pre. us_resp s < ?t"
    using pop_old_suffix by blast
  have "\<exists>s \<in> set (pop_old ?t cli). us_resp s < mc \<and> us_resp s < mq" if "pre \<noteq> []"
  proof -
    from that pre have "?t \<noteq> 0" by (cases pre) auto
    with keep_ts_of_cases [of mc mq "rev cli"] obtain s where
      s: "s \<in> set cli" "us_resp s < mc" "us_resp s < mq" "?t = us_call s" by auto
    from s ok have "\<not> us_resp s < ?t" by (auto simp: span_ok_def not_less)
    with pre have "s \<notin> set pre" by blast
    with s(1) have "s \<in> set (pop_old ?t cli)" by (metis Un_iff set_append split)
    with s show ?thesis by blast
  qed
  with split that show ?thesis unfolding trim_client_def by blast
qed

lemma trim_client_nonempty: "cli \<noteq> [] \<Longrightarrow> trim_client mc mq cli \<noteq> []"
  by (simp add: trim_client_def pop_old_nonempty)

lemma trim_client_set: "set (trim_client mc mq cli) \<subseteq> set cli"
  unfolding trim_client_def by (metis Un_upper2 pop_old_suffix set_append)

lemma trim_client_last: "cli \<noteq> [] \<Longrightarrow> last (trim_client mc mq cli) = last cli"
  unfolding trim_client_def by (metis last_appendR pop_old_nonempty pop_old_suffix)

text \<open>Dropping a prefix does not change what is visible to an operation the suffix shields.\<close>

lemma visible_suffix:
  assumes "s \<in> set suf" and "us_resp s < tc"
  shows "visible P tc tr (pre @ suf) \<longleftrightarrow> visible P tc tr suf"
proof
  assume "visible P tc tr (pre @ suf)"
  then obtain older s0 newer where split: "pre @ suf = older @ s0 # newer"
    and s0: "us_call s0 < tr" "P (us_value s0)" and newer: "\<forall>s' \<in> set newer. \<not> us_resp s' < tc"
    unfolding visible_def by blast
  from split consider us where "older = pre @ us" "suf = us @ s0 # newer"
    | us where "newer = us @ suf"
    by (fastforce simp: append_eq_append_conv2 append_eq_Cons_conv)
  then show "visible P tc tr suf"
  proof cases
    case 1
    with s0 newer show ?thesis unfolding visible_def by blast
  next
    case 2
    with newer assms show ?thesis by auto
  qed
next
  assume "visible P tc tr suf"
  then show "visible P tc tr (pre @ suf)"
    unfolding visible_def by (metis append.assoc)
qed

lemma visible_trim:
  assumes "\<forall>s \<in> set cli. span_ok s" and "mc \<le> tc \<or> mq \<le> tc"
  shows "visible P tc tr (trim_client mc mq cli) \<longleftrightarrow> visible P tc tr cli"
proof -
  obtain pre where split: "cli = pre @ trim_client mc mq cli"
    and s: "pre \<noteq> [] \<Longrightarrow> \<exists>s \<in> set (trim_client mc mq cli). us_resp s < mc \<and> us_resp s < mq"
    using trim_client_suffix [OF assms(1)] by blast
  show ?thesis
  proof (cases "pre = []")
    case True
    with split show ?thesis by simp
  next
    case False
    with s obtain s where "s \<in> set (trim_client mc mq cli)" "us_resp s < mc" "us_resp s < mq" by blast
    with assms(2) have "us_resp s < tc" by auto
    with \<open>s \<in> _\<close> show ?thesis using visible_suffix split by metis
  qed
qed

section \<open>The association list of histories\<close>

lemma alist_put_keys [simp]: "map fst (alist_put k v m) = map fst m"
  by (induction m) (auto simp: alist_put_def)

lemma map_of_alist_put: "map_of m k = Some w \<Longrightarrow> map_of (alist_put k v m) = (map_of m)(k \<mapsto> v)"
proof (induction m)
  case (Cons kv m)
  obtain k' v' where kv: "kv = (k', v')" by (cases kv)
  show ?case
  proof (cases "k' = k")
    case True
    have "map_of (map (\<lambda>(k', v'). if k' = k then (k', v) else (k', v')) m) k'' = map_of m k''"
      if "k'' \<noteq> k" for k''
      using that by (induction m) auto
    with True kv show ?thesis by (auto simp: alist_put_def fun_eq_iff)
  next
    case False
    with Cons kv show ?thesis by (auto simp: alist_put_def fun_eq_iff)
  qed
qed simp

abbreviation min_coming :: "u64 list \<Rightarrow> u64" where
  "min_coming m \<equiv> min_of (hd m) (tl m)"

abbreviation min_queued :: "QueuedSpan list \<Rightarrow> u64" where
  "min_queued q \<equiv> min_of u64_MAX (map qs_call q)"

lemma min_coming_le: "i < length m \<Longrightarrow> min_coming m \<le> m ! i"
  by (rule min_of_le) (cases m; auto simp: nth_Cons')

lemma min_coming_less_iff: "m \<noteq> [] \<Longrightarrow> t < min_coming m \<longleftrightarrow> (\<forall>x \<in> set m. t < x)"
  by (cases m) (auto simp: min_of_eq)

lemma min_coming_mono:
  assumes "m ! i \<le> t" and "i < length m"
  shows "min_coming m \<le> min_coming (m[i := t])"
proof -
  have "min_coming (m[i := t]) \<in> set (m[i := t])"
    using min_of_in [of "hd (m[i := t])" "tl (m[i := t])"] assms(2)
    by (metis length_list_update list.collapse list.set(2) list.size(3) not_less_zero)
  then obtain j where "j < length m" "min_coming (m[i := t]) = m[i := t] ! j"
    by (metis in_set_conv_nth length_list_update)
  then show ?thesis
    using min_coming_le [of j m] assms by (cases "j = i") (auto intro: order_trans)
qed

lemma min_queued_le: "e \<in> set q \<Longrightarrow> min_queued q \<le> qs_call e"
  by (rule min_of_le) auto

lemma apply_update_known:
  assumes "map_of (spans h) key = Some ks" and "c < length ks" and "c < length (maxtr h)"
  shows "apply_update c tc tr key val h =
    (let mt = (maxtr h)[c := tr]; mc = min_coming mt;
         ks' = map (trim_client mc (min_queued (queue h)))
                 (ks[c := ks ! c @ [\<lparr>us_call = tc, us_resp = tr, us_value = val\<rparr>]]);
         sp = alist_put key ks' (spans h);
         fq = check_queue sp mc (queue h)
     in Done (map_option Some (fst fq), \<lparr>queue = snd fq, spans = sp, maxtr = mt\<rparr>))"
  using assms by (simp add: apply_update_def Let_def split: prod.split)

text \<open>
  The loop over the queue takes off the longest prefix of responses that are old enough, as long as
  they pass.
\<close>

lemma check_queue_pass:
  assumes "\<forall>e \<in> set q. qs_resp e < mc \<longrightarrow> check_call sp e"
  shows "check_queue sp mc q = (None, dropWhile (\<lambda>e. qs_resp e < mc) q)"
  using assms by (induction q) auto

lemma check_queue_fail:
  assumes "check_queue sp mc q = (Some r, q')"
  shows "\<exists>passed e. q = passed @ e # q' \<and> qs_kvresp e = r \<and> qs_resp e < mc \<and> \<not> check_call sp e
    \<and> (\<forall>e' \<in> set passed. qs_resp e' < mc \<and> check_call sp e')"
  using assms
proof (induction q)
  case (Cons e q)
  show ?case
  proof (cases "qs_resp e < mc \<and> check_call sp e")
    case True
    with Cons obtain passed e' where "q = passed @ e' # q'" "qs_kvresp e' = r" "qs_resp e' < mc"
      "\<not> check_call sp e'" "\<forall>e'' \<in> set passed. qs_resp e'' < mc \<and> check_call sp e''"
      by auto
    with True have "e # q = (e # passed) @ e' # q' \<and> qs_kvresp e' = r \<and> qs_resp e' < mc \<and>
      \<not> check_call sp e' \<and> (\<forall>e'' \<in> set (e # passed). qs_resp e'' < mc \<and> check_call sp e'')"
      by simp
    then show ?thesis by blast
  next
    case False
    with Cons.prems show ?thesis by (cases "qs_resp e < mc") fastforce+
  qed
qed simp

lemma check_queue_subset: "set (snd (check_queue sp mc q)) \<subseteq> set q"
  by (induction q) auto

section \<open>The initial history\<close>

definition key_pool :: "string list list \<Rightarrow> string set" where
  "key_pool keys = (\<Union>ks \<in> set keys. set ks)"

lemma add_keys_lookup:
  "map_of (fold (add_key n) ks sp) k =
     (if map_of sp k = None \<and> k \<in> set ks then Some (replicate n [dummy_span]) else map_of sp k)"
proof (induction ks arbitrary: sp)
  case (Cons k' ks)
  have "map_of (add_key n k' sp) k =
    (if map_of sp k = None \<and> k = k' then Some (replicate n [dummy_span]) else map_of sp k)"
    by (auto simp: add_key_def map_add_def split: option.splits)
  with Cons show ?case by auto
qed simp

lemma add_keys_distinct: "distinct (map fst sp) \<Longrightarrow> distinct (map fst (fold (add_key n) ks sp))"
  by (induction ks arbitrary: sp) (auto simp: add_key_def map_of_eq_None_iff)

lemma History_new_lookup:
  "map_of (spans (History_new n keys)) k =
     (if k \<in> key_pool keys then Some (replicate n [dummy_span]) else None)"
proof -
  have "map_of (fold (\<lambda>ks. fold (add_key n) ks) keys sp) k =
    (if map_of sp k = None \<and> k \<in> key_pool keys then Some (replicate n [dummy_span]) else map_of sp k)" for sp
    by (induction keys arbitrary: sp) (auto simp: add_keys_lookup key_pool_def)
  then show ?thesis by (simp add: History_new_def)
qed

lemma History_new_distinct: "distinct (map fst (spans (History_new n keys)))"
proof -
  have "distinct (map fst sp) \<Longrightarrow> distinct (map fst (fold (\<lambda>ks. fold (add_key n) ks) keys sp))" for sp
    by (induction keys arbitrary: sp) (simp_all add: add_keys_distinct)
  then show ?thesis by (simp add: History_new_def)
qed

section \<open>Properties\<close>

text \<open>C10: each of the four single-key checks accepts a response exactly if some client history of
  the key has an update with the claimed value (or presence) that is visible to the operation: called
  before the response, and not followed by an update of the same client that had finished before the
  operation was called.\<close>

theorem single_key_checks:
  "(check_get ks tc tr v \<longleftrightarrow> (\<exists>cli \<in> set ks. visible (\<lambda>v'. v' = v) tc tr cli))
   \<and> (check_swap ks tc tr v \<longleftrightarrow> (\<exists>cli \<in> set ks. visible (\<lambda>v'. v' = v) tc tr cli))
   \<and> (check_put ks tc tr b \<longleftrightarrow> (\<exists>cli \<in> set ks. visible (\<lambda>v'. (v' \<noteq> None) = b) tc tr cli))
   \<and> (check_delete ks tc tr b \<longleftrightarrow> (\<exists>cli \<in> set ks. visible (\<lambda>v'. (v' \<noteq> None) = b) tc tr cli))"
  by (simp add: check_visible)

text \<open>C11: a scan is accepted exactly if its entries have different keys inside the range and, for
  every key of the pool inside the range, the entry of that key, or its absence, would be accepted as
  the result of a get.\<close>

theorem scan_check:
  "check_scan sp tc tr a b es \<longleftrightarrow> distinct (map fst es) \<and> (\<forall>(k, _) \<in> set es. a \<le> k \<and> k \<le> b)
     \<and> (\<forall>(k, ks) \<in> set sp. a \<le> k \<and> k \<le> b \<longrightarrow> check_get ks tc tr (map_of es k))"
  unfolding check_scan_iff by (simp add: case_prod_unfold)

theorem scan_check_witness:
  "check_scan [(''a'', [[dummy_span]]), (''c'', [[dummy_span]])] 1 2 ''a'' ''b'' []
   \<and> \<not> check_scan [(''a'', [[dummy_span]])] 1 2 ''a'' ''b'' [(''a'', ''v'')]"
  by (simp add: scan_check check_get_def dummy_span_def)

text \<open>C13: a value that no client has written is caught: if a get, a swap or a scan entry of value
  \<open>v\<close> is accepted, some update of the key in the history wrote \<open>v\<close> and was called before the response.\<close>

theorem phantom_value_caught:
  assumes "check_get ks tc tr (Some v) \<or> check_swap ks tc tr (Some v)"
  shows "\<exists>cli \<in> set ks. \<exists>s \<in> set cli. us_value s = Some v \<and> us_call s < tr"
proof -
  from assms obtain cli where cli: "cli \<in> set ks" "visible (\<lambda>v'. v' = Some v) tc tr cli"
    by (auto simp: check_visible)
  then obtain older s newer where "cli = older @ s # newer" "us_call s < tr" "us_value s = Some v"
    unfolding visible_def by blast
  with cli(1) show ?thesis by (metis in_set_conv_decomp)
qed

theorem phantom_value_caught_witness:
  "\<exists>cli \<in> set [[\<lparr>us_call = 1, us_resp = 2, us_value = Some ''v''\<rparr>]].
     \<exists>s \<in> set cli. us_value s = Some ''v'' \<and> us_call s < 4"
  using phantom_value_caught [of "[[\<lparr>us_call = 1, us_resp = 2, us_value = Some ''v''\<rparr>]]" 3 4 "''v''"]
  by (simp add: check_get_def)

text \<open>C12: a stale read is caught: if every client has an update of the key that had finished before
  the read was called, and neither that update nor a later one of the client that was called before
  the response has the value the read returned, the read is rejected.\<close>

theorem stale_read_caught:
  assumes "\<forall>cli \<in> set ks. \<exists>older s newer. cli = older @ s # newer \<and> us_resp s < tc
    \<and> (\<forall>x \<in> set (s # newer). us_value x = v \<longrightarrow> tr \<le> us_call x)"
  shows "\<not> check_get ks tc tr v"
proof
  assume "check_get ks tc tr v"
  then obtain cli where cli: "cli \<in> set ks" "visible (\<lambda>v'. v' = v) tc tr cli"
    by (auto simp: check_visible)
  with assms obtain older s newer where split: "cli = older @ s # newer" and s: "us_resp s < tc"
    and no: "\<forall>x \<in> set (s # newer). us_value x = v \<longrightarrow> tr \<le> us_call x" by blast
  have "visible (\<lambda>v'. v' = v) tc tr (s # newer)"
    using cli(2) visible_suffix [of s "s # newer" tc "\<lambda>v'. v' = v" tr older] s by (simp add: split)
  then obtain o' x n' where "s # newer = o' @ x # n'" "us_call x < tr" "us_value x = v"
    unfolding visible_def by blast
  with no have "tr \<le> us_call x" by (metis in_set_conv_decomp)
  with \<open>us_call x < tr\<close> show False by simp
qed

theorem stale_read_caught_witness:
  "\<not> check_get [[dummy_span, \<lparr>us_call = 1, us_resp = 2, us_value = Some ''a''\<rparr>,
       \<lparr>us_call = 3, us_resp = 4, us_value = Some ''b''\<rparr>]] 5 6 (Some ''a'')"
proof (rule stale_read_caught, rule ballI)
  let ?b = "\<lparr>us_call = 3, us_resp = 4, us_value = Some ''b''\<rparr> :: UpdateSpan"
  let ?older = "[dummy_span, \<lparr>us_call = 1, us_resp = 2, us_value = Some ''a''\<rparr>]"
  fix cli assume "cli \<in> set [[dummy_span, \<lparr>us_call = 1, us_resp = 2, us_value = Some ''a''\<rparr>, ?b]]"
  then have "cli = ?older @ ?b # [] \<and> us_resp ?b < 5 \<and> (\<forall>x \<in> set [?b]. us_value x = Some ''a'' \<longrightarrow> 6 \<le> us_call x)"
    by simp
  then show "\<exists>older s newer. cli = older @ s # newer \<and> us_resp s < 5
      \<and> (\<forall>x \<in> set (s # newer). us_value x = Some ''a'' \<longrightarrow> 6 \<le> us_call x)" by blast
qed

text \<open>C14: when recording an update reports a violation, the reported response is the first one in the
  queue that fails its check; everything before it was acknowledged earlier than the last update of
  every client and passed, and the queue is left just behind it.\<close>

theorem apply_update_violation:
  assumes "apply_update c tc tr key val h = Done (Some (Some r), h')"
  shows "\<exists>passed e. queue h = passed @ e # queue h' \<and> qs_kvresp e = r
    \<and> qs_resp e < min_coming (maxtr h') \<and> \<not> check_call (spans h') e
    \<and> (\<forall>e' \<in> set passed. qs_resp e' < min_coming (maxtr h') \<and> check_call (spans h') e')"
proof -
  from assms have "check_queue (spans h') (min_coming (maxtr h')) (queue h) = (Some r, queue h')"
    by (auto simp: apply_update_def Let_def split: option.splits if_splits prod.splits)
  from check_queue_fail [OF this] show ?thesis .
qed

theorem apply_update_violation_witness:
  "\<exists>passed e. queue (add_to_queue 1 2 (RGet ''k'' (Some ''x'')) (History_new 1 [[''k'']])) = passed @ e # []
     \<and> qs_kvresp e = RGet ''k'' (Some ''x'')"
proof -
  have "apply_update 0 3 4 ''k'' (Some ''a'') (add_to_queue 1 2 (RGet ''k'' (Some ''x'')) (History_new 1 [[''k'']])) =
      Done (Some (Some (RGet ''k'' (Some ''x''))),
        \<lparr>queue = [], spans = [(''k'', [[dummy_span, \<lparr>us_call = 3, us_resp = 4, us_value = Some ''a''\<rparr>]])],
         maxtr = [4]\<rparr>)"
    by code_simp
  from apply_update_violation [OF this] show ?thesis by auto
qed

text \<open>An update of a key outside the pool is reported as such and changes nothing.\<close>

lemma apply_update_unknown_key:
  "k \<notin> key_pool keys \<Longrightarrow> apply_update c tc tr k v (History_new n keys) = Done (Some None, History_new n keys)"
  by (simp add: apply_update_def History_new_lookup)

end
