(* ===== verification/History_Trim.thy ===== *)
theory History_Trim
  imports History
begin

text \<open>
  Trimming is an optimisation: the checker that never drops an update gives the same verdicts.
  The reference checker is \<open>apply_update\<close> without the trimming loop; a simulation relation says that
  every client history of the trimmed checker is a suffix of the reference one, and that whatever was
  dropped is shielded by an update that no pending or coming check looks past.  The reference checker is
  then used to show which responses no run of the checker can report.
\<close>

definition apply_update_untrimmed ::
  "nat \<Rightarrow> u64 \<Rightarrow> u64 \<Rightarrow> string \<Rightarrow> string option \<Rightarrow> History
     \<Rightarrow> (KvResp option option \<times> History) rust" where
  "apply_update_untrimmed cidx ts_call ts_resp key val h =
     (case map_of (spans h) key of
        None \<Rightarrow> Done (Some None, h)
      | Some key_spans \<Rightarrow>
          if cidx \<ge> length key_spans \<or> cidx \<ge> length (maxtr h) then Panic ''index out of bounds''
          else
            (let span = \<lparr>us_call = ts_call, us_resp = ts_resp, us_value = val\<rparr>;
                 key_spans1 = key_spans[cidx := key_spans ! cidx @ [span]];
                 maxtr' = (maxtr h)[cidx := ts_resp];
                 spans' = alist_put key key_spans1 (spans h);
                 (failed, queue') = check_queue spans' (min_coming maxtr') (queue h)
             in Done (map_option Some failed,
                  \<lparr>queue = queue', spans = spans', maxtr = maxtr'\<rparr>)))"

text \<open>A run of acknowledgements, stopped at the first one that fails, as the fuzzer does.\<close>

type_synonym ack = "nat \<times> u64 \<times> u64 \<times> KvResp \<times> (string \<times> string option) option"

type_synonym updater =
  "nat \<Rightarrow> u64 \<Rightarrow> u64 \<Rightarrow> string \<Rightarrow> string option \<Rightarrow> History \<Rightarrow> (KvResp option option \<times> History) rust"

definition ack_with :: "updater \<Rightarrow> ack \<Rightarrow> History \<Rightarrow> (KvResp option option \<times> History) rust" where
  "ack_with upd a h =
     (case a of (c, tc, tr, r, u) \<Rightarrow>
        (case u of
           None \<Rightarrow> Done (None, add_to_queue tc tr r h)
         | Some (k, v) \<Rightarrow> upd c tc tr k v (add_to_queue tc tr r h)))"

lemma acknowledge_ack_with: "acknowledge c tc tr r u = ack_with apply_update (c, tc, tr, r, u)"
  by (auto simp: acknowledge_def ack_with_def fun_eq_iff split: option.split)

fun run_acks :: "updater \<Rightarrow> ack list \<Rightarrow> History \<Rightarrow> (KvResp option option \<times> History) rust" where
  "run_acks upd [] h = Done (None, h)"
| "run_acks upd (a # as) h =
     (case ack_with upd a h of
        Panic m \<Rightarrow> Panic m
      | Done (Some f, h') \<Rightarrow> Done (Some f, h')
      | Done (None, h') \<Rightarrow> run_acks upd as h')"

text \<open>
  Clients are synchronous: an operation is called after the last update of its client was
  acknowledged, and is acknowledged after it was called.
\<close>

fun well_timed :: "ack list \<Rightarrow> u64 list \<Rightarrow> bool" where
  "well_timed [] m \<longleftrightarrow> True"
| "well_timed ((c, tc, tr, r, u) # as) m \<longleftrightarrow>
     c < length m \<and> m ! c \<le> tc \<and> tc \<le> tr
     \<and> well_timed as (case u of None \<Rightarrow> m | Some _ \<Rightarrow> m[c := tr])"

section \<open>The simulation relation\<close>

definition shielded :: "u64 \<Rightarrow> QueuedSpan list \<Rightarrow> UpdateSpan list \<Rightarrow> UpdateSpan list \<Rightarrow> bool" where
  "shielded mc q full cli \<longleftrightarrow>
     (\<forall>s \<in> set full. span_ok s) \<and>
     (\<exists>pre. full = pre @ cli
        \<and> (pre \<noteq> [] \<longrightarrow> (\<exists>s \<in> set cli. us_resp s < mc \<and> (\<forall>e \<in> set q. us_resp s < qs_call e))))"

definition shielded_spans :: "u64 \<Rightarrow> QueuedSpan list \<Rightarrow> spans_map \<Rightarrow> spans_map \<Rightarrow> bool" where
  "shielded_spans mc q =
     list_all2 (\<lambda>(k, ks) (k', ks'). k = k' \<and> list_all2 (shielded mc q) ks ks')"

definition trims :: "History \<Rightarrow> History \<Rightarrow> bool" where
  "trims hf h \<longleftrightarrow>
     queue hf = queue h \<and> maxtr hf = maxtr h
     \<and> shielded_spans (min_coming (maxtr h)) (queue h) (spans hf) (spans h)"

lemma shielded_weaken:
  assumes "shielded mc q full cli" and "mc \<le> mc'" and "\<forall>e \<in> set q'. e \<in> set q \<or> mc \<le> qs_call e"
  shows "shielded mc' q' full cli"
proof -
  obtain pre where ok: "\<forall>s \<in> set full. span_ok s" and split: "full = pre @ cli"
    and pre: "pre \<noteq> [] \<Longrightarrow> \<exists>s \<in> set cli. us_resp s < mc \<and> (\<forall>e \<in> set q. us_resp s < qs_call e)"
    using assms(1) unfolding shielded_def by blast
  have "\<exists>s \<in> set cli. us_resp s < mc' \<and> (\<forall>e \<in> set q'. us_resp s < qs_call e)" if "pre \<noteq> []"
    using pre [OF that] assms(2,3) by (meson less_le_trans)
  with ok split show ?thesis unfolding shielded_def by blast
qed

lemma shielded_spans_weaken:
  assumes "shielded_spans mc q sf sp" and "mc \<le> mc'" and "\<forall>e \<in> set q'. e \<in> set q \<or> mc \<le> qs_call e"
  shows "shielded_spans mc' q' sf sp"
  using assms(1) unfolding shielded_spans_def
  by (rule list_all2_mono) (auto elim!: list_all2_mono intro: shielded_weaken [OF _ assms(2,3)])

lemma shielded_visible:
  assumes "shielded mc q full cli" and "e \<in> set q"
  shows "visible P (qs_call e) tr full \<longleftrightarrow> visible P (qs_call e) tr cli"
  using assms visible_suffix unfolding shielded_def
  by (metis append_Nil)

lemma list_all2_shielded_visible:
  assumes "list_all2 (shielded mc q) ks ks'" and "e \<in> set q"
  shows "(\<exists>cli \<in> set ks. visible P (qs_call e) tr cli) \<longleftrightarrow>
    (\<exists>cli \<in> set ks'. visible P (qs_call e) tr cli)"
  using assms by (induction rule: list_all2_induct) (auto simp: shielded_visible)

lemma shielded_spans_lookup:
  assumes "shielded_spans mc q sf sp"
  shows "rel_option (list_all2 (shielded mc q)) (map_of sf k) (map_of sp k)"
  using assms unfolding shielded_spans_def
  by (induction rule: list_all2_induct) auto

lemma shielded_check_get:
  "list_all2 (shielded mc q) ks ks' \<Longrightarrow> e \<in> set q \<Longrightarrow>
     check_get ks (qs_call e) tr v = check_get ks' (qs_call e) tr v"
  by (simp add: check_visible list_all2_shielded_visible)

lemma shielded_check_scan:
  assumes "shielded_spans mc q sf sp" and "e \<in> set q"
  shows "check_scan sf (qs_call e) tr a b es = check_scan sp (qs_call e) tr a b es"
proof -
  have "(\<forall>(k, ks) \<in> set sf. a \<le> k \<and> k \<le> b \<longrightarrow> check_get ks (qs_call e) tr (map_of es k)) \<longleftrightarrow>
    (\<forall>(k, ks) \<in> set sp. a \<le> k \<and> k \<le> b \<longrightarrow> check_get ks (qs_call e) tr (map_of es k))"
    using assms unfolding shielded_spans_def
    by (induction rule: list_all2_induct) (auto simp: shielded_check_get)
  then show ?thesis by (simp add: check_scan_iff)
qed

lemma shielded_check_call:
  assumes "shielded_spans mc q sf sp" and "e \<in> set q"
  shows "check_call sf e = check_call sp e"
proof -
  note look = shielded_spans_lookup [OF assms(1)]
  have point: "(case map_of sf k of Some ks \<Rightarrow> f ks | None \<Rightarrow> False) =
      (case map_of sp k of Some ks \<Rightarrow> f ks | None \<Rightarrow> False)"
    if "\<And>ks ks'. list_all2 (shielded mc q) ks ks' \<Longrightarrow> f ks = f ks'" for f :: "UpdateSpan list list \<Rightarrow> bool" and k
    using look [of k] that by (cases "map_of sf k"; cases "map_of sp k") auto
  show ?thesis
    unfolding check_call_def Let_def
    by (cases "qs_kvresp e")
      (auto intro!: point simp: check_visible list_all2_shielded_visible [OF _ assms(2)]
        shielded_check_scan [OF assms])
qed

lemma shielded_check_queue:
  assumes "shielded_spans mc q sf sp" and "set q' \<subseteq> set q"
  shows "check_queue sf t q' = check_queue sp t q'"
  using assms(2) by (induction q') (auto simp: shielded_check_call [OF assms(1)])

section \<open>Every acknowledgement keeps the relation\<close>

lemma shielded_snoc:
  assumes "shielded mc q full cli" and "span_ok s"
  shows "shielded mc q (full @ [s]) (cli @ [s])"
  using assms unfolding shielded_def by force

lemma shielded_trim:
  assumes "shielded mc q full cli"
  shows "shielded mc q full (trim_client mc (min_queued q) cli)"
proof -
  obtain pre where ok: "\<forall>s \<in> set full. span_ok s" and split: "full = pre @ cli"
    and pre: "pre \<noteq> [] \<Longrightarrow> \<exists>s \<in> set cli. us_resp s < mc \<and> (\<forall>e \<in> set q. us_resp s < qs_call e)"
    using assms unfolding shielded_def by blast
  let ?cli = "trim_client mc (min_queued q) cli"
  obtain pre' where split': "cli = pre' @ ?cli"
    and pre': "pre' \<noteq> [] \<Longrightarrow> \<exists>s \<in> set ?cli. us_resp s < mc \<and> us_resp s < min_queued q"
    using trim_client_suffix [of cli mc "min_queued q"] ok split by auto
  have "\<exists>s \<in> set ?cli. us_resp s < mc \<and> (\<forall>e \<in> set q. us_resp s < qs_call e)" if "pre @ pre' \<noteq> []"
  proof (cases "pre' = []")
    case True
    with that pre split' show ?thesis by simp
  next
    case False
    with pre' show ?thesis using min_queued_le by (meson less_le_trans)
  qed
  moreover have "full = (pre @ pre') @ ?cli" using split split' by simp
  ultimately show ?thesis using ok unfolding shielded_def by blast
qed

lemma shielded_spans_put:
  assumes "shielded_spans mc q sf sp" and "list_all2 (shielded mc q) ks ks'"
  shows "shielded_spans mc q (alist_put k ks sf) (alist_put k ks' sp)"
  using assms unfolding shielded_spans_def alist_put_def
  by (induction rule: list_all2_induct) (auto split: if_splits)

lemma add_to_queue_trims:
  assumes "trims hf h" and "c < length (maxtr h)" and "maxtr h ! c \<le> tc"
  shows "trims (add_to_queue tc tr r hf) (add_to_queue tc tr r h)"
proof -
  have "min_coming (maxtr h) \<le> tc"
    using min_coming_le [OF assms(2)] assms(3) by (rule order_trans)
  with assms(1) show ?thesis
    unfolding trims_def
    by (auto simp: add_to_queue_def elim!: shielded_spans_weaken)
qed

text \<open>The shared part of one update: the two updaters give the same verdict and stay related.\<close>

lemma apply_update_trims:
  assumes rel: "trims hf h" and c: "c < length (maxtr h)"
    and time: "maxtr h ! c \<le> tc" "tc \<le> tr"
  shows "rel_rust (rel_prod (=) trims)
    (apply_update_untrimmed c tc tr k v hf) (apply_update c tc tr k v h)"
proof -
  have q: "queue hf = queue h" and mt: "maxtr hf = maxtr h"
    and sp: "shielded_spans (min_coming (maxtr h)) (queue h) (spans hf) (spans h)"
    using rel unfolding trims_def by blast+
  show ?thesis
  proof (cases "map_of (spans h) k")
    case None
    with shielded_spans_lookup [OF sp, of k] have "map_of (spans hf) k = None" by auto
    with None rel show ?thesis by (simp add: apply_update_def apply_update_untrimmed_def)
  next
    case (Some ks)
    with shielded_spans_lookup [OF sp, of k] obtain ksf where ksf: "map_of (spans hf) k = Some ksf"
      and ks: "list_all2 (shielded (min_coming (maxtr h)) (queue h)) ksf ks"
      by (auto simp: option_rel_Some2)
    have len: "length ksf = length ks" using ks by (rule list_all2_lengthD)
    show ?thesis
    proof (cases "c < length ks")
      case False
      with Some ksf len show ?thesis by (simp add: apply_update_def apply_update_untrimmed_def)
    next
      case True
      let ?mt = "(maxtr h)[c := tr]" and ?s = "\<lparr>us_call = tc, us_resp = tr, us_value = v\<rparr>"
      let ?mc = "min_coming ?mt" and ?q = "queue h"
      let ?ksf1 = "ksf[c := ksf ! c @ [?s]]" and ?ks1 = "ks[c := ks ! c @ [?s]]"
      let ?ks2 = "map (trim_client ?mc (min_queued ?q)) ?ks1"
      have mono: "min_coming (maxtr h) \<le> ?mc"
        using time c by (intro min_coming_mono) auto
      have ks': "list_all2 (shielded ?mc ?q) ksf ks"
        using ks by (rule list_all2_mono) (auto elim!: shielded_weaken [OF _ mono])
      have "list_all2 (shielded ?mc ?q) ?ksf1 ?ks1"
        using ks' True len time
        by (intro list_all2_update_cong shielded_snoc) (auto simp: list_all2_nthD span_ok_def)
      then have "list_all2 (shielded ?mc ?q) ?ksf1 ?ks2"
        by (auto simp: list_all2_conv_all_nth intro: shielded_trim)
      then have sp': "shielded_spans ?mc ?q (alist_put k ?ksf1 (spans hf)) (alist_put k ?ks2 (spans h))"
        using shielded_spans_weaken [OF sp mono] by (intro shielded_spans_put) auto
      let ?fq = "check_queue (alist_put k ?ks2 (spans h)) ?mc ?q"
      have fq: "check_queue (alist_put k ?ksf1 (spans hf)) ?mc ?q = ?fq"
        using sp' by (rule shielded_check_queue) simp
      have "shielded_spans ?mc (snd ?fq) (alist_put k ?ksf1 (spans hf)) (alist_put k ?ks2 (spans h))"
        using sp' by (rule shielded_spans_weaken) (use check_queue_subset in \<open>blast+\<close>)
      with fq show ?thesis
        using True c len Some ksf q mt
        by (simp add: apply_update_known apply_update_untrimmed_def trims_def Let_def case_prod_unfold)
    qed
  qed
qed

lemma ack_with_trims:
  assumes "trims hf h" and "c < length (maxtr h)" and "maxtr h ! c \<le> tc" and "tc \<le> tr"
  shows "rel_rust (rel_prod (=) trims)
    (ack_with apply_update_untrimmed (c, tc, tr, r, u) hf) (ack_with apply_update (c, tc, tr, r, u) h)"
proof -
  have rel: "trims (add_to_queue tc tr r hf) (add_to_queue tc tr r h)"
    using assms by (intro add_to_queue_trims)
  moreover have "maxtr (add_to_queue tc tr r h) = maxtr h" by (simp add: add_to_queue_def)
  ultimately show ?thesis
    using assms apply_update_trims [OF rel]
    by (auto simp: ack_with_def split: option.split)
qed

text \<open>How an acknowledgement changes the per-client maximum.\<close>

lemma apply_update_maxtr:
  assumes "apply_update c tc tr k v h = Done (None, h')"
  shows "maxtr h' = (maxtr h)[c := tr]"
  using assms by (auto simp: apply_update_def Let_def split: option.splits if_splits prod.splits)

lemma ack_with_maxtr:
  assumes "ack_with apply_update (c, tc, tr, r, u) h = Done (None, h')"
  shows "maxtr h' = (case u of None \<Rightarrow> maxtr h | Some _ \<Rightarrow> (maxtr h)[c := tr])"
  using assms
  by (auto simp: ack_with_def add_to_queue_def dest: apply_update_maxtr split: option.splits)

lemma run_acks_trims:
  assumes "trims hf h" and "well_timed as (maxtr h)"
  shows "rel_rust (rel_prod (=) trims) (run_acks apply_update_untrimmed as hf) (run_acks apply_update as h)"
  using assms
proof (induction as arbitrary: hf h)
  case Nil
  then show ?case by simp
next
  case (Cons a as)
  obtain c tc tr r u where a: "a = (c, tc, tr, r, u)" by (cases a) auto
  let ?f = "ack_with apply_update_untrimmed a hf" and ?t = "ack_with apply_update a h"
  have step: "rel_rust (rel_prod (=) trims) ?f ?t"
    unfolding a using Cons.prems by (intro ack_with_trims) (auto simp: a)
  show ?case
  proof (cases ?t)
    case (Panic m)
    with step show ?thesis by (cases ?f) auto
  next
    case (Done res)
    obtain o' h' where res: "res = (o', h')" by (cases res)
    with step Done obtain hf' where f: "?f = Done (o', hf')" and rel: "trims hf' h'"
      by (cases ?f) auto
    show ?thesis
    proof (cases o')
      case None
      with Done res have "maxtr h' = (case u of None \<Rightarrow> maxtr h | Some _ \<Rightarrow> (maxtr h)[c := tr])"
        using ack_with_maxtr [of c tc tr r u h h'] a by simp
      with Cons.prems a have "well_timed as (maxtr h')" by simp
      with Cons.IH [OF rel this] f Done res None show ?thesis by simp
    next
      case (Some x)
      with f Done res rel show ?thesis by simp
    qed
  qed
qed

lemma trims_refl:
  assumes "\<forall>(k, ks) \<in> set (spans h). \<forall>cli \<in> set ks. \<forall>s \<in> set cli. span_ok s"
  shows "trims h h"
proof -
  have "list_all2 (shielded mc q) ks ks" if "(k, ks) \<in> set (spans h)" for mc q k ks
    using assms that by (auto simp: list_all2_same shielded_def)
  then show ?thesis
    by (auto simp: trims_def shielded_spans_def list_all2_same)
qed

section \<open>Responses that their own update vouches for\<close>

text \<open>What a response to a single-key operation says of the value of which key.\<close>

fun claim_of :: "KvResp \<Rightarrow> (string \<times> (string option \<Rightarrow> bool)) option" where
  "claim_of (RPut key found) = Some (key, \<lambda>v. (v \<noteq> None) = found)"
| "claim_of (RDelete key found) = Some (key, \<lambda>v. (v \<noteq> None) = found)"
| "claim_of (RSwap key old_value) = Some (key, \<lambda>v. v = old_value)"
| "claim_of (RGet key val) = Some (key, \<lambda>v. v = val)"
| "claim_of _ = None"

text \<open>
  The response to an update says of the key what the update itself makes true of it: a put or a swap
  that reports its own new value, a delete that found nothing.
\<close>

definition self_vouched :: "KvResp \<Rightarrow> (string \<times> string option) option \<Rightarrow> bool" where
  "self_vouched r u \<longleftrightarrow>
     (case (claim_of r, u) of (Some (key, P), Some (key', val)) \<Rightarrow> key = key' \<and> P val | _ \<Rightarrow> False)"

lemma check_call_claim:
  assumes "claim_of (qs_kvresp e) = Some (k, P)"
  shows "check_call sp e \<longleftrightarrow>
    (\<exists>ks. map_of sp k = Some ks \<and> (\<exists>cli \<in> set ks. visible P (qs_call e) (qs_resp e) cli))"
  using assms by (cases "qs_kvresp e") (auto simp: check_call_def check_visible Let_def split: option.split)

text \<open>An update in the history of some client vouches for the queued response \<open>e\<close>.\<close>

definition vouched :: "spans_map \<Rightarrow> u64 list \<Rightarrow> QueuedSpan \<Rightarrow> bool" where
  "vouched sp mt e \<longleftrightarrow> qs_call e < qs_resp e \<and>
     (\<exists>k P ks c. claim_of (qs_kvresp e) = Some (k, P) \<and> map_of sp k = Some ks \<and> c < length ks \<and> c < length mt
        \<and> visible P (qs_call e) (qs_resp e) (ks ! c) \<and> qs_resp e \<le> mt ! c)"

lemma vouched_check: "vouched sp mt e \<Longrightarrow> check_call sp e"
  unfolding vouched_def using check_call_claim nth_mem by blast

text \<open>Recording a later update of any client leaves it vouched for.\<close>

lemma vouched_record:
  assumes v: "vouched sp mt e" and ks: "map_of sp key = Some ks"
    and time: "mt ! c \<le> tc" "tc \<le> tr"
  shows "vouched (alist_put key (ks[c := ks ! c @ [\<lparr>us_call = tc, us_resp = tr, us_value = val\<rparr>]]) sp)
    (mt[c := tr]) e"
proof -
  obtain k P ks0 i where e: "qs_call e < qs_resp e" "claim_of (qs_kvresp e) = Some (k, P)"
      "map_of sp k = Some ks0" "i < length ks0" "i < length mt"
    and vis: "visible P (qs_call e) (qs_resp e) (ks0 ! i)" and resp: "qs_resp e \<le> mt ! i"
    using v unfolding vouched_def by blast
  let ?s = "\<lparr>us_call = tc, us_resp = tr, us_value = val\<rparr>"
  let ?ks' = "if key = k then ks[c := ks ! c @ [?s]] else ks0"
  have new: "\<not> tr < qs_call e" and resp': "qs_resp e \<le> mt[c := tr] ! i" if "c = i"
    using that resp time e(1,5) by auto
  have "visible P (qs_call e) (qs_resp e) (?ks' ! i)"
    using vis ks e(3,4) new by (cases "c = i") (auto simp: visible_snoc)
  moreover have "qs_resp e \<le> mt[c := tr] ! i" using resp resp' by (cases "c = i") auto
  moreover have "map_of (alist_put key (ks[c := ks ! c @ [?s]]) sp) k = Some ?ks'"
    using ks e(3) by (auto simp: map_of_alist_put)
  moreover have "i < length ?ks'" using ks e(3,4) by auto
  ultimately show ?thesis using e(1,2,5) unfolding vouched_def by force
qed

text \<open>Recording the update of the response itself makes it vouched for.\<close>

lemma vouched_own:
  assumes "self_vouched r (Some (key, val))" and "map_of sp key = Some ks" and "c < length ks" and "c < length mt"
    and "tc < tr"
  shows "vouched (alist_put key (ks[c := ks ! c @ [\<lparr>us_call = tc, us_resp = tr, us_value = val\<rparr>]]) sp)
    (mt[c := tr]) \<lparr>qs_call = tc, qs_resp = tr, qs_kvresp = r\<rparr>"
  using assms unfolding vouched_def self_vouched_def
  by (auto simp: map_of_alist_put visible_snoc intro!: exI [of _ c] split: option.splits)

definition vouching :: "KvResp \<Rightarrow> History \<Rightarrow> bool" where
  "vouching r h \<longleftrightarrow> (\<forall>e \<in> set (queue h). qs_kvresp e = r \<longrightarrow> vouched (spans h) (maxtr h) e)"

lemma ack_vouching:
  assumes inv: "vouching r hf" and time: "c < length (maxtr hf)" "maxtr hf ! c \<le> tc" "tc < tr"
    and own: "r' = r \<longrightarrow> self_vouched r' u"
    and ack: "ack_with apply_update_untrimmed (c, tc, tr, r', u) hf = Done (res, hf')"
  shows "res \<noteq> Some (Some r) \<and> (res = None \<longrightarrow> vouching r hf'
    \<and> maxtr hf' = (case u of None \<Rightarrow> maxtr hf | Some _ \<Rightarrow> (maxtr hf)[c := tr]))"
proof (cases u)
  case None
  with own have "r' \<noteq> r" by (auto simp: self_vouched_def split: option.splits)
  with None ack inv show ?thesis by (auto simp: ack_with_def add_to_queue_def vouching_def)
next
  case (Some kv)
  then obtain key val where u: "u = Some (key, val)" by (cases kv) auto
  let ?e = "\<lparr>qs_call = tc, qs_resp = tr, qs_kvresp = r'\<rparr>" and ?mt = "(maxtr hf)[c := tr]"
  show ?thesis
  proof (cases "map_of (spans hf) key")
    case None
    with u ack show ?thesis by (auto simp: ack_with_def add_to_queue_def apply_update_untrimmed_def)
  next
    case (Some ks)
    let ?sp = "alist_put key (ks[c := ks ! c @ [\<lparr>us_call = tc, us_resp = tr, us_value = val\<rparr>]]) (spans hf)"
    let ?fq = "check_queue ?sp (min_coming ?mt) (queue hf @ [?e])"
    have c: "c < length ks" and res: "res = map_option Some (fst ?fq)"
      and hf': "hf' = \<lparr>queue = snd ?fq, spans = ?sp, maxtr = ?mt\<rparr>"
      using u ack Some time(1)
      by (auto simp: ack_with_def add_to_queue_def apply_update_untrimmed_def Let_def case_prod_unfold split: if_splits)
    have "vouched ?sp ?mt e" if "e \<in> set (queue hf @ [?e])" and "qs_kvresp e = r" for e
      using that inv vouched_record [OF _ Some time(2) less_imp_le [OF time(3)]]
        vouched_own [OF _ Some c time(1,3)] own u by (auto simp: vouching_def)
    note v = this
    have "fst ?fq \<noteq> Some r"
      using check_queue_fail [of ?sp "min_coming ?mt" "queue hf @ [?e]" r "snd ?fq"] v vouched_check
      by (metis in_set_conv_decomp prod.collapse)
    moreover have "vouching r hf'"
      using v check_queue_subset [of ?sp "min_coming ?mt" "queue hf @ [?e]"] hf' by (auto simp: vouching_def)
    ultimately show ?thesis using res hf' u by auto
  qed
qed

lemma run_acks_vouching:
  assumes "vouching r hf" and "well_timed as (maxtr hf)"
    and "\<forall>(c, tc, tr, r', u) \<in> set as. tc < tr \<and> (r' = r \<longrightarrow> self_vouched r' u)"
  shows "run_acks apply_update_untrimmed as hf \<noteq> Done (Some (Some r), h')"
  using assms
proof (induction as arbitrary: hf)
  case (Cons a as)
  obtain c tc tr r' u where a: "a = (c, tc, tr, r', u)" by (cases a) auto
  have step: "res \<noteq> Some (Some r) \<and> (res = None \<longrightarrow> vouching r hf'
      \<and> maxtr hf' = (case u of None \<Rightarrow> maxtr hf | Some _ \<Rightarrow> (maxtr hf)[c := tr]))"
    if "ack_with apply_update_untrimmed a hf = Done (res, hf')" for res hf'
    using that Cons.prems unfolding a by (intro ack_vouching) auto
  show ?case
  proof (cases "ack_with apply_update_untrimmed a hf")
    case (Done res)
    obtain v hf' where res: "res = (v, hf')" by (cases res)
    show ?thesis
    proof (cases v)
      case None
      with step Done res have "vouching r hf'" "well_timed as (maxtr hf')" using Cons.prems(2) a by auto
      with Cons.IH [of hf'] Cons.prems(3) Done res None show ?thesis by simp
    qed (use step Done res in auto)
  qed simp
qed simp

section \<open>Properties\<close>

lemma History_new_span_ok:
  "\<forall>(k, ks) \<in> set (spans (History_new n keys)). \<forall>cli \<in> set ks. \<forall>s \<in> set cli. span_ok s"
proof -
  have "ks = replicate n [dummy_span]" if "(k, ks) \<in> set (spans (History_new n keys))" for k ks
    using that History_new_distinct [of n keys] map_of_is_SomeI [of "spans (History_new n keys)" k ks]
    by (auto simp: History_new_lookup split: if_splits)
  then show ?thesis by (fastforce simp: span_ok_def dummy_span_def)
qed

text \<open>C2: trimming never changes a verdict.  For every sequence of acknowledgements of synchronous
  clients, the checker that trims its histories and the one that keeps them all stop at the same
  acknowledgement with the same report (a violation, an unknown key, a panic, or none), and have the
  same responses left to check.\<close>

theorem trimming_preserves_verdicts:
  assumes "well_timed as (replicate n 0)"
  shows "map_rust (\<lambda>(v, h). (v, queue h)) (run_acks apply_update as (History_new n keys)) =
    map_rust (\<lambda>(v, h). (v, queue h)) (run_acks apply_update_untrimmed as (History_new n keys))"
proof -
  have "well_timed as (maxtr (History_new n keys))" using assms by (simp add: History_new_def)
  from run_acks_trims [OF trims_refl [OF History_new_span_ok] this] show ?thesis
    by (cases "run_acks apply_update_untrimmed as (History_new n keys)";
        cases "run_acks apply_update as (History_new n keys)") (auto simp: trims_def)
qed

theorem trimming_preserves_verdicts_witness:
  "map_rust (\<lambda>(v, h). (v, queue h)) (run_acks apply_update
      [(0, 1, 2, RPut ''k'' False, Some (''k'', Some ''a'')), (0, 3, 4, RPut ''k'' True, Some (''k'', Some ''b'')),
       (0, 5, 6, RGet ''k'' (Some ''a''), None), (0, 7, 8, RDelete ''k'' True, Some (''k'', None))]
      (History_new 1 [[''k'']])) =
    map_rust (\<lambda>(v, h). (v, queue h)) (run_acks apply_update_untrimmed
      [(0, 1, 2, RPut ''k'' False, Some (''k'', Some ''a'')), (0, 3, 4, RPut ''k'' True, Some (''k'', Some ''b'')),
       (0, 5, 6, RGet ''k'' (Some ''a''), None), (0, 7, 8, RDelete ''k'' True, Some (''k'', None))]
      (History_new 1 [[''k'']]))"
  by (rule trimming_preserves_verdicts) code_simp

text \<open>C15: an update vouches for its own response.  A response is not checked before its update is in
  the history, and the update is not trimmed while its response is queued, so a put that claims to have
  found its key, a delete that claims not to have found it and a swap that claims to have found the value
  it wrote are never reported as a violation, whatever was acknowledged before or after.\<close>

theorem own_update_vouches:
  assumes "well_timed as (replicate n 0)"
    and "\<forall>(c, tc, tr, r', u) \<in> set as. tc < tr \<and> (r' = r \<longrightarrow> self_vouched r' u)"
  shows "run_acks apply_update as (History_new n keys) \<noteq> Done (Some (Some r), h')"
proof
  let ?h = "History_new n keys"
  assume bad: "run_acks apply_update as ?h = Done (Some (Some r), h')"
  have time: "well_timed as (maxtr ?h)" using assms(1) by (simp add: History_new_def)
  from run_acks_trims [OF trims_refl [OF History_new_span_ok] time] bad
  obtain hf' where "run_acks apply_update_untrimmed as ?h = Done (Some (Some r), hf')"
    by (cases "run_acks apply_update_untrimmed as ?h") auto
  moreover have "vouching r ?h" by (simp add: vouching_def History_new_def)
  ultimately show False using run_acks_vouching [OF _ time assms(2)] by blast
qed

theorem own_update_vouches_witness:
  "let as = [(0, 1, 2, RPut ''k'' True, Some (''k'', Some ''a'')), (0, 3, 4, RDelete ''k'' False, Some (''k'', None)),
             (0, 5, 6, RSwap ''k'' (Some ''b''), Some (''k'', Some ''b'')), (0, 7, 8, RDelete ''k'' True, Some (''k'', None))]
   in (\<forall>r \<in> {RPut ''k'' True, RDelete ''k'' False, RSwap ''k'' (Some ''b'')}.
        \<forall>h'. run_acks apply_update as (History_new 1 [[''k'']]) \<noteq> Done (Some (Some r), h'))
      \<and> map_rust (\<lambda>(v, h). (v, queue h)) (run_acks apply_update as (History_new 1 [[''k'']])) =
          Done (None, [\<lparr>qs_call = 7, qs_resp = 8, qs_kvresp = RDelete ''k'' True\<rparr>])"
proof -
  let ?as = "[(0, 1, 2, RPut ''k'' True, Some (''k'', Some ''a'')), (0, 3, 4, RDelete ''k'' False, Some (''k'', None)),
    (0, 5, 6, RSwap ''k'' (Some ''b''), Some (''k'', Some ''b'')), (0, 7, 8, RDelete ''k'' True, Some (''k'', None))] :: ack list"
  have "run_acks apply_update ?as (History_new 1 [[''k'']]) \<noteq> Done (Some (Some r), h')"
    if "r \<in> {RPut ''k'' True, RDelete ''k'' False, RSwap ''k'' (Some ''b'')}" for r h'
    by (rule own_update_vouches) (use that in \<open>auto simp: self_vouched_def\<close>)
  moreover have "map_rust (\<lambda>(v, h). (v, queue h)) (run_acks apply_update ?as (History_new 1 [[''k'']])) =
      Done (None, [\<lparr>qs_call = 7, qs_resp = 8, qs_kvresp = RDelete ''k'' True\<rparr>])"
    by code_simp
  ultimately show ?thesis by (simp add: Let_def)
qed

end
