(* ===== verification/Fuzzer.thy ===== *)
theory Fuzzer
  imports Proc Fuzz_Random History_Trim
begin

text \<open>
  The fuzz testing loop and the main function of the fuzzer (\<open>runner/src/bin/fuzzer/main.rs\<close>).

  The loop talks to the client processes through \<open>ClientProc\<close>: sending a call, waiting for a response
  within a time limit, stopping.  These operations are the record \<open>client_ops\<close> of \<open>Proc\<close> over the state
  of the world outside the fuzzer; \<open>System\<close> builds that world from the client process wrapper, the protocol, the
  C++ client and the server.  Everything the loop changes is in the record \<open>fuzz\<close>; \<open>fz_log\<close> holds the
  messages of interest that it prints.
\<close>

datatype fuzz_msg =
    UnexpectedStop nat u64
  | ConsistencyViolation nat u64 u64 KvResp
  | UnexpectedUpdateKey nat u64 u64
  | Progress usize usize

record ('g, 'w) fuzz =
  fz_flying :: "bool list"
  fz_timestamp :: u64
  fz_memo :: "(u64 \<times> (string \<times> string option) option) list"
  fz_history :: History
  fz_called :: usize
  fz_waited :: usize
  fz_stats :: Stats
  fz_rng :: 'g
  fz_world :: 'w
  fz_log :: "fuzz_msg list"

record Args =
  num_clis :: usize
  num_keys :: usize
  num_ops :: usize
  conflict :: bool

definition RESP_TIMEOUT :: nat where "RESP_TIMEOUT = 60"
definition REMAIN_THRESH :: nat where "REMAIN_THRESH = 1000"

text \<open>How one round of the loop ends: with the next round, with \<open>break\<close>, with \<open>?\<close>, or with a panic.\<close>

datatype ('g, 'w) round =
    Continue "('g, 'w) fuzz"
  | Break "('g, 'w) fuzz"
  | Fail RunnerError "('g, 'w) fuzz"
  | Crash string

section \<open>One round\<close>

definition fuzz_call ::
  "'g rng_ops \<Rightarrow> 'w client_ops \<Rightarrow> string list list \<Rightarrow> ('g, 'w) fuzz \<Rightarrow> ('g, 'w) round option" where
  "fuzz_call R C keys st =
     (case gen_rand_client R (fz_flying st) False (fz_rng st) of
        None \<Rightarrow> None
      | Some (Panic m) \<Rightarrow> Some (Crash m)
      | Some (Done (cidx, g1)) \<Rightarrow>
          if cidx \<ge> length keys \<or> cidx \<ge> length (fz_memo st) then Some (Crash ''index out of bounds'')
          else
            (case gen_rand_kvcall R (keys ! cidx) (fz_stats st) cidx g1 of
               Panic m \<Rightarrow> Some (Crash m)
             | Done (call, stats', g2) \<Rightarrow>
                 (let (sent, w') = send_call_op C cidx call (fz_world st);
                      st' = st\<lparr>fz_memo := (fz_memo st)[cidx := (fz_timestamp st, update_info call)],
                               fz_stats := stats', fz_rng := g2, fz_world := w'\<rparr>
                  in case sent of
                       Inl e \<Rightarrow> Some (Fail e st')
                     | Inr _ \<Rightarrow> Some (Continue
                         (st'\<lparr>fz_flying := (fz_flying st)[cidx := True],
                              fz_called := fz_called st + 1\<rparr>)))))"

text \<open>The progress report at the end of a harvest, with its division and its flush.\<close>

definition fuzz_progress ::
  "'w client_ops \<Rightarrow> usize \<Rightarrow> ('g, 'w) fuzz \<Rightarrow> ('g, 'w) round" where
  "fuzz_progress C total_ops st =
     (if total_ops div 100 = 0 then Crash ''attempt to calculate the remainder with a divisor of zero''
      else if fz_waited st mod (total_ops div 100) = 0 \<or> fz_waited st = total_ops then
        (let (flushed, w') = flush_op C (fz_world st);
             st' = st\<lparr>fz_world := w',
                      fz_log := fz_log st @ [Progress (fz_called st) (fz_waited st)]\<rparr>
         in case flushed of Inl e \<Rightarrow> Fail e st' | Inr _ \<Rightarrow> Continue st')
      else Continue st)"

definition fuzz_wait ::
  "'g rng_ops \<Rightarrow> 'w client_ops \<Rightarrow> usize \<Rightarrow> ('g, 'w) fuzz \<Rightarrow> ('g, 'w) round option" where
  "fuzz_wait R C total_ops st =
     (case gen_rand_client R (fz_flying st) True (fz_rng st) of
        None \<Rightarrow> None
      | Some (Panic m) \<Rightarrow> Some (Crash m)
      | Some (Done (cidx, g1)) \<Rightarrow>
          if cidx \<ge> length (fz_memo st) then Some (Crash ''index out of bounds'')
          else
            (let (got, w') = wait_resp_op C cidx RESP_TIMEOUT (fz_world st);
                 st1 = st\<lparr>fz_rng := g1, fz_world := w'\<rparr>
             in case got of
                  Inl e \<Rightarrow> Some (Fail e st1)
                | Inr resp \<Rightarrow>
                    if resp = RStop then
                      Some (Break (st1\<lparr>fz_log := fz_log st @ [UnexpectedStop cidx (fz_timestamp st)]\<rparr>))
                    else
                      (let (ts_call, upd) = fz_memo st ! cidx;
                           ts_resp = fz_timestamp st;
                           st2 = st1\<lparr>fz_memo := (fz_memo st)[cidx := (0, None)]\<rparr>
                       in case acknowledge cidx ts_call ts_resp resp upd (fz_history st) of
                            Panic m \<Rightarrow> Some (Crash m)
                          | Done (Some (Some bad), h') \<Rightarrow>
                              Some (Break (st2\<lparr>fz_history := h', fz_log := fz_log st @
                                [ConsistencyViolation cidx ts_call ts_resp bad]\<rparr>))
                          | Done (Some None, h') \<Rightarrow>
                              Some (Break (st2\<lparr>fz_history := h', fz_log := fz_log st @
                                [UnexpectedUpdateKey cidx ts_call ts_resp]\<rparr>))
                          | Done (None, h') \<Rightarrow>
                              Some (fuzz_progress C total_ops
                                (st2\<lparr>fz_history := h',
                                     fz_flying := (fz_flying st)[cidx := False],
                                     fz_waited := fz_waited st + 1\<rparr>)))))"

definition fuzz_round ::
  "'g rng_ops \<Rightarrow> 'w client_ops \<Rightarrow> string list list \<Rightarrow> usize \<Rightarrow> ('g, 'w) fuzz \<Rightarrow> ('g, 'w) round option" where
  "fuzz_round R C keys total_ops st =
     (let st1 = st\<lparr>fz_timestamp := fz_timestamp st + 1\<rparr>;
          (call, g') = gen_call_vs_wait R (fz_called st) total_ops (fz_flying st) (fz_rng st);
          st2 = st1\<lparr>fz_rng := g'\<rparr>
      in if call then fuzz_call R C keys st2 else fuzz_wait R C total_ops st2)"

section \<open>The loop and the test\<close>

partial_function (option) fuzz_loop ::
  "'g rng_ops \<Rightarrow> 'w client_ops \<Rightarrow> string list list \<Rightarrow> usize \<Rightarrow> ('g, 'w) fuzz \<Rightarrow> ('g, 'w) round option" where
  "fuzz_loop R C keys total_ops st =
     (if fz_waited st < total_ops then
        (case fuzz_round R C keys total_ops st of
           None \<Rightarrow> None
         | Some (Continue st') \<Rightarrow> fuzz_loop R C keys total_ops st'
         | Some (Break st') \<Rightarrow> Some (Break st')
         | Some (Fail e st') \<Rightarrow> Some (Fail e st')
         | Some (Crash m) \<Rightarrow> Some (Crash m))
      else Some (Continue st))"

fun stop_clients :: "'w client_ops \<Rightarrow> nat list \<Rightarrow> 'w \<Rightarrow> (RunnerError + unit) \<times> 'w" where
  "stop_clients C [] w = (Inr (), w)"
| "stop_clients C (c # cs) w =
     (case stop_op C c w of
        (Inl e, w') \<Rightarrow> (Inl e, w')
      | (Inr _, w') \<Rightarrow> stop_clients C cs w')"

definition fuzz_init ::
  "nat \<Rightarrow> string list list \<Rightarrow> Stats \<Rightarrow> 'g \<Rightarrow> 'w \<Rightarrow> ('g, 'w) fuzz" where
  "fuzz_init n keys stats g w =
     \<lparr>fz_flying = replicate n False, fz_timestamp = 0, fz_memo = replicate n (0, None),
      fz_history = History_new n keys, fz_called = 0, fz_waited = 0, fz_stats = stats,
      fz_rng = g, fz_world = w, fz_log = []\<rparr>"

text \<open>
  The test over \<open>n\<close> clients: the number of unchecked responses, \<open>None\<close> if a check failed, an error,
  or a panic; together with the final state of the loop.
\<close>

definition fuzz_test ::
  "'g rng_ops \<Rightarrow> 'w client_ops \<Rightarrow> Args \<Rightarrow> string list list \<Rightarrow> Stats \<Rightarrow> nat \<Rightarrow> 'g \<Rightarrow> 'w
     \<Rightarrow> ((RunnerError + nat option) \<times> ('g, 'w) fuzz) rust option" where
  "fuzz_test R C args keys stats n g w =
     (let total_ops = num_ops args * num_clis args
      in case fuzz_loop R C keys total_ops (fuzz_init n keys stats g w) of
           None \<Rightarrow> None
         | Some (Crash m) \<Rightarrow> Some (Panic m)
         | Some (Fail e st) \<Rightarrow> Some (Done (Inl e, st))
         | Some (Break st) \<Rightarrow> Some (Done (Inr None, st))
         | Some (Continue st) \<Rightarrow>
             (let (stopped, w') = stop_clients C [0..<n] (fz_world st);
                  st' = st\<lparr>fz_world := w'\<rparr>
              in case stopped of
                   Inl e \<Rightarrow> Some (Done (Inl e, st'))
                 | Inr _ \<Rightarrow> Some (Done (Inr (Some (queue_len (fz_history st))), st'))))"

section \<open>The main function\<close>

text \<open>\<open>format!("{:0w$}", i)\<close>: decimal digits, padded with zeros on the left to width \<open>w\<close>.\<close>

definition pad_zeros :: "nat \<Rightarrow> nat \<Rightarrow> string" where
  "pad_zeros w n = replicate (w - length (digits n)) (CHR ''0'') @ digits n"

fun gen_cli_keys :: "'g rng_ops \<Rightarrow> bool \<Rightarrow> nat list \<Rightarrow> 'g \<Rightarrow> string list \<times> 'g" where
  "gen_cli_keys R conf [] g = ([], g)"
| "gen_cli_keys R conf (i # is) g =
     (let (key, g1) = (if conf then (''key'' @ pad_zeros (KEY_LEN - 3) i, g)
                       else gen_rand_string R KEY_LEN g);
          (keys, g2) = gen_cli_keys R conf is g1
      in (key # keys, g2))"

fun gen_keys :: "'g rng_ops \<Rightarrow> bool \<Rightarrow> nat \<Rightarrow> nat \<Rightarrow> 'g \<Rightarrow> string list list \<times> 'g" where
  "gen_keys R conf 0 nkeys g = ([], g)"
| "gen_keys R conf (Suc n) nkeys g =
     (let (ks, g1) = gen_cli_keys R conf [0..<nkeys] g;
          (kss, g2) = gen_keys R conf n nkeys g1
      in (ks # kss, g2))"

datatype verdict = UNFAIR nat | PASSED nat | FAILED

definition fuzz_verdict :: "nat option \<Rightarrow> verdict" where
  "fuzz_verdict res =
     (case res of
        Some remaining \<Rightarrow> if remaining \<ge> REMAIN_THRESH then UNFAIR remaining else PASSED remaining
      | None \<Rightarrow> FAILED)"

text \<open>
  The main function after parsing its arguments.  \<open>spawn\<close> starts one client process with
  \<open>ClientProc::new\<close>, or fails.
\<close>

definition args_ok :: "Args \<Rightarrow> bool" where
  "args_ok args \<longleftrightarrow>
     num_clis args \<noteq> 0 \<and> num_keys args \<noteq> 0 \<and> num_keys args < 100000 \<and> num_ops args \<ge> 1000"

fun spawn_clients :: "('w \<Rightarrow> (RunnerError + unit) \<times> 'w) \<Rightarrow> nat \<Rightarrow> 'w \<Rightarrow> (RunnerError + unit) \<times> 'w" where
  "spawn_clients spawn 0 w = (Inr (), w)"
| "spawn_clients spawn (Suc n) w =
     (case spawn w of
        (Inl e, w') \<Rightarrow> (Inl e, w')
      | (Inr _, w') \<Rightarrow> spawn_clients spawn n w')"

definition fuzz_main ::
  "'g rng_ops \<Rightarrow> 'w client_ops \<Rightarrow> ('w \<Rightarrow> (RunnerError + unit) \<times> 'w) \<Rightarrow> Args \<Rightarrow> 'g \<Rightarrow> 'w
     \<Rightarrow> (RunnerError + verdict) rust option" where
  "fuzz_main R C spawn args g w =
     (if \<not> args_ok args then Some (Panic ''assertion failed'')
      else
        (let n = unat (num_clis args);
             (keys, g1) = gen_keys R (conflict args) n (unat (num_keys args)) g;
             (spawned, w1) = spawn_clients spawn n w
         in case spawned of
              Inl e \<Rightarrow> Some (Done (Inl e))
            | Inr _ \<Rightarrow>
                map_option (map_rust (\<lambda>(res, st). map_sum id fuzz_verdict res))
                  (fuzz_test R C args keys (Stats_new keys) n g1 w1)))"

section \<open>The keys of the pool\<close>

lemma undigits_pad_zeros: "undigits (pad_zeros w n) = n"
proof -
  have "undigits (replicate k (CHR ''0'') @ s) = undigits s" for k s
    by (induction k) (simp_all add: undigits_def)
  then show ?thesis by (simp add: pad_zeros_def undigits_digits)
qed

lemma gen_cli_keys_conflict:
  "gen_cli_keys R True is g = (map (\<lambda>i. ''key'' @ pad_zeros (KEY_LEN - 3) i) is, g)"
  by (induction "is") simp_all

section \<open>Properties\<close>

text \<open>C31: with conflicting keys, all clients share the same keys; within the bound that the main
  function asserts, they are pairwise different and all of them are eight characters long.\<close>

theorem conflict_keys:
  assumes "nkeys < 100000"
  shows "\<exists>ks. gen_keys R True n nkeys g = (replicate n ks, g) \<and> length ks = nkeys \<and> distinct ks
    \<and> (\<forall>k \<in> set ks. length k = KEY_LEN)"
proof (intro exI conjI)
  let ?ks = "map (\<lambda>i. ''key'' @ pad_zeros (KEY_LEN - 3) i) [0..<nkeys]"
  show "gen_keys R True n nkeys g = (replicate n ?ks, g)"
    by (induction n) (simp_all add: gen_cli_keys_conflict del: append.simps)
  show "length ?ks = nkeys" by simp
  have "inj (pad_zeros w)" for w by (rule injI) (metis undigits_pad_zeros)
  then show "distinct ?ks" by (auto simp: distinct_map inj_on_def)
  have "length (digits i) \<le> 5" if "i < nkeys" for i
    using that assms by (intro length_digits) simp_all
  then show "\<forall>k \<in> set ?ks. length k = KEY_LEN" by (auto simp: pad_zeros_def KEY_LEN_def)
qed

theorem conflict_keys_witness:
  "\<exists>ks. gen_keys round_robin True 2 3 0 = (replicate 2 ks, 0) \<and> length ks = 3 \<and> distinct ks
     \<and> (\<forall>k \<in> set ks. length k = KEY_LEN)"
  using conflict_keys [of 3 round_robin 2 0] by simp

end
