(* ===== verification/Linearizable.thy ===== *)
theory Linearizable
  imports KvSpec Fuzzer
begin

text \<open>
  The specification the fuzzer tests for: a key-value object shared by concurrent clients, each with
  at most one operation outstanding, where every operation takes effect at one moment between its
  call and its response.  The locale \<open>lin_env\<close> is the interface between the fuzzing loop and the world
  it talks to; it says that sending a call and waiting for a response are invocations and responses of
  such an object.
\<close>

record lin_state =
  ls_store :: kvmap
  ls_pend :: "nat \<rightharpoonup> KvCall"
  ls_done :: "nat \<rightharpoonup> KvResp"

definition lin_init :: lin_state where
  "lin_init = \<lparr>ls_store = Map.empty, ls_pend = Map.empty, ls_done = Map.empty\<rparr>"

definition lin_invoke :: "nat \<Rightarrow> KvCall \<Rightarrow> lin_state \<Rightarrow> lin_state" where
  "lin_invoke c call s = s\<lparr>ls_pend := (ls_pend s)(c \<mapsto> call)\<rparr>"

definition lin_respond :: "nat \<Rightarrow> lin_state \<Rightarrow> lin_state" where
  "lin_respond c s = s\<lparr>ls_done := (ls_done s)(c := None)\<rparr>"

text \<open>The moment an outstanding operation takes effect.\<close>

abbreviation lin_effect :: "nat \<Rightarrow> KvCall \<Rightarrow> KvResp \<Rightarrow> lin_state \<Rightarrow> lin_state" where
  "lin_effect c call resp s \<equiv>
     s\<lparr>ls_store := kv_apply call (ls_store s),
       ls_pend := (ls_pend s)(c := None),
       ls_done := (ls_done s)(c \<mapsto> resp)\<rparr>"

inductive lin_step :: "lin_state \<Rightarrow> lin_state \<Rightarrow> bool" where
  take_effect:
    "ls_pend s c = Some call \<Longrightarrow> resp_ok closed_range call (ls_store s) resp \<Longrightarrow>
     lin_step s (lin_effect c call resp s)"

inductive_cases lin_stepE: "lin_step s s'"

abbreviation lin_steps :: "lin_state \<Rightarrow> lin_state \<Rightarrow> bool" where
  "lin_steps \<equiv> lin_step\<^sup>*\<^sup>*"

definition outstanding :: "lin_state \<Rightarrow> nat \<Rightarrow> bool" where
  "outstanding s c \<longleftrightarrow> ls_pend s c \<noteq> None \<or> ls_done s c \<noteq> None"

text \<open>No client has both a call that waits to take effect and a response to collect.\<close>

definition lin_wf :: "lin_state \<Rightarrow> bool" where
  "lin_wf s \<longleftrightarrow> (\<forall>c. ls_pend s c = None \<or> ls_done s c = None)"

lemma lin_step_wf: "lin_step s s' \<Longrightarrow> lin_wf s \<Longrightarrow> lin_wf s'"
  by (erule lin_stepE) (simp add: lin_wf_def)

lemma lin_step_outstanding: "lin_step s s' \<Longrightarrow> outstanding s' = outstanding s"
  by (erule lin_stepE) (auto simp: outstanding_def fun_eq_iff)

lemma lin_steps_outstanding: "lin_steps s s' \<Longrightarrow> outstanding s' = outstanding s"
  by (induction rule: rtranclp_induct) (simp_all add: lin_step_outstanding)

section \<open>The interface of the fuzzing loop\<close>

locale lin_env =
  fixes C :: "'w client_ops"
    and labs :: "'w \<Rightarrow> lin_state"
    and winv :: "'w \<Rightarrow> bool"
    and n :: nat
    and pool :: "string set"
  assumes send_lin:
      "winv w \<Longrightarrow> c < n \<Longrightarrow> \<not> outstanding (labs w) c \<Longrightarrow> fuzz_call_ok pool call \<Longrightarrow>
       send_call_op C c call w = (Inr u, w') \<Longrightarrow>
       winv w' \<and> (\<exists>s. lin_steps (labs w) s \<and> lin_steps (lin_invoke c call s) (labs w'))"
    and wait_lin:
      "winv w \<Longrightarrow> c < n \<Longrightarrow> outstanding (labs w) c \<Longrightarrow>
       wait_resp_op C c t w = (Inr r, w') \<Longrightarrow>
       winv w' \<and> (\<exists>s. lin_steps (labs w) s \<and> ls_done s c = Some r
                       \<and> lin_steps (lin_respond c s) (labs w'))"
    and flush_lin:
      "winv w \<Longrightarrow> flush_op C w = (Inr u, w') \<Longrightarrow> winv w' \<and> lin_steps (labs w) (labs w')"

end
