(* ===== verification/Fuzz_Sound.thy ===== *)
theory Fuzz_Sound
  imports Linearizable
begin

text \<open>
  The fuzzer raises no false alarm: against a linearizable key-value object no check ever fails.
  The invariant relates the state of the loop to the state of the object.  Its heart is \<open>supported\<close>:
  whatever a response claims about a key is the value of an update that is visible to the operation,
  or of an update that has taken effect and is not acknowledged yet.
\<close>

section \<open>What a response claims\<close>

fun claim :: "KvResp \<Rightarrow> string \<Rightarrow> string option \<Rightarrow> bool" where
  "claim (RPut k0 b) k v \<longleftrightarrow> (k = k0 \<longrightarrow> (v \<noteq> None) = b)"
| "claim (RSwap k0 v0) k v \<longleftrightarrow> (k = k0 \<longrightarrow> v = v0)"
| "claim (RGet k0 v0) k v \<longleftrightarrow> (k = k0 \<longrightarrow> v = v0)"
| "claim (RScan a b es) k v \<longleftrightarrow> (a \<le> k \<and> k \<le> b \<longrightarrow> v = map_of es k)"
| "claim (RDelete k0 b) k v \<longleftrightarrow> (k = k0 \<longrightarrow> (v \<noteq> None) = b)"
| "claim RStop k v \<longleftrightarrow> True"

fun resp_shape :: "string set \<Rightarrow> KvResp \<Rightarrow> bool" where
  "resp_shape D (RPut k b) \<longleftrightarrow> k \<in> D"
| "resp_shape D (RSwap k v) \<longleftrightarrow> k \<in> D"
| "resp_shape D (RGet k v) \<longleftrightarrow> k \<in> D"
| "resp_shape D (RScan a b es) \<longleftrightarrow> distinct (map fst es) \<and> (\<forall>k \<in> fst ` set es. a \<le> k \<and> k \<le> b)"
| "resp_shape D (RDelete k b) \<longleftrightarrow> k \<in> D"
| "resp_shape D RStop \<longleftrightarrow> False"

lemma resp_ok_claim: "resp_ok closed_range call m r \<Longrightarrow> claim r k (m k)"
  by (cases call) (auto simp: closed_range_def restrict_map_def)

lemma resp_ok_shape:
  assumes "resp_ok closed_range call m r" and "fuzz_call_ok pool call" and "pool \<subseteq> D"
  shows "resp_shape D r"
proof (cases call)
  case (CScan a b)
  with assms(1) obtain es where r: "r = RScan a b es" and sorted: "sorted_wrt (<) (map fst es)"
    and es: "map_of es = m |` {k. closed_range a b k}" by auto
  from sorted have "distinct (map fst es)" using strict_sorted_iff by blast
  moreover have "a \<le> k \<and> k \<le> b" if "k \<in> fst ` set es" for k
  proof -
    from that have "map_of es k \<noteq> None" by (metis map_of_eq_None_iff)
    with es show ?thesis by (auto simp: restrict_map_def closed_range_def split: if_splits)
  qed
  ultimately show ?thesis using r by simp
qed (use assms in auto)

lemma claim_same:
  "claim (RPut k b) k = (\<lambda>v. (v \<noteq> None) = b)" "claim (RDelete k b) k = (\<lambda>v. (v \<noteq> None) = b)"
  "claim (RSwap k w) k = (\<lambda>v. v = w)" "claim (RGet k w) k = (\<lambda>v. v = w)"
  "a \<le> k \<Longrightarrow> k \<le> z \<Longrightarrow> claim (RScan a z es) k = (\<lambda>v. v = map_of es k)"
  by (auto simp: fun_eq_iff)

text \<open>If every claim of a response is visible to it, the response passes its check.\<close>

lemma check_call_claims:
  assumes shape: "resp_shape (dom (map_of sp)) (qs_kvresp e)" and dist: "distinct (map fst sp)"
    and vis: "\<And>k ks. map_of sp k = Some ks \<Longrightarrow>
      \<exists>cli \<in> set ks. visible (claim (qs_kvresp e) k) (qs_call e) (qs_resp e) cli"
  shows "check_call sp e"
proof (cases "qs_kvresp e")
  case (RScan a b es)
  have "check_get ks (qs_call e) (qs_resp e) (map_of es k)"
    if "(k, ks) \<in> set sp" "a \<le> k" "k \<le> b" for k ks
  proof -
    from that dist have "map_of sp k = Some ks" by simp
    from vis [OF this] that RScan show ?thesis
      by (simp add: check_visible claim_same)
  qed
  with shape RScan show ?thesis by (auto simp: check_call_def check_scan_iff)
next
  case (RPut k w)
  with shape obtain ks where "map_of sp k = Some ks" by auto
  with vis [OF this] RPut show ?thesis by (simp add: check_call_def check_visible claim_same)
next
  case (RSwap k w)
  with shape obtain ks where "map_of sp k = Some ks" by auto
  with vis [OF this] RSwap show ?thesis by (simp add: check_call_def check_visible claim_same)
next
  case (RGet k w)
  with shape obtain ks where "map_of sp k = Some ks" by auto
  with vis [OF this] RGet show ?thesis by (simp add: check_call_def check_visible claim_same)
next
  case (RDelete k w)
  with shape obtain ks where "map_of sp k = Some ks" by auto
  with vis [OF this] RDelete show ?thesis by (simp add: check_call_def check_visible claim_same)
qed (use shape in simp)

section \<open>The invariant\<close>

type_synonym memo = "(u64 \<times> (string \<times> string option) option) list"

definition hist_wf :: "nat \<Rightarrow> string set \<Rightarrow> u64 \<Rightarrow> History \<Rightarrow> bool" where
  "hist_wf n pool t h \<longleftrightarrow>
     length (maxtr h) = n \<and> (\<forall>c < n. maxtr h ! c \<le> t)
     \<and> distinct (map fst (spans h)) \<and> pool \<subseteq> dom (map_of (spans h))
     \<and> (\<forall>k ks. map_of (spans h) k = Some ks \<longrightarrow> length ks = n
          \<and> (\<forall>cli \<in> set ks. cli \<noteq> [] \<and> (\<forall>s \<in> set cli. span_ok s \<and> us_resp s \<le> t)))
     \<and> (\<forall>e \<in> set (queue h). qs_call e \<le> qs_resp e \<and> qs_resp e \<le> t)"

definition memo_wf :: "nat \<Rightarrow> string set \<Rightarrow> u64 \<Rightarrow> memo \<Rightarrow> History \<Rightarrow> lin_state \<Rightarrow> bool" where
  "memo_wf n pool t memo h s \<longleftrightarrow>
     length memo = n \<and> lin_wf s
     \<and> (\<forall>c. outstanding s c \<longrightarrow> c < n \<and> fst (memo ! c) \<le> t \<and> maxtr h ! c < fst (memo ! c)
          \<and> (\<forall>k v. snd (memo ! c) = Some (k, v) \<longrightarrow> k \<in> pool))
     \<and> (\<forall>c call. ls_pend s c = Some call \<longrightarrow> snd (memo ! c) = update_info call \<and> fuzz_call_ok pool call)"

text \<open>An update of \<open>k\<close> by client \<open>c\<close> that took effect and waits to be acknowledged.\<close>

definition in_flight :: "memo \<Rightarrow> lin_state \<Rightarrow> nat \<Rightarrow> string \<Rightarrow> string option option" where
  "in_flight memo s c k =
     (case (ls_done s c, snd (memo ! c)) of
        (Some _, Some (k', v)) \<Rightarrow> if k' = k then Some v else None
      | _ \<Rightarrow> None)"

definition supported ::
  "nat \<Rightarrow> memo \<Rightarrow> lin_state \<Rightarrow> string \<Rightarrow> (string option \<Rightarrow> bool) \<Rightarrow> u64 \<Rightarrow> u64 \<Rightarrow> UpdateSpan list list \<Rightarrow> bool" where
  "supported n memo s k P tc tr ks \<longleftrightarrow>
     (\<exists>c < n. visible P tc tr (ks ! c)
        \<or> (\<exists>v. in_flight memo s c k = Some v \<and> P v \<and> fst (memo ! c) < tr))"

definition exec_val :: "memo \<Rightarrow> lin_state \<Rightarrow> string \<Rightarrow> UpdateSpan list \<Rightarrow> nat \<Rightarrow> string option" where
  "exec_val memo s k cli c =
     (case in_flight memo s c k of Some v \<Rightarrow> v | None \<Rightarrow> us_value (last cli))"

definition store_supported :: "nat \<Rightarrow> memo \<Rightarrow> History \<Rightarrow> lin_state \<Rightarrow> bool" where
  "store_supported n memo h s \<longleftrightarrow>
     (\<forall>k ks. map_of (spans h) k = Some ks \<longrightarrow> (\<exists>c < n. exec_val memo s k (ks ! c) c = ls_store s k))"

definition done_supported :: "nat \<Rightarrow> u64 \<Rightarrow> memo \<Rightarrow> History \<Rightarrow> lin_state \<Rightarrow> bool" where
  "done_supported n t memo h s \<longleftrightarrow>
     (\<forall>c r. ls_done s c = Some r \<longrightarrow> resp_shape (dom (map_of (spans h))) r
        \<and> (\<forall>k ks tr. map_of (spans h) k = Some ks \<longrightarrow> t < tr \<longrightarrow>
             supported n memo s k (claim r k) (fst (memo ! c)) tr ks))"

definition queue_supported :: "nat \<Rightarrow> memo \<Rightarrow> History \<Rightarrow> lin_state \<Rightarrow> bool" where
  "queue_supported n memo h s \<longleftrightarrow>
     (\<forall>e \<in> set (queue h). resp_shape (dom (map_of (spans h))) (qs_kvresp e)
        \<and> (\<forall>k ks. map_of (spans h) k = Some ks \<longrightarrow>
             supported n memo s k (claim (qs_kvresp e) k) (qs_call e) (qs_resp e) ks))"

definition fuzz_inv :: "nat \<Rightarrow> string set \<Rightarrow> u64 \<Rightarrow> memo \<Rightarrow> History \<Rightarrow> lin_state \<Rightarrow> bool" where
  "fuzz_inv n pool t memo h s \<longleftrightarrow>
     hist_wf n pool t h \<and> memo_wf n pool t memo h s \<and> store_supported n memo h s
     \<and> done_supported n t memo h s \<and> queue_supported n memo h s"

lemmas fuzz_inv_defs = fuzz_inv_def hist_wf_def memo_wf_def store_supported_def done_supported_def
  queue_supported_def

text \<open>Facts about known keys.\<close>

lemma hist_wfD:
  assumes "hist_wf n pool t h"
  shows "length (maxtr h) = n" and "c < n \<Longrightarrow> maxtr h ! c \<le> t" and "distinct (map fst (spans h))"
    and "k \<in> pool \<Longrightarrow> map_of (spans h) k \<noteq> None"
    and "e \<in> set (queue h) \<Longrightarrow> qs_call e \<le> qs_resp e \<and> qs_resp e \<le> t"
  using assms unfolding hist_wf_def by blast+

lemma hist_wf_spansD:
  assumes "hist_wf n pool t h" and ks: "map_of (spans h) k = Some ks"
  shows "length ks = n" and "c < n \<Longrightarrow> ks ! c \<noteq> []"
    and "c < n \<Longrightarrow> sp \<in> set (ks ! c) \<Longrightarrow> span_ok sp \<and> us_resp sp \<le> t"
proof -
  from assms have *: "length ks = n"
    "\<forall>cli \<in> set ks. cli \<noteq> [] \<and> (\<forall>s \<in> set cli. span_ok s \<and> us_resp s \<le> t)"
    unfolding hist_wf_def by simp_all
  show "length ks = n" by (rule *)
  assume "c < n"
  then have "ks ! c \<in> set ks" using * by simp
  with * show "ks ! c \<noteq> []" by blast
  show "span_ok sp \<and> us_resp sp \<le> t" if "sp \<in> set (ks ! c)"
    using * \<open>ks ! c \<in> set ks\<close> that by blast
qed

lemma memo_wfD:
  assumes "memo_wf n pool t memo h s"
  shows "length memo = n" and "lin_wf s"
    and "outstanding s c \<Longrightarrow> c < n \<and> fst (memo ! c) \<le> t \<and> maxtr h ! c < fst (memo ! c)"
    and "outstanding s c \<Longrightarrow> snd (memo ! c) = Some (k, v) \<Longrightarrow> k \<in> pool"
    and "ls_pend s c = Some call \<Longrightarrow> snd (memo ! c) = update_info call \<and> fuzz_call_ok pool call"
  using assms unfolding memo_wf_def by blast+

lemma in_flight_outstanding: "in_flight memo s c k = Some v \<Longrightarrow> outstanding s c"
  by (auto simp: in_flight_def outstanding_def split: option.splits)

lemma fuzz_call_ok_update: "fuzz_call_ok pool call \<Longrightarrow> update_info call = Some (k, v) \<Longrightarrow> k \<in> pool"
  by (cases call) auto

section \<open>An operation takes effect\<close>

text \<open>The current value of a key is visible to an operation that takes effect now.\<close>

lemma store_visible_now:
  assumes inv: "fuzz_inv n pool t memo h s" and ks: "map_of (spans h) k = Some ks"
    and P: "P (ls_store s k)" and tr: "t < tr"
  shows "supported n memo s k P tc tr ks"
proof -
  have wf: "hist_wf n pool t h" and mwf: "memo_wf n pool t memo h s"
    and st: "store_supported n memo h s"
    using inv unfolding fuzz_inv_def by blast+
  from st ks obtain c where c: "c < n" and val: "exec_val memo s k (ks ! c) c = ls_store s k"
    unfolding store_supported_def by blast
  show ?thesis
  proof (cases "in_flight memo s c k")
    case None
    let ?sp = "last (ks ! c)"
    have ne: "ks ! c \<noteq> []" using hist_wf_spansD(2) [OF wf ks c] .
    then have sp: "span_ok ?sp \<and> us_resp ?sp \<le> t" using hist_wf_spansD(3) [OF wf ks c] by simp
    with tr have "us_call ?sp < tr" unfolding span_ok_def by (meson le_less_trans)
    moreover have "P (us_value ?sp)" using None val P by (simp add: exec_val_def)
    ultimately have "visible P tc tr (ks ! c)" using ne visible_last by blast
    with c show ?thesis unfolding supported_def by blast
  next
    case (Some v)
    then have "fst (memo ! c) \<le> t"
      using memo_wfD(3) [OF mwf] in_flight_outstanding by blast
    with tr have "fst (memo ! c) < tr" by simp
    with Some val P c show ?thesis unfolding supported_def exec_val_def by auto
  qed
qed

lemma in_flight_mono:
  assumes "\<And>c. ls_done s c \<noteq> None \<Longrightarrow> ls_done s' c \<noteq> None"
  shows "in_flight memo s c k = Some v \<Longrightarrow> in_flight memo s' c k = Some v"
  using assms [of c] by (auto simp: in_flight_def split: option.splits)

lemma supported_mono:
  assumes "supported n memo s k P tc tr ks" and "\<And>c. ls_done s c \<noteq> None \<Longrightarrow> ls_done s' c \<noteq> None"
  shows "supported n memo s' k P tc tr ks"
  using assms in_flight_mono [of s s'] unfolding supported_def by blast

lemma fuzz_inv_lin_step:
  assumes step: "lin_step s s'" and inv: "fuzz_inv n pool t memo h s"
  shows "fuzz_inv n pool t memo h s'"
proof -
  obtain d call resp where pend: "ls_pend s d = Some call"
    and ok: "resp_ok closed_range call (ls_store s) resp"
    and s': "s' = s\<lparr>ls_store := kv_apply call (ls_store s), ls_pend := (ls_pend s)(d := None),
      ls_done := (ls_done s)(d \<mapsto> resp)\<rparr>"
    using step by (auto elim: lin_stepE)
  have wf: "hist_wf n pool t h" and mwf: "memo_wf n pool t memo h s"
    and st: "store_supported n memo h s" and dn: "done_supported n t memo h s"
    and qs: "queue_supported n memo h s"
    using inv unfolding fuzz_inv_def by blast+
  have d: "d < n" and memo_d: "snd (memo ! d) = update_info call" and call: "fuzz_call_ok pool call"
    using memo_wfD(3,5) [OF mwf] pend by (auto simp: outstanding_def)
  have done_d: "ls_done s d = None" using memo_wfD(2) [OF mwf] pend by (metis lin_wf_def option.distinct(1))
  have mono: "\<And>c. ls_done s c \<noteq> None \<Longrightarrow> ls_done s' c \<noteq> None" by (simp add: s')
  have store': "ls_store s' = kv_apply call (ls_store s)" by (simp add: s')
  have mwf': "memo_wf n pool t memo h s'"
    using mwf lin_step_outstanding [OF step] lin_step_wf [OF step]
    unfolding memo_wf_def by (simp add: s')
  have fl_d: "in_flight memo s' d k = (case update_info call of
      Some (k', v) \<Rightarrow> if k' = k then Some v else None | None \<Rightarrow> None)" for k
    by (simp add: in_flight_def s' memo_d split: option.split)
  have fl_c: "in_flight memo s' c k = in_flight memo s c k" if "c \<noteq> d" for c k
    using that by (simp add: in_flight_def s')
  have fl_none: "in_flight memo s d k = None" for k by (simp add: in_flight_def done_d)
  have "\<exists>c < n. exec_val memo s' k (ks ! c) c = ls_store s' k"
    if ks: "map_of (spans h) k = Some ks" for k ks
  proof (cases "\<exists>v. update_info call = Some (k, v)")
    case True
    then have "exec_val memo s' k (ks ! d) d = ls_store s' k"
      by (auto simp: exec_val_def fl_d store' kv_apply_update_info)
    with d show ?thesis by blast
  next
    case False
    then have store: "ls_store s' k = ls_store s k"
      by (auto simp: store' kv_apply_update_info split: option.split)
    from st ks obtain c where c: "c < n" "exec_val memo s k (ks ! c) c = ls_store s k"
      unfolding store_supported_def by blast
    have "in_flight memo s' c k = in_flight memo s c k"
      using False by (cases "c = d") (auto simp: fl_d fl_none fl_c split: option.split)
    with c store show ?thesis unfolding exec_val_def by auto
  qed
  then have st': "store_supported n memo h s'" unfolding store_supported_def by blast
  have "resp_shape (dom (map_of (spans h))) r \<and> (\<forall>k ks tr. map_of (spans h) k = Some ks \<longrightarrow> t < tr \<longrightarrow>
      supported n memo s' k (claim r k) (fst (memo ! c)) tr ks)" if r: "ls_done s' c = Some r" for c r
  proof (cases "c = d")
    case True
    with r have "r = resp" by (simp add: s')
    moreover have "pool \<subseteq> dom (map_of (spans h))" using wf unfolding hist_wf_def by blast
    then have "resp_shape (dom (map_of (spans h))) resp" by (rule resp_ok_shape [OF ok call])
    moreover have "supported n memo s' k (claim resp k) tc tr ks"
      if "map_of (spans h) k = Some ks" "t < tr" for k ks tc tr
      using store_visible_now [OF inv that(1), of "claim resp k", OF resp_ok_claim [OF ok] that(2)]
        mono by (rule supported_mono)
    ultimately show ?thesis by blast
  next
    case False
    with r have "ls_done s c = Some r" by (simp add: s')
    with dn show ?thesis using supported_mono [OF _ mono] unfolding done_supported_def by blast
  qed
  then have dn': "done_supported n t memo h s'" unfolding done_supported_def by blast
  have qs': "queue_supported n memo h s'"
    using qs supported_mono [OF _ mono] unfolding queue_supported_def by blast
  from wf mwf' st' dn' qs' show ?thesis unfolding fuzz_inv_def by blast
qed

lemma fuzz_inv_lin_steps:
  "lin_steps s s' \<Longrightarrow> fuzz_inv n pool t memo h s \<Longrightarrow> fuzz_inv n pool t memo h s'"
  by (induction rule: rtranclp_induct) (auto intro: fuzz_inv_lin_step)

section \<open>An operation is called\<close>

lemma hist_wf_mono:
  assumes "hist_wf n pool t h" and "t \<le> t'" shows "hist_wf n pool t' h"
  using assms unfolding hist_wf_def by (meson order_trans)

lemma memo_wf_mono:
  assumes "memo_wf n pool t memo h s" and "t \<le> t'" shows "memo_wf n pool t' memo h s"
  using assms unfolding memo_wf_def by (meson order_trans)

lemma done_supportedD:
  assumes "done_supported n t memo h s" and "ls_done s c = Some r"
  shows "resp_shape (dom (map_of (spans h))) r"
    and "map_of (spans h) k = Some ks \<Longrightarrow> t < tr \<Longrightarrow>
      supported n memo s k (claim r k) (fst (memo ! c)) tr ks"
  using assms unfolding done_supported_def by simp_all

lemma done_supported_mono:
  assumes "done_supported n t memo h s" and "t \<le> t'"
  shows "done_supported n t' memo h s"
  unfolding done_supported_def
  using done_supportedD [OF assms(1)] le_less_trans [OF assms(2)] by simp

lemma fuzz_inv_tick:
  assumes "fuzz_inv n pool t memo h s" and "t \<le> t'"
  shows "fuzz_inv n pool t' memo h s"
  using assms hist_wf_mono memo_wf_mono done_supported_mono unfolding fuzz_inv_def by blast

lemma fuzz_inv_invoke:
  assumes inv: "fuzz_inv n pool t memo h s" and d: "d < n" and idle: "\<not> outstanding s d"
    and call: "fuzz_call_ok pool call" and t: "t < t'"
  shows "fuzz_inv n pool t' (memo[d := (t', update_info call)]) h (lin_invoke d call s)"
proof -
  let ?memo = "memo[d := (t', update_info call)]" and ?s = "lin_invoke d call s"
  have inv': "fuzz_inv n pool t' memo h s" using inv t by (auto intro: fuzz_inv_tick [of n pool t])
  have wf: "hist_wf n pool t h" and mwf: "memo_wf n pool t' memo h s"
    using inv inv' unfolding fuzz_inv_def by blast+
  have len: "length memo = n" using memo_wfD(1) [OF mwf] .
  have done_eq: "ls_done ?s = ls_done s" "ls_store ?s = ls_store s"
    by (simp_all add: lin_invoke_def)
  have memo_c: "c \<noteq> d \<Longrightarrow> ?memo ! c = memo ! c" for c by simp
  have done_d: "ls_done s d = None" using idle by (simp add: outstanding_def)
  have fl: "in_flight ?memo ?s c k = in_flight memo s c k" for c k
    using done_d by (cases "c = d") (simp_all add: in_flight_def done_eq)
  have sup: "supported n ?memo ?s k P tc tr ks = supported n memo s k P tc tr ks" for k P tc tr ks
  proof -
    have "in_flight memo s c k = Some v \<Longrightarrow> ?memo ! c = memo ! c" for c v
      using done_d by (cases "c = d") (auto simp: in_flight_def split: option.splits)
    then show ?thesis unfolding supported_def fl by (metis (no_types, lifting))
  qed
  have ex: "exec_val ?memo ?s k cli c = exec_val memo s k cli c" for k cli c
    by (simp add: exec_val_def fl)
  have mt: "maxtr h ! d < t'" using hist_wfD(2) [OF wf d] t by (rule le_less_trans)
  have outs: "outstanding ?s c \<longleftrightarrow> c = d \<or> outstanding s c" for c
    by (auto simp: outstanding_def lin_invoke_def)
  have "memo_wf n pool t' ?memo h ?s"
    unfolding memo_wf_def
  proof (intro conjI allI impI)
    show "length ?memo = n" using len by simp
    show "lin_wf ?s" using memo_wfD(2) [OF mwf] done_d by (auto simp: lin_wf_def lin_invoke_def)
  next
    fix c assume "outstanding ?s c"
    with outs have o: "c = d \<or> outstanding s c" by simp
    show "c < n" using o d memo_wfD(3) [OF mwf, of c] by auto
    show "fst (?memo ! c) \<le> t'" using o memo_wfD(3) [OF mwf, of c] len d by (cases "c = d") auto
    show "maxtr h ! c < fst (?memo ! c)"
      using o memo_wfD(3) [OF mwf, of c] len d mt by (cases "c = d") auto
    show "k \<in> pool" if "snd (?memo ! c) = Some (k, v)" for k v
      using that o memo_wfD(4) [OF mwf, of c] len d fuzz_call_ok_update [OF call]
      by (cases "c = d") auto
  next
    fix c call' assume "ls_pend ?s c = Some call'"
    then show "snd (?memo ! c) = update_info call'" "fuzz_call_ok pool call'"
      using memo_wfD(5) [OF mwf] len d call by (cases "c = d"; simp add: lin_invoke_def)+
  qed
  moreover have "store_supported n ?memo h ?s"
    using inv' unfolding fuzz_inv_def store_supported_def ex done_eq by blast
  moreover have "done_supported n t' ?memo h ?s"
  proof -
    have "ls_done s c = Some r \<Longrightarrow> ?memo ! c = memo ! c" for c r
      using done_d by (cases "c = d") auto
    then show ?thesis using inv' unfolding fuzz_inv_def done_supported_def sup done_eq by simp
  qed
  moreover have "queue_supported n ?memo h ?s"
    using inv' unfolding fuzz_inv_def queue_supported_def sup by blast
  ultimately show ?thesis using inv' unfolding fuzz_inv_def by blast
qed

section \<open>An operation is acknowledged\<close>

lemma fuzz_inv_add_to_queue:
  assumes inv: "fuzz_inv n pool t memo h s" and r: "ls_done s d = Some r" and t: "t < t'"
  shows "fuzz_inv n pool t' memo (add_to_queue (fst (memo ! d)) t' r h) s"
proof -
  let ?h = "add_to_queue (fst (memo ! d)) t' r h"
  have inv': "fuzz_inv n pool t' memo h s" using inv t by (auto intro: fuzz_inv_tick [of n pool t])
  have same: "spans ?h = spans h" "maxtr ?h = maxtr h"
    "queue ?h = queue h @ [\<lparr>qs_call = fst (memo ! d), qs_resp = t', qs_kvresp = r\<rparr>]"
    by (simp_all add: add_to_queue_def)
  have mwf: "memo_wf n pool t memo h s" and dn: "done_supported n t memo h s"
    and wf': "hist_wf n pool t' h" and qs': "queue_supported n memo h s"
    using inv inv' unfolding fuzz_inv_def by blast+
  have "fst (memo ! d) \<le> t'"
    using memo_wfD(3) [OF mwf, of d] r t by (auto simp: outstanding_def)
  with wf' have "hist_wf n pool t' ?h" unfolding hist_wf_def same by auto
  moreover have "queue_supported n memo ?h s"
    using qs' done_supportedD [OF dn r] t unfolding queue_supported_def same by simp
  ultimately show ?thesis
    using inv' unfolding fuzz_inv_def memo_wf_def store_supported_def done_supported_def same by blast
qed

lemma respond_outstanding:
  assumes "lin_wf s" and "ls_done s d = Some r"
  shows "outstanding (lin_respond d s) c \<longleftrightarrow> c \<noteq> d \<and> outstanding s c"
  using assms by (auto simp: outstanding_def lin_respond_def lin_wf_def)

lemma respond_in_flight:
  "c \<noteq> d \<Longrightarrow> in_flight (memo[d := m]) (lin_respond d s) c k = in_flight memo s c k"
  "in_flight (memo[d := m]) (lin_respond d s) d k = None"
  by (simp_all add: in_flight_def lin_respond_def)

lemma memo_wf_respond:
  assumes mwf: "memo_wf n pool t memo h s" and r: "ls_done s d = Some r"
    and mt: "\<And>c. c \<noteq> d \<Longrightarrow> maxtr h' ! c = maxtr h ! c"
  shows "memo_wf n pool t (memo[d := m]) h' (lin_respond d s)"
proof -
  note outs = respond_outstanding [OF memo_wfD(2) [OF mwf] r]
  have pend: "ls_pend (lin_respond d s) = ls_pend s" by (simp add: lin_respond_def)
  have pend_d: "ls_pend s d = None"
    using memo_wfD(2) [OF mwf] r unfolding lin_wf_def by (metis option.distinct(1))
  have "lin_wf (lin_respond d s)"
    using memo_wfD(2) [OF mwf] by (simp add: lin_wf_def lin_respond_def)
  moreover have "c < n \<and> fst (memo[d := m] ! c) \<le> t \<and> maxtr h' ! c < fst (memo[d := m] ! c)
      \<and> (\<forall>k v. snd (memo[d := m] ! c) = Some (k, v) \<longrightarrow> k \<in> pool)"
    if "outstanding (lin_respond d s) c" for c
  proof -
    have c: "c \<noteq> d" "outstanding s c" using that unfolding outs by simp_all
    with memo_wfD(3,4) [OF mwf c(2)] mt show ?thesis by simp
  qed
  moreover have "snd (memo[d := m] ! c) = update_info call \<and> fuzz_call_ok pool call"
    if "ls_pend s c = Some call" for c call
  proof -
    have "c \<noteq> d" using that pend_d by auto
    with memo_wfD(5) [OF mwf that] show ?thesis by simp
  qed
  ultimately show ?thesis
    unfolding memo_wf_def pend using memo_wfD(1) [OF mwf] by simp
qed

text \<open>The response of a read: nothing is recorded.\<close>

lemma fuzz_inv_respond_read:
  assumes inv: "fuzz_inv n pool t memo h s" and r: "ls_done s d = Some r" and read: "snd (memo ! d) = None"
  shows "fuzz_inv n pool t (memo[d := m]) h (lin_respond d s)"
proof -
  let ?memo = "memo[d := m]" and ?s = "lin_respond d s"
  have mwf: "memo_wf n pool t memo h s" using inv unfolding fuzz_inv_def by blast
  have fl: "in_flight ?memo ?s c k = in_flight memo s c k" for c k
    using respond_in_flight read by (cases "c = d") (auto simp: in_flight_def split: option.split)
  have memo_c: "in_flight memo s c k = Some v \<Longrightarrow> ?memo ! c = memo ! c" for c k v
    using read by (cases "c = d") (auto simp: in_flight_def split: option.splits)
  then have sup: "supported n ?memo ?s k P tc tr ks = supported n memo s k P tc tr ks" for k P tc tr ks
    unfolding supported_def fl by (metis (no_types, lifting))
  have ex: "exec_val ?memo ?s k cli c = exec_val memo s k cli c" for k cli c
    by (simp add: exec_val_def fl)
  have "done_supported n t ?memo h ?s"
    unfolding done_supported_def sup
  proof (intro allI impI conjI)
    fix c r' k ks tr assume "ls_done ?s c = Some r'"
    then have "c \<noteq> d" and r': "ls_done s c = Some r'"
      by (auto simp: lin_respond_def split: if_splits)
    have dn: "done_supported n t memo h s" using inv unfolding fuzz_inv_def by blast
    show "resp_shape (dom (map_of (spans h))) r'" by (rule done_supportedD(1) [OF dn r'])
    assume "map_of (spans h) k = Some ks" and "t < tr"
    from done_supportedD(2) [OF dn r' this] \<open>c \<noteq> d\<close>
    show "supported n memo s k (claim r' k) (fst (?memo ! c)) tr ks" by simp
  qed
  moreover have "ls_store ?s = ls_store s" by (simp add: lin_respond_def)
  ultimately show ?thesis
    using inv memo_wf_respond [OF mwf r]
    unfolding fuzz_inv_def store_supported_def queue_supported_def sup ex by simp
qed

text \<open>
  The response of an update of \<open>k0\<close>: its span is appended to the history of its client and the
  histories are trimmed.  What was supported stays supported, for operations that the trimming spares.
\<close>

definition recorded :: "u64 \<Rightarrow> u64 \<Rightarrow> nat \<Rightarrow> UpdateSpan \<Rightarrow> UpdateSpan list list \<Rightarrow> UpdateSpan list list" where
  "recorded mc mq d sp ks = map (trim_client mc mq) (ks[d := ks ! d @ [sp]])"

lemma recorded_nth:
  assumes "length ks = n" "d < n" "c < n"
  shows "recorded mc mq d sp ks ! c = trim_client mc mq (if c = d then ks ! d @ [sp] else ks ! c)"
  using assms by (simp add: recorded_def)

lemma supported_recorded:
  assumes sup: "supported n memo s k P tc tr ks"
    and ks: "length ks = n" "d < n" and ok: "\<forall>cli \<in> set ks. \<forall>x \<in> set cli. span_ok x"
    and sp: "sp = \<lparr>us_call = fst (memo ! d), us_resp = t, us_value = v\<rparr>" "span_ok sp"
    and memo_d: "snd (memo ! d) = Some (k, v)"
    and tc: "tc \<le> t" "mc \<le> tc \<or> mq \<le> tc"
  shows "supported n (memo[d := m]) (lin_respond d s) k P tc tr (recorded mc mq d sp ks)"
proof -
  let ?new = "\<lambda>c. if c = d then ks ! d @ [sp] else ks ! c"
  have vis: "visible P tc tr (recorded mc mq d sp ks ! c)" if "c < n" "visible P tc tr (?new c)" for c
  proof -
    have "ks ! c \<in> set ks" using ks(1) that(1) by simp
    with ok sp(2) have "\<forall>x \<in> set (?new c). span_ok x" by (cases "c = d") auto
    from visible_trim [OF this tc(2)] that show ?thesis by (simp add: recorded_nth [OF ks])
  qed
  from sup obtain c where c: "c < n" and
    "visible P tc tr (ks ! c) \<or> (\<exists>w. in_flight memo s c k = Some w \<and> P w \<and> fst (memo ! c) < tr)"
    unfolding supported_def by blast
  then show ?thesis
  proof (elim disjE exE conjE)
    assume "visible P tc tr (ks ! c)"
    then have "visible P tc tr (?new c)" using tc(1) by (auto simp: visible_snoc sp(1))
    with c vis show ?thesis unfolding supported_def by blast
  next
    fix w assume w: "in_flight memo s c k = Some w" "P w" "fst (memo ! c) < tr"
    show ?thesis
    proof (cases "c = d")
      case True
      with w(1) memo_d have "w = v" by (auto simp: in_flight_def split: option.splits)
      with True w have "visible P tc tr (?new c)" by (simp add: visible_snoc sp(1))
      with c vis show ?thesis unfolding supported_def by blast
    next
      case False
      then have "in_flight (memo[d := m]) (lin_respond d s) c k = Some w"
        using respond_in_flight(1) w(1) by metis
      with False w c show ?thesis unfolding supported_def by (metis nth_list_update_neq)
    qed
  qed
qed

lemma supported_other_key:
  assumes "supported n memo s k P tc tr ks" and "snd (memo ! d) = Some (k0, v)" and "k \<noteq> k0"
  shows "supported n (memo[d := m]) (lin_respond d s) k P tc tr ks"
proof -
  have "in_flight memo s d k = None" using assms(2,3) by (simp add: in_flight_def split: option.split)
  then have "in_flight memo s c k = Some w \<Longrightarrow>
    in_flight (memo[d := m]) (lin_respond d s) c k = Some w \<and> (memo[d := m]) ! c = memo ! c" for c w
    using respond_in_flight(1) by (cases "c = d") auto
  with assms(1) show ?thesis unfolding supported_def by (metis (no_types, lifting))
qed

text \<open>The histories after the record, looked up.\<close>

lemma recorded_spans:
  assumes wf: "hist_wf n pool t h" and ks0: "map_of (spans h) k0 = Some ks0" and d: "d < n"
    and sp: "span_ok sp" "us_resp sp \<le> t"
    and ks: "map_of (alist_put k0 (recorded mc mq d sp ks0) (spans h)) k = Some ks"
  shows "length ks = n \<and> (\<forall>cli \<in> set ks. cli \<noteq> [] \<and> (\<forall>x \<in> set cli. span_ok x \<and> us_resp x \<le> t))"
proof (cases "k = k0")
  case True
  with ks have eq: "ks = recorded mc mq d sp ks0" by (simp add: map_of_alist_put [OF ks0])
  have len: "length ks0 = n" using hist_wf_spansD(1) [OF wf ks0] .
  have "ks ! c \<noteq> [] \<and> (\<forall>x \<in> set (ks ! c). span_ok x \<and> us_resp x \<le> t)" if c: "c < n" for c
  proof -
    let ?new = "if c = d then ks0 ! d @ [sp] else ks0 ! c"
    have "?new \<noteq> []" and "\<forall>x \<in> set ?new. span_ok x \<and> us_resp x \<le> t"
      using hist_wf_spansD(2,3) [OF wf ks0] c d sp by auto
    then have "trim_client mc mq ?new \<noteq> []"
      and "\<forall>x \<in> set (trim_client mc mq ?new). span_ok x \<and> us_resp x \<le> t"
      using trim_client_nonempty [of ?new] trim_client_set [of mc mq ?new] by blast+
    then show ?thesis
      unfolding eq recorded_nth [OF len d c] by blast
  qed
  moreover have "length ks = n" using len by (simp add: eq recorded_def)
  ultimately show ?thesis by (auto simp: all_set_conv_all_nth)
next
  case False
  with ks have "map_of (spans h) k = Some ks" by (simp add: map_of_alist_put [OF ks0])
  with wf show ?thesis unfolding hist_wf_def by simp
qed

text \<open>
  Once a response is old enough to be checked, every update that was outstanding when it was given has
  been acknowledged, so what supports its claims is visible in the histories.
\<close>

lemma supported_visible:
  assumes sup: "supported n memo s k P tc tr ks" and len: "length ks = n"
    and mwf: "memo_wf n pool t memo h s" and mt: "length (maxtr h) = n" and tr: "tr < min_coming (maxtr h)"
  shows "\<exists>cli \<in> set ks. visible P tc tr cli"
proof -
  from sup obtain c where c: "c < n" and
    *: "visible P tc tr (ks ! c) \<or> (\<exists>w. in_flight memo s c k = Some w \<and> P w \<and> fst (memo ! c) < tr)"
    unfolding supported_def by blast
  have "\<not> (in_flight memo s c k = Some w \<and> fst (memo ! c) < tr)" for w
  proof
    assume **: "in_flight memo s c k = Some w \<and> fst (memo ! c) < tr"
    then have "maxtr h ! c < fst (memo ! c)"
      using memo_wfD(3) [OF mwf] in_flight_outstanding by blast
    also have "\<dots> < min_coming (maxtr h)" using ** tr by (blast intro: less_trans)
    also have "\<dots> \<le> maxtr h ! c" using c mt by (simp add: min_coming_le)
    finally show False by simp
  qed
  with * have "visible P tc tr (ks ! c)" by blast
  with c len show ?thesis by (metis nth_mem)
qed

lemma exec_val_recorded:
  assumes "length ks = n" "d < n" "c < n" "\<And>c. c < n \<Longrightarrow> ks ! c \<noteq> []"
    and "ls_done s d = Some r" "snd (memo ! d) = Some (k, v)" "us_value sp = v"
  shows "exec_val (memo[d := m]) (lin_respond d s) k (recorded mc mq d sp ks ! c) c = exec_val memo s k (ks ! c) c"
proof (cases "c = d")
  case True
  with assms have "exec_val memo s k (ks ! c) c = v" by (simp add: exec_val_def in_flight_def)
  moreover have "last (recorded mc mq d sp ks ! c) = sp"
    unfolding recorded_nth [OF assms(1-3)] using True by (simp add: trim_client_last)
  ultimately show ?thesis using True assms(7) respond_in_flight(2) by (simp add: exec_val_def)
next
  case False
  have "last (recorded mc mq d sp ks ! c) = last (ks ! c)"
    unfolding recorded_nth [OF assms(1-3)] using False assms(3,4) by (simp add: trim_client_last)
  with False show ?thesis
    using respond_in_flight(1) by (simp add: exec_val_def split: option.split)
qed

lemma exec_val_other_key:
  assumes "snd (memo ! d) = Some (k0, v)" and "k \<noteq> k0"
  shows "exec_val (memo[d := m]) (lin_respond d s) k cli c = exec_val memo s k cli c"
proof -
  have "in_flight memo s d k = None" using assms by (simp add: in_flight_def split: option.split)
  then have "in_flight (memo[d := m]) (lin_respond d s) c k = in_flight memo s c k"
    using respond_in_flight by (cases "c = d") auto
  then show ?thesis by (simp add: exec_val_def)
qed

text \<open>The history after an update of \<open>k0\<close> by client \<open>d\<close> is acknowledged, when every check passes.\<close>

definition coming :: "nat \<Rightarrow> u64 \<Rightarrow> History \<Rightarrow> u64" where
  "coming d t h = min_coming ((maxtr h)[d := t])"

definition acked :: "nat \<Rightarrow> u64 \<Rightarrow> u64 \<Rightarrow> string \<Rightarrow> string option \<Rightarrow> UpdateSpan list list \<Rightarrow> History \<Rightarrow> History" where
  "acked d tc t k0 v ks0 h =
     \<lparr>queue = dropWhile (\<lambda>e. qs_resp e < coming d t h) (queue h),
      spans = alist_put k0 (recorded (coming d t h) (min_queued (queue h)) d
                 \<lparr>us_call = tc, us_resp = t, us_value = v\<rparr> ks0) (spans h),
      maxtr = (maxtr h)[d := t]\<rparr>"

lemma acked_spans:
  assumes "map_of (spans h) k0 = Some ks0"
  shows "map_of (spans (acked d tc t k0 v ks0 h)) = (map_of (spans h))(k0 \<mapsto>
           recorded (coming d t h) (min_queued (queue h)) d \<lparr>us_call = tc, us_resp = t, us_value = v\<rparr> ks0)"
    and "dom (map_of (spans (acked d tc t k0 v ks0 h))) = dom (map_of (spans h))"
  using map_of_alist_put [OF assms] assms by (auto simp: acked_def)

lemma acked_hist_wf:
  assumes wf: "hist_wf n pool t h" and ks0: "map_of (spans h) k0 = Some ks0" and d: "d < n" and tc: "tc \<le> t"
  shows "hist_wf n pool t (acked d tc t k0 v ks0 h)"
proof -
  let ?h = "acked d tc t k0 v ks0 h"
  have "\<forall>c < n. maxtr ?h ! c \<le> t"
    using hist_wfD(1,2) [OF wf] d by (simp add: acked_def nth_list_update)
  moreover have "\<forall>e \<in> set (queue ?h). qs_call e \<le> qs_resp e \<and> qs_resp e \<le> t"
    using hist_wfD(5) [OF wf] by (auto simp: acked_def dest: set_dropWhileD)
  moreover have "distinct (map fst (spans ?h))" using hist_wfD(3) [OF wf] by (simp add: acked_def)
  moreover have "pool \<subseteq> dom (map_of (spans ?h))"
    using wf unfolding acked_spans(2) [OF ks0] hist_wf_def by blast
  moreover have "length ks = n \<and> (\<forall>cli \<in> set ks. cli \<noteq> [] \<and> (\<forall>x \<in> set cli. span_ok x \<and> us_resp x \<le> t))"
    if "map_of (spans ?h) k = Some ks" for k ks
    using that recorded_spans [OF wf ks0 d, of "\<lparr>us_call = tc, us_resp = t, us_value = v\<rparr>"] tc
    unfolding acked_def by (simp add: span_ok_def del: map_of_eq_Some_iff)
  ultimately show ?thesis
    unfolding hist_wf_def using hist_wfD(1) [OF wf] by (simp add: acked_def del: map_of_eq_Some_iff)
qed

lemma acked_supported:
  assumes wf: "hist_wf n pool t h" and ks0: "map_of (spans h) k0 = Some ks0" and d: "d < n" "tc \<le> t"
    and memo_d: "memo ! d = (tc, Some (k0, v))"
    and ks: "map_of (spans (acked d tc t k0 v ks0 h)) k = Some ks"
    and sup: "\<And>ks. map_of (spans h) k = Some ks \<Longrightarrow> supported n memo s k P tc' tr ks"
    and tc': "tc' \<le> t" "coming d t h \<le> tc' \<or> min_queued (queue h) \<le> tc'"
  shows "supported n (memo[d := m]) (lin_respond d s) k P tc' tr ks"
proof (cases "k = k0")
  case True
  have ok: "\<forall>cli \<in> set ks0. \<forall>x \<in> set cli. span_ok x"
    using wf ks0 unfolding hist_wf_def by blast
  show ?thesis
    using supported_recorded [OF sup [OF ks0 [folded True]] hist_wf_spansD(1) [OF wf ks0] d(1) ok _ _ _ tc',
        of "\<lparr>us_call = tc, us_resp = t, us_value = v\<rparr>" v m] ks True memo_d d
    by (auto simp: acked_spans(1) [OF ks0] span_ok_def)
next
  case False
  with ks sup memo_d show ?thesis
    by (intro supported_other_key) (auto simp: acked_spans(1) [OF ks0])
qed

lemma acked_store_supported:
  assumes wf: "hist_wf n pool t h" and ks0: "map_of (spans h) k0 = Some ks0" and d: "d < n"
    and memo_d: "memo ! d = (tc, Some (k0, v))" and r: "ls_done s d = Some r"
    and st: "store_supported n memo h s"
  shows "store_supported n (memo[d := m]) (acked d tc t k0 v ks0 h) (lin_respond d s)"
  unfolding store_supported_def
proof (intro allI impI)
  let ?sp = "\<lparr>us_call = tc, us_resp = t, us_value = v\<rparr>"
  fix k ks assume ks: "map_of (spans (acked d tc t k0 v ks0 h)) k = Some ks"
  show "\<exists>c < n. exec_val (memo[d := m]) (lin_respond d s) k (ks ! c) c = ls_store (lin_respond d s) k"
  proof (cases "k = k0")
    case True
    with st ks0 obtain c where c: "c < n" "exec_val memo s k (ks0 ! c) c = ls_store s k"
      unfolding store_supported_def by blast
    have "snd (memo ! d) = Some (k, v)" using memo_d True by simp
    from exec_val_recorded [OF hist_wf_spansD(1) [OF wf ks0] d c(1) hist_wf_spansD(2) [OF wf ks0] r this,
        where sp = ?sp and m = m] c ks True
    show ?thesis by (auto simp: acked_spans(1) [OF ks0] lin_respond_def)
  next
    case False
    with ks have "map_of (spans h) k = Some ks" by (simp add: acked_spans(1) [OF ks0])
    with st obtain c where "c < n" "exec_val memo s k (ks ! c) c = ls_store s k"
      unfolding store_supported_def by blast
    then show ?thesis
      using exec_val_other_key [of memo d k0 v k] memo_d False by (auto simp: lin_respond_def)
  qed
qed

lemma acked_done_supported:
  assumes wf: "hist_wf n pool t h" and mwf: "memo_wf n pool t memo h s"
    and ks0: "map_of (spans h) k0 = Some ks0" and d: "d < n" "tc \<le> t"
    and memo_d: "memo ! d = (tc, Some (k0, v))" and dn: "done_supported n t memo h s"
  shows "done_supported n t (memo[d := m]) (acked d tc t k0 v ks0 h) (lin_respond d s)"
  unfolding done_supported_def
proof (intro allI impI conjI)
  let ?h = "acked d tc t k0 v ks0 h"
  fix c r' k ks tr assume "ls_done (lin_respond d s) c = Some r'"
  then have cd: "c \<noteq> d" and r': "ls_done s c = Some r'"
    by (auto simp: lin_respond_def split: if_splits)
  show "resp_shape (dom (map_of (spans ?h))) r'"
    using done_supportedD(1) [OF dn r'] by (simp add: acked_spans(2) [OF ks0])
  assume ks: "map_of (spans ?h) k = Some ks" and tr: "t < tr"
  have o: "c < n" "fst (memo ! c) \<le> t" "maxtr h ! c < fst (memo ! c)"
    using memo_wfD(3) [OF mwf, of c] r' by (auto simp: outstanding_def)
  have "coming d t h \<le> (maxtr h)[d := t] ! c"
    unfolding coming_def using o(1) hist_wfD(1) [OF wf] by (intro min_coming_le) simp
  then have "coming d t h \<le> fst (memo ! c)" using o cd by simp
  then have "supported n (memo[d := m]) (lin_respond d s) k (claim r' k) (fst (memo ! c)) tr ks"
    using done_supportedD(2) [OF dn r' _ tr] o(2)
    by (intro acked_supported [OF wf ks0 d memo_d ks]) auto
  then show "supported n (memo[d := m]) (lin_respond d s) k (claim r' k) (fst (memo[d := m] ! c)) tr ks"
    using cd by simp
qed

text \<open>What the queue claims, before the old responses are popped.\<close>

lemma acked_queued_supported:
  assumes wf: "hist_wf n pool t h" and ks0: "map_of (spans h) k0 = Some ks0" and d: "d < n" "tc \<le> t"
    and memo_d: "memo ! d = (tc, Some (k0, v))" and qs: "queue_supported n memo h s" and e: "e \<in> set (queue h)"
  shows "resp_shape (dom (map_of (spans (acked d tc t k0 v ks0 h)))) (qs_kvresp e)"
    and "map_of (spans (acked d tc t k0 v ks0 h)) k = Some ks \<Longrightarrow>
      supported n (memo[d := m]) (lin_respond d s) k (claim (qs_kvresp e) k) (qs_call e) (qs_resp e) ks"
proof -
  show "resp_shape (dom (map_of (spans (acked d tc t k0 v ks0 h)))) (qs_kvresp e)"
    using qs e unfolding queue_supported_def acked_spans(2) [OF ks0] by blast
  assume ks: "map_of (spans (acked d tc t k0 v ks0 h)) k = Some ks"
  show "supported n (memo[d := m]) (lin_respond d s) k (claim (qs_kvresp e) k) (qs_call e) (qs_resp e) ks"
  proof (rule acked_supported [OF wf ks0 d memo_d ks])
    show "qs_call e \<le> t" using hist_wfD(5) [OF wf e] by auto
    show "coming d t h \<le> qs_call e \<or> min_queued (queue h) \<le> qs_call e"
      using min_queued_le [OF e] by simp
  qed (use qs e in \<open>simp add: queue_supported_def\<close>)
qed

lemma fuzz_inv_respond_update:
  assumes inv: "fuzz_inv n pool t memo h s" and r: "ls_done s d = Some r"
    and memo_d: "memo ! d = (tc, Some (k0, v))"
  shows "\<exists>h'. apply_update d tc t k0 v h = Done (None, h')
    \<and> fuzz_inv n pool t (memo[d := m]) h' (lin_respond d s)"
proof -
  have wf: "hist_wf n pool t h" and mwf: "memo_wf n pool t memo h s"
    and st: "store_supported n memo h s" and dn: "done_supported n t memo h s"
    and qs: "queue_supported n memo h s"
    using inv unfolding fuzz_inv_def by blast+
  have out: "outstanding s d" using r by (simp add: outstanding_def)
  have d: "d < n" "tc \<le> t" and k0: "k0 \<in> pool"
    using memo_wfD(3,4) [OF mwf out] memo_d by auto
  obtain ks0 where ks0: "map_of (spans h) k0 = Some ks0" using hist_wfD(4) [OF wf k0] by blast
  let ?h = "acked d tc t k0 v ks0 h"
  have wf': "hist_wf n pool t ?h" by (rule acked_hist_wf [OF wf ks0 d])
  have mwf': "memo_wf n pool t (memo[d := m]) ?h (lin_respond d s)"
    by (rule memo_wf_respond [OF mwf r]) (simp add: acked_def)
  note queued = acked_queued_supported [OF wf ks0 d memo_d qs]
  have "check_call (spans ?h) e" if e: "e \<in> set (queue h)" "qs_resp e < coming d t h" for e
  proof (rule check_call_claims)
    show "distinct (map fst (spans ?h))" by (rule hist_wfD(3) [OF wf'])
    show "\<exists>cli \<in> set ks. visible (claim (qs_kvresp e) k) (qs_call e) (qs_resp e) cli"
      if "map_of (spans ?h) k = Some ks" for k ks
      by (rule supported_visible [OF queued(2) [OF e(1) that] hist_wf_spansD(1) [OF wf' that] mwf' hist_wfD(1) [OF wf']])
        (use e(2) in \<open>simp add: acked_def coming_def\<close>)
  qed (rule queued(1) [OF e(1)])
  then have "check_queue (spans ?h) (coming d t h) (queue h) = (None, queue ?h)"
    by (simp add: check_queue_pass acked_def)
  then have "apply_update d tc t k0 v h = Done (None, ?h)"
    using apply_update_known [OF ks0] d hist_wfD(1) [OF wf] hist_wf_spansD(1) [OF wf ks0]
    by (simp add: Let_def recorded_def acked_def coming_def)
  moreover have "queue_supported n (memo[d := m]) ?h (lin_respond d s)"
    unfolding queue_supported_def
  proof (intro ballI conjI allI impI)
    fix e k ks assume "e \<in> set (queue ?h)"
    then have e: "e \<in> set (queue h)" by (auto simp: acked_def dest: set_dropWhileD)
    show "resp_shape (dom (map_of (spans ?h))) (qs_kvresp e)" by (rule queued(1) [OF e])
    show "supported n (memo[d := m]) (lin_respond d s) k (claim (qs_kvresp e) k) (qs_call e) (qs_resp e) ks"
      if "map_of (spans ?h) k = Some ks" by (rule queued(2) [OF e that])
  qed
  ultimately show ?thesis
    using wf' mwf' acked_store_supported [OF wf ks0 d(1) memo_d r st]
      acked_done_supported [OF wf mwf ks0 d memo_d dn]
    unfolding fuzz_inv_def by blast
qed

end
