(* ===== verification/Fuzz_Loop.thy ===== *)
theory Fuzz_Loop
  imports Fuzz_Sound
begin

text \<open>
  The fuzzing loop as a whole: the shape of one round, the bookkeeping of calls and responses (which
  rules out the panics of the loop), termination under a fair random number generator, and the
  soundness of the verdict in every world that satisfies \<open>lin_env\<close>.
\<close>

section \<open>Counting\<close>

lemma unat_incr: "Suc (unat (x :: usize)) < 2 ^ 64 \<Longrightarrow> unat (x + 1) = Suc (unat x)"
  by (subst unat_add_lem [THEN iffD1]) simp_all

lemma count_list_update_Suc:
  "i < length xs \<Longrightarrow> xs ! i \<noteq> a \<Longrightarrow> count_list (xs[i := a]) a = Suc (count_list xs a)"
  by (induction xs arbitrary: i) (auto split: nat.split)

lemma count_list_update_pred:
  "i < length xs \<Longrightarrow> xs ! i = a \<Longrightarrow> b \<noteq> a \<Longrightarrow> Suc (count_list (xs[i := b]) a) = count_list xs a"
  by (induction xs arbitrary: i) (auto split: nat.split)

lemma count_list_pos: "0 < count_list xs a \<longleftrightarrow> a \<in> set xs"
  by (metis bot_nat_0.not_eq_extremum count_list_0_iff)

section \<open>The shape of a round\<close>

lemma gen_call_vs_wait_cases:
  assumes "gen_call_vs_wait R called tot flying g = (call, g')"
  shows "call \<Longrightarrow> called \<noteq> tot \<and> False \<in> set flying"
    and "\<not> call \<Longrightarrow> called = tot \<or> True \<in> set flying \<or> flying = []"
  using assms by (cases flying; auto simp: gen_call_vs_wait_def list_all_iff split: if_splits)+

text \<open>A round that makes a call: a random idle client, a random call over its keys.\<close>

lemma fuzz_call_shape:
  assumes R: "rng_ok R" and ret: "fuzz_call R C keys st = Some r"
    and len: "length (fz_flying st) = n" "length keys = n" "length (fz_memo st) = n" "0 < n"
    and keys: "[] \<notin> set keys" and shape: "stats_shape keys (fz_stats st)"
  obtains (error) e st' where "r = Fail e st'"
  | (sent) c call stats' g' w' where "c < n" "\<not> fz_flying st ! c"
    "fuzz_call_ok (set (keys ! c)) call" "stats_shape keys stats'"
    "send_call_op C c call (fz_world st) = (Inr (), w')"
    "r = Continue (st\<lparr>fz_memo := (fz_memo st)[c := (fz_timestamp st, update_info call)],
           fz_stats := stats', fz_rng := g', fz_world := w',
           fz_flying := (fz_flying st)[c := True], fz_called := fz_called st + 1\<rparr>)"
proof -
  obtain res where res: "gen_rand_client R (fz_flying st) False (fz_rng st) = Some res"
    using ret by (auto simp: fuzz_call_def split: option.splits)
  from gen_rand_client_sound [OF R res] len obtain c g1 where
    c: "res = Done (c, g1)" "c < n" "\<not> fz_flying st ! c" by auto
  then have "keys ! c \<noteq> []" using keys len(2) by (metis nth_mem)
  then obtain call stats' g' where
    g: "gen_rand_kvcall R (keys ! c) (fz_stats st) c g1 = Done (call, stats', g')"
    "fuzz_call_ok (set (keys ! c)) call" "stats_shape keys stats'"
    using gen_rand_kvcall_ok [OF R shape, of c g1] c(2) len(2) by blast
  obtain sent w' where s: "send_call_op C c call (fz_world st) = (sent, w')" by fastforce
  show ?thesis
  proof (cases sent)
    case (Inl e)
    then have "\<exists>st'. r = Fail e st'" using ret res c g(1) s len by (auto simp: fuzz_call_def Let_def)
    then show ?thesis using error by blast
  next
    case (Inr u)
    show ?thesis
      by (rule sent [OF c(2,3) g(2,3), where g' = g'])
        (use ret res c g(1) s len Inr in \<open>auto simp: fuzz_call_def Let_def\<close>)
  qed
qed

text \<open>A round that harvests a response: a random busy client.\<close>

definition harvested ::
  "'w client_ops \<Rightarrow> usize \<Rightarrow> nat \<Rightarrow> KvResp \<Rightarrow> ('g, 'w) fuzz \<Rightarrow> ('g, 'w) round" where
  "harvested C tot c resp st =
     (let (tc, upd) = fz_memo st ! c; tr = fz_timestamp st;
          st2 = st\<lparr>fz_memo := (fz_memo st)[c := (0, None)]\<rparr>
      in case acknowledge c tc tr resp upd (fz_history st) of
           Panic m \<Rightarrow> Crash m
         | Done (Some (Some bad), h') \<Rightarrow>
             Break (st2\<lparr>fz_history := h', fz_log := fz_log st @ [ConsistencyViolation c tc tr bad]\<rparr>)
         | Done (Some None, h') \<Rightarrow>
             Break (st2\<lparr>fz_history := h', fz_log := fz_log st @ [UnexpectedUpdateKey c tc tr]\<rparr>)
         | Done (None, h') \<Rightarrow>
             fuzz_progress C tot
               (st2\<lparr>fz_history := h', fz_flying := (fz_flying st)[c := False],
                    fz_waited := fz_waited st + 1\<rparr>))"

lemma fuzz_wait_shape:
  assumes R: "rng_ok R" and ret: "fuzz_wait R C tot st = Some r"
    and len: "length (fz_flying st) = n" "length (fz_memo st) = n" "0 < n"
  obtains (error) e st' where "r = Fail e st'"
  | (got) c g' resp w' where "c < n" "fz_flying st ! c"
    "wait_resp_op C c RESP_TIMEOUT (fz_world st) = (Inr resp, w')"
    "r = (if resp = RStop
          then Break (st\<lparr>fz_rng := g', fz_world := w',
                          fz_log := fz_log st @ [UnexpectedStop c (fz_timestamp st)]\<rparr>)
          else harvested C tot c resp (st\<lparr>fz_rng := g', fz_world := w'\<rparr>))"
proof -
  obtain res where res: "gen_rand_client R (fz_flying st) True (fz_rng st) = Some res"
    using ret by (auto simp: fuzz_wait_def split: option.splits)
  from gen_rand_client_sound [OF R res] len obtain c g1 where
    c: "res = Done (c, g1)" "c < n" "fz_flying st ! c" by auto
  obtain got w' where s: "wait_resp_op C c RESP_TIMEOUT (fz_world st) = (got, w')" by fastforce
  show ?thesis
  proof (cases got)
    case (Inl e)
    then have "\<exists>st'. r = Fail e st'" using ret res c s len by (auto simp: fuzz_wait_def Let_def)
    then show ?thesis using error by blast
  next
    case (Inr resp)
    have "r = (if resp = RStop
          then Break (st\<lparr>fz_rng := g1, fz_world := w',
                          fz_log := fz_log st @ [UnexpectedStop c (fz_timestamp st)]\<rparr>)
          else harvested C tot c resp (st\<lparr>fz_rng := g1, fz_world := w'\<rparr>))"
      using ret res c s len Inr
      by (simp add: fuzz_wait_def harvested_def Let_def
          split: if_splits prod.splits option.splits rust.splits)
    with c(2,3) s Inr show ?thesis by (intro got) simp_all
  qed
qed

lemma fuzz_progress_shape:
  assumes "tot div 100 \<noteq> 0"
  obtains (error) e st' where "fuzz_progress C tot st = Fail e st'"
  | (quiet) "fuzz_progress C tot st = Continue st"
  | (flush) w' where "flush_op C (fz_world st) = (Inr (), w')"
      "fuzz_progress C tot st =
         Continue (st\<lparr>fz_world := w', fz_log := fz_log st @ [Progress (fz_called st) (fz_waited st)]\<rparr>)"
proof -
  obtain f w' where f: "flush_op C (fz_world st) = (f, w')" by fastforce
  show ?thesis
  proof (cases "fz_waited st mod (tot div 100) = 0 \<or> fz_waited st = tot")
    case True
    show ?thesis
    proof (cases f)
      case (Inl e)
      show ?thesis by (rule error) (use assms f True Inl in \<open>simp add: fuzz_progress_def\<close>)
    next
      case (Inr u)
      show ?thesis by (rule flush) (use assms f True Inr in \<open>simp_all add: fuzz_progress_def\<close>)
    qed
  next
    case False
    show ?thesis by (rule quiet) (use assms False in \<open>simp add: fuzz_progress_def\<close>)
  qed
qed

text \<open>A harvest that goes on has passed its checks.\<close>

lemma harvested_Continue:
  assumes "harvested C tot c resp st = Continue st'" and "tot div 100 \<noteq> 0"
  shows "\<exists>h'. acknowledge c (fst (fz_memo st ! c)) (fz_timestamp st) resp (snd (fz_memo st ! c)) (fz_history st)
      = Done (None, h') \<and> fz_history st' = h' \<and> fz_timestamp st' = fz_timestamp st
      \<and> fz_called st' = fz_called st \<and> fz_waited st' = fz_waited st + 1
      \<and> fz_flying st' = (fz_flying st)[c := False] \<and> fz_memo st' = (fz_memo st)[c := (0, None)]
      \<and> fz_stats st' = fz_stats st
      \<and> (fz_world st' = fz_world st \<or> flush_op C (fz_world st) = (Inr (), fz_world st'))"
proof -
  obtain h' where ack: "acknowledge c (fst (fz_memo st ! c)) (fz_timestamp st) resp (snd (fz_memo st ! c))
      (fz_history st) = Done (None, h')"
    and p: "fuzz_progress C tot (st\<lparr>fz_memo := (fz_memo st)[c := (0, None)], fz_history := h',
      fz_flying := (fz_flying st)[c := False], fz_waited := fz_waited st + 1\<rparr>) = Continue st'"
    using assms(1)
    by (auto simp: harvested_def Let_def split: prod.splits option.splits rust.splits)
  show ?thesis
    by (rule fuzz_progress_shape [OF assms(2), of C "st\<lparr>fz_memo := (fz_memo st)[c := (0, None)],
          fz_history := h', fz_flying := (fz_flying st)[c := False], fz_waited := fz_waited st + 1\<rparr>"])
      (use ack p in auto)
qed

section \<open>Bookkeeping\<close>

text \<open>
  The timestamp counts the rounds, each of which is a call or a response; the clients marked as flying
  are the calls that have no response yet.
\<close>

definition counters :: "usize \<Rightarrow> ('g, 'w) fuzz \<Rightarrow> bool" where
  "counters tot st \<longleftrightarrow>
     unat (fz_timestamp st) = unat (fz_called st) + unat (fz_waited st)
     \<and> unat (fz_called st) = unat (fz_waited st) + count_list (fz_flying st) True
     \<and> fz_called st \<le> tot"

definition loop_ok :: "nat \<Rightarrow> string list list \<Rightarrow> usize \<Rightarrow> ('g, 'w) fuzz \<Rightarrow> bool" where
  "loop_ok n keys tot st \<longleftrightarrow>
     length (fz_flying st) = n \<and> length keys = n \<and> length (fz_memo st) = n \<and> 0 < n
     \<and> [] \<notin> set keys \<and> stats_shape keys (fz_stats st) \<and> counters tot st"

text \<open>The number of operations leaves room in the timestamp.\<close>

definition small :: "usize \<Rightarrow> bool" where
  "small tot \<longleftrightarrow> 2 * unat tot < 2 ^ 64"

definition ticked :: "('g, 'w) fuzz \<Rightarrow> 'g \<Rightarrow> ('g, 'w) fuzz" where
  "ticked st g = st\<lparr>fz_timestamp := fz_timestamp st + 1, fz_rng := g\<rparr>"

lemma ticked_simps [simp]:
  "fz_flying (ticked st g) = fz_flying st" "fz_memo (ticked st g) = fz_memo st"
  "fz_history (ticked st g) = fz_history st" "fz_called (ticked st g) = fz_called st"
  "fz_waited (ticked st g) = fz_waited st" "fz_stats (ticked st g) = fz_stats st"
  "fz_world (ticked st g) = fz_world st" "fz_log (ticked st g) = fz_log st" "fz_rng (ticked st g) = g"
  "fz_timestamp (ticked st g) = fz_timestamp st + 1"
  by (simp_all add: ticked_def)

lemma fuzz_round_ticked:
  "gen_call_vs_wait R (fz_called st) tot (fz_flying st) (fz_rng st) = (call, g') \<Longrightarrow>
   fuzz_round R C keys tot st =
     (if call then fuzz_call R C keys (ticked st g') else fuzz_wait R C tot (ticked st g'))"
  by (simp add: fuzz_round_def ticked_def)

lemma counters_tick:
  assumes "counters tot st" and "small tot" and "fz_waited st < tot"
  shows "unat (fz_timestamp st + 1) = Suc (unat (fz_timestamp st))"
proof (rule unat_incr)
  have "unat (fz_called st) \<le> unat tot" "unat (fz_waited st) < unat tot"
    using assms by (simp_all add: counters_def word_le_nat_alt word_less_nat_alt)
  then show "Suc (unat (fz_timestamp st)) < 2 ^ 64"
    using assms(1,2) by (simp add: counters_def small_def)
qed

lemma counters_call:
  assumes "counters tot st" and "small tot" and "fz_waited st < tot" and "fz_called st \<noteq> tot"
    and "c < length (fz_flying st)" and "\<not> fz_flying st ! c"
    and "fz_timestamp st' = fz_timestamp st + 1" and "fz_called st' = fz_called st + 1"
    and "fz_waited st' = fz_waited st" and "fz_flying st' = (fz_flying st)[c := True]"
  shows "counters tot st'"
proof -
  have "unat (fz_called st) < unat tot"
    using assms(1,4) by (metis counters_def le_neq_trans word_less_nat_alt)
  moreover from this assms(2) have "unat (fz_called st + 1) = Suc (unat (fz_called st))"
    by (intro unat_incr) (simp add: small_def)
  ultimately show ?thesis
    using assms counters_tick [OF assms(1-3)] count_list_update_Suc [OF assms(5), of True]
    by (simp add: counters_def word_le_nat_alt)
qed

lemma counters_wait:
  assumes "counters tot st" and "small tot" and "fz_waited st < tot"
    and "c < length (fz_flying st)" and "fz_flying st ! c"
    and "fz_timestamp st' = fz_timestamp st + 1" and "fz_called st' = fz_called st"
    and "fz_waited st' = fz_waited st + 1" and "fz_flying st' = (fz_flying st)[c := False]"
  shows "counters tot st'"
proof -
  have "unat (fz_waited st + 1) = Suc (unat (fz_waited st))"
    using assms(2,3) by (intro unat_incr) (simp add: small_def word_less_nat_alt)
  then show ?thesis
    using assms counters_tick [OF assms(1-3)] count_list_update_pred [OF assms(4), of True False]
    by (simp add: counters_def)
qed

lemma round_loop_ok:
  assumes R: "rng_ok R" and ok: "loop_ok n keys tot st" and tot: "small tot" "tot div 100 \<noteq> 0"
    and more: "fz_waited st < tot" and ret: "fuzz_round R C keys tot st = Some (Continue st')"
  shows "loop_ok n keys tot st' \<and> unat (fz_timestamp st') = Suc (unat (fz_timestamp st))"
proof -
  have len: "length (fz_flying st) = n" "length keys = n" "length (fz_memo st) = n" "0 < n"
    and keys: "[] \<notin> set keys" and sh: "stats_shape keys (fz_stats st)" and cnt: "counters tot st"
    using ok unfolding loop_ok_def by blast+
  obtain call g where cw: "gen_call_vs_wait R (fz_called st) tot (fz_flying st) (fz_rng st) = (call, g)"
    by fastforce
  note tick = counters_tick [OF cnt tot(1) more]
  show ?thesis
  proof (cases call)
    case True
    then have "fuzz_call R C keys (ticked st g) = Some (Continue st')"
      using ret fuzz_round_ticked [OF cw] by simp
    then show ?thesis
    proof (rule fuzz_call_shape [OF R, where n = n])
      fix c cl stats' g' w'
      assume c: "c < n" "\<not> fz_flying (ticked st g) ! c" "stats_shape keys stats'"
        and st': "Continue st' = Continue (ticked st g\<lparr>fz_memo := (fz_memo (ticked st g))
            [c := (fz_timestamp (ticked st g), update_info cl)], fz_stats := stats', fz_rng := g',
            fz_world := w', fz_flying := (fz_flying (ticked st g))[c := True],
            fz_called := fz_called (ticked st g) + 1\<rparr>)"
      have "counters tot st'"
        using gen_call_vs_wait_cases(1) [OF cw True] c len st'
        by (intro counters_call [OF cnt tot(1) more]) auto
      with c st' len keys tick show ?thesis by (simp add: loop_ok_def)
    qed (use len keys sh in simp_all)
  next
    case False
    then have "fuzz_wait R C tot (ticked st g) = Some (Continue st')"
      using ret fuzz_round_ticked [OF cw] by simp
    then show ?thesis
    proof (rule fuzz_wait_shape [OF R, where n = n])
      fix c g' resp w'
      assume c: "c < n" "fz_flying (ticked st g) ! c"
        and r: "Continue st' = (if resp = RStop then Break (ticked st g\<lparr>fz_rng := g', fz_world := w',
            fz_log := fz_log (ticked st g) @ [UnexpectedStop c (fz_timestamp (ticked st g))]\<rparr>)
          else harvested C tot c resp (ticked st g\<lparr>fz_rng := g', fz_world := w'\<rparr>))"
      then have "harvested C tot c resp (ticked st g\<lparr>fz_rng := g', fz_world := w'\<rparr>) = Continue st'"
        by (simp split: if_splits)
      from harvested_Continue [OF this tot(2)] have st': "fz_timestamp st' = fz_timestamp st + 1"
        "fz_called st' = fz_called st" "fz_waited st' = fz_waited st + 1"
        "fz_flying st' = (fz_flying st)[c := False]" "fz_memo st' = (fz_memo st)[c := (0, None)]"
        "fz_stats st' = fz_stats st" by auto
      moreover have "counters tot st'"
        using c len st' by (intro counters_wait [OF cnt tot(1) more]) auto
      ultimately show ?thesis using len keys sh tick by (simp add: loop_ok_def)
    qed (use len in simp_all)
  qed
qed

section \<open>Termination\<close>

text \<open>
  The loops that draw a client at random end for a generator that is fair: whatever its state, it
  eventually draws each number of the range.
\<close>

definition rng_next :: "'g rng_ops \<Rightarrow> nat \<Rightarrow> 'g \<Rightarrow> 'g" where
  "rng_next R n g = snd (random_range R g n)"

definition rng_fair :: "'g rng_ops \<Rightarrow> bool" where
  "rng_fair R \<longleftrightarrow> (\<forall>n g i. i < n \<longrightarrow> (\<exists>j. fst (random_range R ((rng_next R n ^^ j) g) n) = i))"

lemma gen_rand_client_returns:
  assumes R: "rng_ok R" "rng_fair R" and want: "want \<in> set flying"
  shows "gen_rand_client R flying want g \<noteq> None"
proof -
  let ?n = "length flying"
  from want obtain i where i: "i < ?n" "flying ! i = want" by (metis in_set_conv_nth)
  with R(2) obtain j where "fst (random_range R ((rng_next R ?n ^^ j) g) ?n) = i"
    unfolding rng_fair_def by blast
  then show ?thesis
  proof (induction j arbitrary: g)
    case 0
    then obtain g' where "random_range R g ?n = (i, g')" by (cases "random_range R g ?n") auto
    with i show ?case by (subst gen_rand_client.simps) (auto simp: gen_rand_index_def)
  next
    case (Suc j)
    obtain c g' where r: "random_range R g ?n = (c, g')" by fastforce
    then have "(rng_next R ?n ^^ Suc j) g = (rng_next R ?n ^^ j) g'"
      by (simp add: funpow_swap1 rng_next_def)
    with Suc.prems have "gen_rand_client R flying want g' \<noteq> None" by (intro Suc.IH) simp
    with r i show ?case by (subst gen_rand_client.simps) (auto simp: gen_rand_index_def)
  qed
qed

text \<open>A round draws from the clients of the state it needs, and there is one.\<close>

lemma round_client_exists:
  assumes ok: "loop_ok n keys tot st" and more: "fz_waited st < tot"
    and cw: "gen_call_vs_wait R (fz_called st) tot (fz_flying st) (fz_rng st) = (call, g)"
  shows "(\<not> call) \<in> set (fz_flying st)"
proof (cases call)
  case True
  then show ?thesis using gen_call_vs_wait_cases(1) [OF cw] by simp
next
  case False
  have n: "fz_flying st \<noteq> []" and cnt: "counters tot st" using ok by (auto simp: loop_ok_def)
  have "True \<in> set (fz_flying st)"
  proof (cases "fz_called st = tot")
    case True
    with cnt more show ?thesis
      by (simp add: counters_def word_less_nat_alt flip: count_list_pos)
  qed (use gen_call_vs_wait_cases(2) [OF cw False] n in blast)
  with False show ?thesis by simp
qed

lemma fuzz_round_returns:
  assumes R: "rng_ok R" "rng_fair R" and ok: "loop_ok n keys tot st" and more: "fz_waited st < tot"
  shows "fuzz_round R C keys tot st \<noteq> None"
proof -
  obtain call g where cw: "gen_call_vs_wait R (fz_called st) tot (fz_flying st) (fz_rng st) = (call, g)"
    by fastforce
  from gen_rand_client_returns [OF R round_client_exists [OF ok more cw]]
  have "gen_rand_client R (fz_flying st) (\<not> call) g \<noteq> None" .
  then show ?thesis
    by (cases call) (auto simp: fuzz_round_ticked [OF cw] fuzz_call_def fuzz_wait_def Let_def
        split: rust.splits sum.splits option.splits prod.splits)
qed

lemma fuzz_loop_returns:
  assumes R: "rng_ok R" "rng_fair R" and tot: "small tot" "tot div 100 \<noteq> 0" and ok: "loop_ok n keys tot st"
  shows "fuzz_loop R C keys tot st \<noteq> None"
  using ok
proof (induction "2 * unat tot - unat (fz_timestamp st)" arbitrary: st rule: less_induct)
  case less
  show ?case
  proof (cases "fz_waited st < tot")
    case True
    from fuzz_round_returns [OF R less.prems True] obtain r where
      r: "fuzz_round R C keys tot st = Some r" by blast
    show ?thesis
    proof (cases r)
      case (Continue st')
      with r round_loop_ok [OF R(1) less.prems tot True] have ok': "loop_ok n keys tot st'"
        and ts: "unat (fz_timestamp st') = Suc (unat (fz_timestamp st))" by auto
      have "unat (fz_timestamp st) < 2 * unat tot"
        using less.prems True
        by (simp add: loop_ok_def counters_def word_le_nat_alt word_less_nat_alt)
      then have "fuzz_loop R C keys tot st' \<noteq> None" using ts by (intro less.hyps ok') simp
      with True r Continue show ?thesis by (subst fuzz_loop.simps) simp
    qed (use True r in \<open>subst fuzz_loop.simps; simp\<close>)+
  next
    case False
    then show ?thesis by (subst fuzz_loop.simps) simp
  qed
qed

section \<open>The initial history\<close>

lemma fuzz_inv_init:
  assumes "0 < n"
  shows "fuzz_inv n (key_pool keys) 0 (replicate n (0, None)) (History_new n keys) lin_init"
proof -
  let ?h = "History_new n keys" and ?memo = "replicate n (0 :: u64, None :: (string \<times> string option) option)"
  have empty: "queue ?h = []" "maxtr ?h = replicate n 0" by (simp_all add: History_new_def)
  have idle: "\<not> outstanding lin_init c" for c by (simp add: outstanding_def lin_init_def)
  have "hist_wf n (key_pool keys) 0 ?h"
    unfolding hist_wf_def empty using History_new_distinct
    by (auto simp: History_new_lookup span_ok_def dummy_span_def simp del: map_of_eq_Some_iff split: if_splits)
  moreover have "memo_wf n (key_pool keys) 0 ?memo ?h lin_init"
    unfolding memo_wf_def using idle by (simp add: lin_init_def lin_wf_def)
  moreover have "store_supported n ?memo ?h lin_init"
    using assms unfolding store_supported_def
    by (auto simp: History_new_lookup exec_val_def in_flight_def lin_init_def dummy_span_def
        simp del: map_of_eq_Some_iff split: if_splits)
  ultimately show ?thesis
    unfolding fuzz_inv_def done_supported_def queue_supported_def empty by (simp add: lin_init_def)
qed

section \<open>No false alarm\<close>

lemma fuzz_inv_acknowledge:
  assumes inv: "fuzz_inv n pool t memo h s" and r: "ls_done s d = Some r" and t: "t < t'"
  shows "\<exists>h'. acknowledge d (fst (memo ! d)) t' r (snd (memo ! d)) h = Done (None, h')
    \<and> fuzz_inv n pool t' (memo[d := m]) h' (lin_respond d s)"
proof (cases "snd (memo ! d)")
  case None
  with fuzz_inv_respond_read [OF fuzz_inv_add_to_queue [OF inv r t] r] show ?thesis
    by (simp add: acknowledge_def)
next
  case (Some kv)
  then have "memo ! d = (fst (memo ! d), Some (fst kv, snd kv))" by (cases "memo ! d") simp
  from fuzz_inv_respond_update [OF fuzz_inv_add_to_queue [OF inv r t] r this] Some show ?thesis
    by (simp add: acknowledge_def case_prod_unfold)
qed

definition sound_inv :: "nat \<Rightarrow> string list list \<Rightarrow> usize \<Rightarrow> ('g, 'w) fuzz \<Rightarrow> lin_state \<Rightarrow> bool" where
  "sound_inv n keys tot st s \<longleftrightarrow>
     loop_ok n keys tot st
     \<and> fuzz_inv n (key_pool keys) (fz_timestamp st) (fz_memo st) (fz_history st) s
     \<and> (\<forall>c < n. fz_flying st ! c \<longleftrightarrow> outstanding s c)"

lemma resp_shape_not_stop: "resp_shape D r \<Longrightarrow> r \<noteq> RStop"
  by (cases r) auto

lemma fuzz_call_ok_mono: "fuzz_call_ok A call \<Longrightarrow> A \<subseteq> B \<Longrightarrow> fuzz_call_ok B call"
  by (cases call) auto

lemma invoke_outstanding: "outstanding (lin_invoke c call s) d \<longleftrightarrow> d = c \<or> outstanding s d"
  by (auto simp: outstanding_def lin_invoke_def)

context lin_env
begin

lemma call_sound:
  assumes R: "rng_ok R" and inv: "sound_inv n keys tot st (labs (fz_world st))" and w: "winv (fz_world st)"
    and pool: "key_pool keys \<subseteq> pool"
    and tot: "small tot" and more: "fz_waited st < tot"
    and ret: "fuzz_call R C keys (ticked st g) = Some r"
  shows "(\<exists>e st'. r = Fail e st') \<or> (\<exists>st'. r = Continue st' \<and> winv (fz_world st')
    \<and> fuzz_inv n (key_pool keys) (fz_timestamp st') (fz_memo st') (fz_history st') (labs (fz_world st'))
    \<and> (\<forall>c < n. fz_flying st' ! c \<longleftrightarrow> outstanding (labs (fz_world st')) c))"
proof -
  let ?s = "labs (fz_world st)"
  have ok: "loop_ok n keys tot st" and fi: "fuzz_inv n (key_pool keys) (fz_timestamp st) (fz_memo st) (fz_history st) ?s"
    and fly: "\<forall>c < n. fz_flying st ! c \<longleftrightarrow> outstanding ?s c" using inv unfolding sound_inv_def by blast+
  have len: "length (fz_flying st) = n" "length keys = n" using ok by (simp_all add: loop_ok_def)
  have tick: "fz_timestamp st < fz_timestamp st + 1"
    using counters_tick [OF _ tot more] ok by (simp add: loop_ok_def word_less_nat_alt)
  show ?thesis
  proof (rule fuzz_call_shape [OF R ret, where n = n])
    fix c call stats' g' w'
    assume c: "c < n" "\<not> fz_flying (ticked st g) ! c" "fuzz_call_ok (set (keys ! c)) call"
      and snd: "send_call_op C c call (fz_world (ticked st g)) = (Inr (), w')"
      and r: "r = Continue (ticked st g\<lparr>fz_memo := (fz_memo (ticked st g))
        [c := (fz_timestamp (ticked st g), update_info call)], fz_stats := stats', fz_rng := g', fz_world := w',
        fz_flying := (fz_flying (ticked st g))[c := True], fz_called := fz_called (ticked st g) + 1\<rparr>)"
    have call: "fuzz_call_ok (key_pool keys) call"
      using c(1,3) len(2) by (intro fuzz_call_ok_mono [OF c(3)]) (auto simp: key_pool_def dest: nth_mem)
    have idle: "\<not> outstanding ?s c" using c fly by simp
    obtain s where w': "winv w'" and s: "lin_steps ?s s" "lin_steps (lin_invoke c call s) (labs w')"
      using send_lin [OF w c(1) idle fuzz_call_ok_mono [OF call pool]] snd by fastforce
    have out: "outstanding s = outstanding ?s" "outstanding (labs w') = outstanding (lin_invoke c call s)"
      using s by (simp_all add: lin_steps_outstanding)
    have "fuzz_inv n (key_pool keys) (fz_timestamp st + 1)
      ((fz_memo st)[c := (fz_timestamp st + 1, update_info call)]) (fz_history st) (labs w')"
      using fuzz_inv_invoke [OF fuzz_inv_lin_steps [OF s(1) fi] c(1) _ call tick] idle out(1)
      by (intro fuzz_inv_lin_steps [OF s(2)]) simp
    then show ?thesis
      using r w' fly out c(1) len(1) by (auto simp: invoke_outstanding nth_list_update)
  qed (use ok in \<open>auto simp: loop_ok_def\<close>)
qed

lemma harvest_sound:
  assumes inv: "sound_inv n keys tot st (labs (fz_world st))" and w: "winv (fz_world st)"
    and tot: "small tot" "tot div 100 \<noteq> 0" and more: "fz_waited st < tot"
    and c: "c < n" "fz_flying st ! c" and got: "wait_resp_op C c RESP_TIMEOUT (fz_world st) = (Inr resp, w')"
    and st1_def: "st1 = ticked st g\<lparr>fz_rng := g', fz_world := w'\<rparr>"
  shows "resp \<noteq> RStop \<and> ((\<exists>e st'. harvested C tot c resp st1 = Fail e st') \<or>
    (\<exists>st'. harvested C tot c resp st1 = Continue st' \<and> winv (fz_world st')
    \<and> fuzz_inv n (key_pool keys) (fz_timestamp st') (fz_memo st') (fz_history st') (labs (fz_world st'))
    \<and> (\<forall>c < n. fz_flying st' ! c \<longleftrightarrow> outstanding (labs (fz_world st')) c)))"
proof -
  let ?s = "labs (fz_world st)" and ?m = "(0, None)"
  have ok: "loop_ok n keys tot st" and fi: "fuzz_inv n (key_pool keys) (fz_timestamp st) (fz_memo st) (fz_history st) ?s"
    and fly: "\<forall>c < n. fz_flying st ! c \<longleftrightarrow> outstanding ?s c" using inv unfolding sound_inv_def by blast+
  have len: "length (fz_flying st) = n" using ok by (simp add: loop_ok_def)
  have tick: "fz_timestamp st < fz_timestamp st + 1"
    using counters_tick [OF _ tot(1) more] ok by (simp add: loop_ok_def word_less_nat_alt)
  obtain s where w': "winv w'" and s: "lin_steps ?s s" "ls_done s c = Some resp" "lin_steps (lin_respond c s) (labs w')"
    using wait_lin [OF w c(1) _ got] c fly by blast
  have fs: "fuzz_inv n (key_pool keys) (fz_timestamp st) (fz_memo st) (fz_history st) s"
    by (rule fuzz_inv_lin_steps [OF s(1) fi])
  then have "lin_wf s" and "resp \<noteq> RStop"
    using s(2) done_supportedD(1) resp_shape_not_stop memo_wfD(2) unfolding fuzz_inv_def by blast+
  obtain h' where ack: "acknowledge c (fst (fz_memo st ! c)) (fz_timestamp st + 1) resp (snd (fz_memo st ! c))
      (fz_history st) = Done (None, h')"
    and "fuzz_inv n (key_pool keys) (fz_timestamp st + 1) ((fz_memo st)[c := ?m]) h' (lin_respond c s)"
    using fuzz_inv_acknowledge [OF fs s(2) tick] by blast
  then have fi': "fuzz_inv n (key_pool keys) (fz_timestamp st + 1) ((fz_memo st)[c := ?m]) h' (labs w')"
    by (blast intro: fuzz_inv_lin_steps [OF s(3)])
  have "outstanding (labs w') d \<longleftrightarrow> d \<noteq> c \<and> outstanding ?s d" for d
    using respond_outstanding [OF \<open>lin_wf s\<close> s(2)] lin_steps_outstanding [OF s(1)] lin_steps_outstanding [OF s(3)] by simp
  then have fly': "\<forall>d < n. (fz_flying st)[c := False] ! d \<longleftrightarrow> outstanding (labs w') d"
    using fly len c(1) by (metis nth_list_update_eq nth_list_update_neq)
  define st2 where "st2 = st1\<lparr>fz_memo := (fz_memo st)[c := ?m], fz_history := h',
    fz_flying := (fz_flying st)[c := False], fz_waited := fz_waited st + 1\<rparr>"
  have eq: "harvested C tot c resp st1 = fuzz_progress C tot st2"
    using ack by (simp add: harvested_def st1_def st2_def case_prod_unfold)
  consider (error) "\<exists>e st'. fuzz_progress C tot st2 = Fail e st'" | (quiet) "fuzz_progress C tot st2 = Continue st2"
    | (flush) w'' where "flush_op C (fz_world st2) = (Inr (), w'')"
      "fuzz_progress C tot st2 = Continue (st2\<lparr>fz_world := w'', fz_log := fz_log st2 @ [Progress (fz_called st2) (fz_waited st2)]\<rparr>)"
    using fuzz_progress_shape [OF tot(2), of C st2] by blast
  then show ?thesis
  proof cases
    case quiet
    with eq fi' fly' w' \<open>resp \<noteq> RStop\<close> show ?thesis by (simp add: st2_def st1_def)
  next
    case (flush w'')
    then have "winv w''" and fl: "lin_steps (labs w') (labs w'')"
      using flush_lin [OF w'] by (simp_all add: st2_def st1_def)
    with flush eq \<open>resp \<noteq> RStop\<close> fuzz_inv_lin_steps [OF fl fi'] fly' lin_steps_outstanding [OF fl]
    show ?thesis by (simp add: st2_def st1_def)
  qed (use eq \<open>resp \<noteq> RStop\<close> in simp)
qed

lemma round_sound:
  assumes R: "rng_ok R" and inv: "sound_inv n keys tot st (labs (fz_world st))" and w: "winv (fz_world st)"
    and pool: "key_pool keys \<subseteq> pool" and tot: "small tot" "tot div 100 \<noteq> 0" and more: "fz_waited st < tot"
    and ret: "fuzz_round R C keys tot st = Some r"
  shows "(\<exists>e st'. r = Fail e st') \<or>
    (\<exists>st'. r = Continue st' \<and> winv (fz_world st') \<and> sound_inv n keys tot st' (labs (fz_world st')))"
proof -
  have ok: "loop_ok n keys tot st" using inv unfolding sound_inv_def by blast
  obtain call g where cw: "gen_call_vs_wait R (fz_called st) tot (fz_flying st) (fz_rng st) = (call, g)"
    by fastforce
  have "(\<exists>e st'. r = Fail e st') \<or> (\<exists>st'. r = Continue st' \<and> winv (fz_world st')
    \<and> fuzz_inv n (key_pool keys) (fz_timestamp st') (fz_memo st') (fz_history st') (labs (fz_world st'))
    \<and> (\<forall>c < n. fz_flying st' ! c \<longleftrightarrow> outstanding (labs (fz_world st')) c))"
  proof (cases call)
    case True
    with ret fuzz_round_ticked [OF cw] have "fuzz_call R C keys (ticked st g) = Some r" by simp
    then show ?thesis by (rule call_sound [OF R inv w pool tot(1) more])
  next
    case False
    with ret fuzz_round_ticked [OF cw] have "fuzz_wait R C tot (ticked st g) = Some r" by simp
    then show ?thesis
    proof (rule fuzz_wait_shape [OF R, where n = n])
      fix c g' resp w'
      assume got: "c < n" "fz_flying (ticked st g) ! c"
          "wait_resp_op C c RESP_TIMEOUT (fz_world (ticked st g)) = (Inr resp, w')"
        and r: "r = (if resp = RStop then Break (ticked st g\<lparr>fz_rng := g', fz_world := w',
            fz_log := fz_log (ticked st g) @ [UnexpectedStop c (fz_timestamp (ticked st g))]\<rparr>)
          else harvested C tot c resp (ticked st g\<lparr>fz_rng := g', fz_world := w'\<rparr>))"
      with harvest_sound [OF inv w tot more _ _ _ refl, of c resp w' g' g] show ?thesis by simp
    qed (use ok in \<open>simp_all add: loop_ok_def\<close>)
  qed
  with round_loop_ok [OF R ok tot more] ret show ?thesis unfolding sound_inv_def by blast
qed

lemma loop_sound:
  assumes R: "rng_ok R" and inv: "sound_inv n keys tot st (labs (fz_world st))" and w: "winv (fz_world st)"
    and pool: "key_pool keys \<subseteq> pool" and tot: "small tot" "tot div 100 \<noteq> 0"
    and ret: "fuzz_loop R C keys tot st = Some r"
  shows "(\<exists>e st'. r = Fail e st') \<or>
    (\<exists>st'. r = Continue st' \<and> winv (fz_world st') \<and> sound_inv n keys tot st' (labs (fz_world st'))
       \<and> \<not> fz_waited st' < tot)"
  using inv w ret
proof (induction "2 * unat tot - unat (fz_timestamp st)" arbitrary: st rule: less_induct)
  case less
  show ?case
  proof (cases "fz_waited st < tot")
    case True
    with less.prems(3) obtain r1 where r1: "fuzz_round R C keys tot st = Some r1"
      by (subst (asm) fuzz_loop.simps) (auto split: option.splits)
    from round_sound [OF R less.prems(1,2) pool tot True r1] show ?thesis
    proof (elim disjE exE conjE)
      fix e st' assume "r1 = Fail e st'"
      with True r1 less.prems(3) show ?thesis by (subst (asm) fuzz_loop.simps) auto
    next
      fix st' assume st': "r1 = Continue st'" "winv (fz_world st')"
        "sound_inv n keys tot st' (labs (fz_world st'))"
      have ok: "loop_ok n keys tot st" using less.prems(1) unfolding sound_inv_def by blast
      have "unat (fz_timestamp st) < 2 * unat tot"
        using ok True by (simp add: loop_ok_def counters_def word_le_nat_alt word_less_nat_alt)
      moreover have "unat (fz_timestamp st') = Suc (unat (fz_timestamp st))"
        using round_loop_ok [OF R ok tot True] r1 st'(1) by blast
      moreover have "fuzz_loop R C keys tot st' = Some r"
        using less.prems(3) True r1 st'(1) by (subst (asm) fuzz_loop.simps) simp
      ultimately show ?thesis using st' by (intro less.hyps) simp_all
    qed
  next
    case False
    with less.prems show ?thesis by (subst (asm) fuzz_loop.simps) auto
  qed
qed

end

section \<open>The test starts in a good state\<close>

text \<open>The arguments and keys of a run: what \<open>main\<close> asserts and generates.\<close>

definition run_ok :: "Args \<Rightarrow> string list list \<Rightarrow> bool" where
  "run_ok args keys \<longleftrightarrow>
     args_ok args \<and> length keys = unat (num_clis args) \<and> [] \<notin> set keys
     \<and> 2 * (unat (num_ops args) * unat (num_clis args)) < 2 ^ 64"

lemma run_ok_total:
  assumes "run_ok args keys"
  shows "small (num_ops args * num_clis args)" and "(num_ops args * num_clis args) div 100 \<noteq> 0"
    and "0 < length keys"
proof -
  let ?p = "unat (num_ops args) * unat (num_clis args)"
  have le: "2 * ?p < 2 ^ 64" and a: "num_clis args \<noteq> 0" "num_ops args \<ge> 1000" "length keys = unat (num_clis args)"
    using assms by (simp_all add: run_ok_def args_ok_def)
  have eq: "unat (num_ops args * num_clis args) = ?p"
    by (rule unat_mult_lem [THEN iffD1]) (use le in \<open>simp add: mult.commute\<close>)
  show "small (num_ops args * num_clis args)" using le eq by (simp add: small_def)
  show "0 < length keys" using a by (simp add: unat_gt_0)
  have "1000 \<le> unat (num_ops args)" "1 \<le> unat (num_clis args)"
    using a by (simp_all add: word_le_nat_alt unat_gt_0 Suc_le_eq)
  then have "1000 * 1 \<le> ?p" by (rule mult_le_mono)
  then have "unat ((num_ops args * num_clis args) div 100) \<noteq> 0"
    by (simp add: unat_div eq)
  then show "(num_ops args * num_clis args) div 100 \<noteq> 0" by (metis unat_0)
qed

lemma Stats_new_shape: "stats_shape keys (Stats_new keys)"
  by (simp add: stats_shape_def Stats_new_def comp_def)

lemma fuzz_init_ok:
  assumes "run_ok args keys"
  shows "loop_ok (length keys) keys tot (fuzz_init (length keys) keys (Stats_new keys) g w)"
proof -
  have "count_list (replicate m False) True = 0" for m by (induction m) auto
  then show ?thesis
    using assms run_ok_total(3) [OF assms] Stats_new_shape
    by (simp add: loop_ok_def counters_def fuzz_init_def run_ok_def)
qed

lemma fuzz_init_sound:
  assumes "run_ok args keys"
  shows "sound_inv (length keys) keys tot (fuzz_init (length keys) keys (Stats_new keys) g w) lin_init"
  using fuzz_init_ok [OF assms] fuzz_inv_init [OF run_ok_total(3) [OF assms]]
  by (simp add: sound_inv_def fuzz_init_def outstanding_def lin_init_def)

text \<open>In every world that is linearizable, the test does not fail and does not panic.\<close>

context lin_env
begin

lemma test_sound:
  assumes R: "rng_ok R" and run: "run_ok args keys" and pool: "key_pool keys \<subseteq> pool" and n: "n = length keys"
    and w: "winv w" "labs w = lin_init"
    and ret: "fuzz_test R C args keys (Stats_new keys) n g w = Some res"
  shows "\<exists>e st. res = Done (Inl e, st) \<or> (\<exists>k. res = Done (Inr (Some k), st))"
proof -
  let ?tot = "num_ops args * num_clis args" and ?st = "fuzz_init n keys (Stats_new keys) g w"
  have "sound_inv n keys ?tot ?st (labs (fz_world ?st))"
    using fuzz_init_sound [OF run] w(2) n by (simp add: fuzz_init_def)
  moreover obtain r where r: "fuzz_loop R C keys ?tot ?st = Some r"
    using ret by (auto simp: fuzz_test_def Let_def split: option.splits)
  ultimately have "(\<exists>e st'. r = Fail e st') \<or> (\<exists>st'. r = Continue st')"
    using loop_sound [OF R _ _ pool run_ok_total(1,2) [OF run] r] w(1) by (auto simp: fuzz_init_def)
  with ret r show ?thesis
    by (auto simp: fuzz_test_def Let_def split: prod.splits sum.splits)
qed

end

lemma fuzz_test_returns:
  assumes "rng_ok R" "rng_fair R" and "run_ok args keys"
  shows "fuzz_test R C args keys (Stats_new keys) (length keys) g w \<noteq> None"
  using fuzz_loop_returns [OF assms(1,2) run_ok_total(1,2) [OF assms(3)] fuzz_init_ok [OF assms(3)], of C g w]
  by (auto simp: fuzz_test_def Let_def split: round.splits prod.splits sum.splits)

section \<open>Properties\<close>

lemma round_robin_fair: "rng_fair round_robin"
  unfolding rng_fair_def
proof (intro allI impI)
  fix n g i :: nat assume i: "i < n"
  have next_: "(rng_next round_robin n ^^ j) g = g + j" for j
    by (induction j) (simp_all add: rng_next_def round_robin_def)
  let ?j = "n * g + i - g"
  have "g \<le> n * g + i" using i by (cases n) auto
  then have "(g + ?j) mod n = i" using i by simp
  then show "\<exists>j. fst (random_range round_robin ((rng_next round_robin n ^^ j) g) n) = i"
    unfolding next_ by (auto simp: round_robin_def)
qed

text \<open>Picking a random client ends, with a client in the wanted state, whenever there is one and the
  generator is fair.\<close>

lemma random_client_found:
  assumes "rng_ok R" and "rng_fair R" and "want \<in> set flying"
  shows "\<exists>c g'. gen_rand_client R flying want g = Some (Done (c, g')) \<and> c < length flying \<and> flying ! c = want"
proof -
  obtain r where r: "gen_rand_client R flying want g = Some r"
    using gen_rand_client_returns [OF assms] by blast
  from gen_rand_client_sound [OF assms(1) r] assms(3) r show ?thesis by auto
qed

text \<open>C6: the fuzz test ends, whatever the clients do: with a fair generator it returns, fails or
  panics after at most two rounds per operation.\<close>

theorem fuzz_test_terminates:
  assumes "rng_ok R" and "rng_fair R" and "run_ok args keys"
  shows "\<exists>res. fuzz_test R C args keys (Stats_new keys) (length keys) g w = Some res"
  using fuzz_test_returns [OF assms, of C g w] by auto

theorem fuzz_test_terminates_witness:
  "\<exists>res. fuzz_test round_robin \<lparr>send_call_op = (\<lambda>c call w. (Inr (), w)),
      wait_resp_op = (\<lambda>c t w. (Inr (RGet ''a'' None), w)), stop_op = (\<lambda>c w. (Inr (), w)),
      flush_op = (\<lambda>w. (Inr (), w))\<rparr> \<lparr>num_clis = 2, num_keys = 1, num_ops = 1000, conflict = True\<rparr>
      [[''a''], [''a'']] (Stats_new [[''a''], [''a'']]) 2 0 () = Some res"
proof -
  have "run_ok \<lparr>num_clis = 2, num_keys = 1, num_ops = 1000, conflict = True\<rparr> [[''a''], [''a'']]"
    by (simp add: run_ok_def args_ok_def)
  from fuzz_test_terminates [OF round_robin_ok round_robin_fair this] show ?thesis
    by (simp add: numeral_2_eq_2)
qed

text \<open>C7: the bookkeeping of the loop is exact: after every round the timestamp is the number of calls
  plus the number of responses and has not wrapped around, the clients marked as flying are as many as
  the calls without a response, and no more calls were made than asked for.\<close>

theorem loop_bookkeeping:
  assumes "rng_ok R" and "loop_ok n keys tot st" and "small tot" and "tot div 100 \<noteq> 0"
    and "fz_waited st < tot" and "fuzz_round R C keys tot st = Some (Continue st')"
  shows "unat (fz_timestamp st') = Suc (unat (fz_timestamp st))
    \<and> unat (fz_timestamp st') = unat (fz_called st') + unat (fz_waited st')
    \<and> unat (fz_called st') = unat (fz_waited st') + count_list (fz_flying st') True
    \<and> fz_called st' \<le> tot \<and> loop_ok n keys tot st'"
  using round_loop_ok [OF assms] by (simp add: loop_ok_def counters_def)

text \<open>A client that answers every call alike, and the first round of a test with it.\<close>

definition echo_client :: "unit client_ops" where
  "echo_client = \<lparr>send_call_op = (\<lambda>c call w. (Inr (), w)), wait_resp_op = (\<lambda>c t w. (Inr (RGet ''a'' None), w)),
     stop_op = (\<lambda>c w. (Inr (), w)), flush_op = (\<lambda>w. (Inr (), w))\<rparr>"

definition echo_start :: "(nat, unit) fuzz" where
  "echo_start = fuzz_init 1 [[''a'']] (Stats_new [[''a'']]) 0 ()"

lemma echo_run_ok: "run_ok \<lparr>num_clis = 1, num_keys = 1, num_ops = 1000, conflict = True\<rparr> [[''a'']]"
  by (simp add: run_ok_def args_ok_def)

lemma echo_first_round:
  "\<exists>st'. fuzz_round round_robin echo_client [[''a'']] 1000 echo_start = Some (Continue st') \<and> fz_flying st' = [True]
     \<and> fz_waited st' = 0 \<and> fz_timestamp st' = 1"
proof -
  have client: "gen_rand_client round_robin [False] False 0 = Some (Done (0, 1))"
    by (subst gen_rand_client.simps) (simp add: gen_rand_index_def round_robin_def)
  then show ?thesis
    by (auto simp: echo_start_def echo_client_def fuzz_round_def fuzz_init_def gen_call_vs_wait_def fuzz_call_def
        Let_def gen_rand_kvcall_def gen_rand_index_def draw_key_def bump_freq_def round_robin_def Stats_new_def
        gen_rand_string_def)
qed

theorem loop_bookkeeping_witness:
  "\<exists>st'. fuzz_round round_robin echo_client [[''a'']] 1000 echo_start = Some (Continue st')
    \<and> unat (fz_timestamp st') = 1 \<and> loop_ok 1 [[''a'']] 1000 st'"
proof -
  from fuzz_init_ok [OF echo_run_ok, of 1000 "0 :: nat" "()"] have ok: "loop_ok 1 [[''a'']] 1000 echo_start"
    by (simp add: echo_start_def)
  obtain st' where r: "fuzz_round round_robin echo_client [[''a'']] 1000 echo_start = Some (Continue st')"
    using echo_first_round by blast
  from loop_bookkeeping [OF round_robin_ok ok _ _ _ r] r show ?thesis
    by (auto simp: small_def echo_start_def fuzz_init_def)
qed

text \<open>C3: acknowledging a response of a linearizable object never reports a violation and never panics,
  and keeps the invariant that ties the histories to the object.\<close>

theorem acknowledge_sound:
  assumes "fuzz_inv n pool t memo h s" and "ls_done s d = Some r" and "t < t'"
  shows "\<exists>h'. acknowledge d (fst (memo ! d)) t' r (snd (memo ! d)) h = Done (None, h')
    \<and> fuzz_inv n pool t' (memo[d := (0, None)]) h' (lin_respond d s)"
  using fuzz_inv_acknowledge [OF assms] .

theorem acknowledge_sound_witness:
  "\<exists>h'. acknowledge 0 1 2 (RPut ''k'' False) (Some (''k'', Some (replicate 16 CHR ''x''))) (History_new 1 [[''k'']])
     = Done (None, h')"
proof -
  let ?v = "replicate 16 CHR ''x''" and ?h = "History_new 1 [[''k'']]"
  let ?s = "lin_init\<lparr>ls_store := [''k'' \<mapsto> ?v], ls_done := [0 \<mapsto> RPut ''k'' False]\<rparr>"
  let ?i = "lin_invoke 0 (CPut ''k'' ?v) lin_init"
  have ok: "fuzz_call_ok (key_pool [[''k'']]) (CPut ''k'' ?v)"
    by (simp add: key_pool_def value_gen_def VALUE_LEN_def is_alphanumeric_def list_all_iff)
  have "fuzz_inv 1 (key_pool [[''k'']]) 0 (replicate 1 (0, None)) ?h lin_init" by (rule fuzz_inv_init) simp
  from fuzz_inv_invoke [OF this _ _ ok, of 0 1]
  have inv: "fuzz_inv 1 (key_pool [[''k'']]) 1 [(1, Some (''k'', Some ?v))] ?h ?i"
    by (simp add: outstanding_def lin_init_def)
  have "lin_step ?i (?i\<lparr>ls_store := kv_apply (CPut ''k'' ?v) (ls_store ?i), ls_pend := (ls_pend ?i)(0 := None),
      ls_done := (ls_done ?i)(0 \<mapsto> RPut ''k'' False)\<rparr>)"
    by (rule take_effect) (simp_all add: lin_invoke_def lin_init_def)
  then have "lin_step ?i ?s" by (simp add: lin_invoke_def lin_init_def)
  from acknowledge_sound [OF fuzz_inv_lin_step [OF this inv], of 0 "RPut ''k'' False" 2] show ?thesis
    by auto
qed

end
