(* ===== verification/System.thy ===== *)
theory System
  imports Proc KvServer Fuzz_Loop
begin

text \<open>
  The world the fuzzer runs in when it tests the key-value store of this repository: client process
  wrappers with their driver threads (\<open>Proc\<close>), the C++ clients behind them, and the server
  (\<open>KvServer\<close>).  A schedule decides in which order the threads and processes move and which remote
  calls fail; every operation of the fuzzer on a client first lets the world run one batch of events.
  The operations of the fuzzer on this world satisfy \<open>lin_env\<close>.
\<close>

section \<open>The state and its events\<close>

text \<open>
  Where a C++ client stands: at \<open>getline\<close>, inside a remote call that is not served yet, inside a
  remote call that is served, back at \<open>getline\<close> after a remote call that failed (and that the server may
  have handled, or may handle later), or gone.
\<close>

datatype client =
    AtLine
  | Calling rpc_req
  | Replied rpc_req rpc_res
  | Lost rpc_req "rpc_res option"
  | Gone

datatype event = Drive nat | ClientMove nat | Serve nat | RpcFail nat

record world =
  wd_store :: ordmap
  wd_up :: bool
  wd_procs :: "(ClientProc \<times> client) list"
  wd_stdout :: "string option"
  wd_sched :: "event list list"

text \<open>\<open>getline\<close>: the next complete line in the pipe.\<close>

definition getline :: "string \<Rightarrow> (string \<times> string) option" where
  "getline pipe =
     (case dropWhile (\<lambda>c. c \<noteq> newline) pipe of
        [] \<Rightarrow> None
      | _ # rest \<Rightarrow> Some (takeWhile (\<lambda>c. c \<noteq> newline) pipe, rest))"

definition print :: "string \<Rightarrow> ClientProc \<Rightarrow> ClientProc" where
  "print s p = p\<lparr>cp_stdout := (cp_stdout p)\<lparr>rd_input := rd_input (cp_stdout p) @ s\<rparr>\<rparr>"

text \<open>The main loop of the client, from one blocking point to the next.\<close>

definition client_read :: "ClientProc \<Rightarrow> client \<Rightarrow> ClientProc \<times> client" where
  "client_read p cl =
     (case getline (wr_text (cp_stdin p)) of
        None \<Rightarrow> (p, cl)
      | Some (line, rest) \<Rightarrow>
          (let p' = p\<lparr>cp_stdin := (cp_stdin p)\<lparr>wr_text := rest\<rparr>\<rparr>
           in case client_line line of
                Rpc req \<Rightarrow> (p', Calling req)
              | Quit \<Rightarrow> (print (''STOP'' @ [newline]) p', Gone)
              | Ignore \<Rightarrow> (p', cl)))"

fun client_move :: "ClientProc \<times> client \<Rightarrow> ClientProc \<times> client" where
  "client_move (p, AtLine) = client_read p AtLine"
| "client_move (p, Lost req res) = client_read p (Lost req res)"
| "client_move (p, Replied req res) = (print (client_print req res) p, AtLine)"
| "client_move (p, Calling req) = (p, Calling req)"
| "client_move (p, Gone) = (p, Gone)"

fun rpc_fail :: "client \<Rightarrow> client" where
  "rpc_fail (Calling req) = Lost req None"
| "rpc_fail (Replied req res) = Lost req (Some res)"
| "rpc_fail cl = cl"

definition set_proc :: "nat \<Rightarrow> ClientProc \<times> client \<Rightarrow> world \<Rightarrow> world" where
  "set_proc c pc w = w\<lparr>wd_procs := (wd_procs w)[c := pc]\<rparr>"

text \<open>
  The request of a client that the server has not handled yet, and what its reply makes of the client.
  A request whose call failed at the client can still reach the server; its reply is dropped.  There is at
  most one request per client, since the driver writes no line before the last one is answered.
\<close>

fun awaiting :: "client \<Rightarrow> (rpc_req \<times> (rpc_res \<Rightarrow> client)) option" where
  "awaiting (Calling req) = Some (req, Replied req)"
| "awaiting (Lost req None) = Some (req, \<lambda>res. Lost req (Some res))"
| "awaiting _ = None"

definition serve :: "nat \<Rightarrow> world \<Rightarrow> world" where
  "serve c w =
     (case wd_procs w ! c of (p, cl) \<Rightarrow>
        case awaiting cl of
          None \<Rightarrow> w
        | Some (req, reply) \<Rightarrow>
            if \<not> wd_up w then w
            else (case KvStoreService req (wd_store w) of
                    Panic e \<Rightarrow> w\<lparr>wd_up := False\<rparr>
                  | Done (res, store') \<Rightarrow> (set_proc c (p, reply res) w)\<lparr>wd_store := store'\<rparr>))"

definition run_event :: "event \<Rightarrow> world \<Rightarrow> world" where
  "run_event ev w =
     (case ev of
        Drive c \<Rightarrow>
          if c < length (wd_procs w)
          then set_proc c (map_prod driver_thread id (wd_procs w ! c)) w else w
      | ClientMove c \<Rightarrow>
          if c < length (wd_procs w) then set_proc c (client_move (wd_procs w ! c)) w else w
      | Serve c \<Rightarrow> if c < length (wd_procs w) then serve c w else w
      | RpcFail c \<Rightarrow>
          if c < length (wd_procs w)
          then set_proc c (map_prod id rpc_fail (wd_procs w ! c)) w else w)"

definition run_batch :: "world \<Rightarrow> world" where
  "run_batch w =
     (case wd_sched w of
        [] \<Rightarrow> w
      | evs # sched \<Rightarrow> (fold run_event evs w)\<lparr>wd_sched := sched\<rparr>)"

section \<open>The operations of the fuzzer\<close>

definition on_proc ::
  "(ClientProc \<Rightarrow> (RunnerError + 'a) \<times> ClientProc) \<Rightarrow> nat \<Rightarrow> world \<Rightarrow> (RunnerError + 'a) \<times> world" where
  "on_proc f c w =
     (let (p, cl) = wd_procs w ! c; (res, p') = f p in (res, set_proc c (p', cl) w))"

definition world_send :: "nat \<Rightarrow> KvCall \<Rightarrow> world \<Rightarrow> (RunnerError + unit) \<times> world" where
  "world_send c call w = on_proc (send_call call) c (run_batch w)"

definition world_wait :: "nat \<Rightarrow> nat \<Rightarrow> world \<Rightarrow> (RunnerError + KvResp) \<times> world" where
  "world_wait c timeout w = on_proc wait_resp c (run_batch w)"

definition world_stop :: "nat \<Rightarrow> world \<Rightarrow> (RunnerError + unit) \<times> world" where
  "world_stop c w =
     (case world_send c CStop w of
        (Inl e, w') \<Rightarrow> (Inl e, w')
      | (Inr _, w') \<Rightarrow> on_proc stop_end c (run_batch w'))"

definition world_flush :: "world \<Rightarrow> (RunnerError + unit) \<times> world" where
  "world_flush w =
     (case wd_stdout w of
        None \<Rightarrow> (Inr (), run_batch w)
      | Some e \<Rightarrow> (Inl (impl_from (IoError e)), run_batch w))"

definition world_ops :: "world client_ops" where
  "world_ops = \<lparr>send_call_op = world_send, wait_resp_op = world_wait, stop_op = world_stop,
                flush_op = world_flush\<rparr>"

text \<open>A world with a running server and no clients; starting a client process in it.\<close>

definition world_boot :: "event list list \<Rightarrow> world" where
  "world_boot sched =
     \<lparr>wd_store = om_empty, wd_up = True, wd_procs = [], wd_stdout = None, wd_sched = sched\<rparr>"

definition world_spawn ::
  "(string list \<Rightarrow> string + child) \<Rightarrow> string list \<Rightarrow> world \<Rightarrow> (RunnerError + unit) \<times> world" where
  "world_spawn spawn just_args w =
     (case ClientProc_new spawn just_args of
        Inl e \<Rightarrow> (Inl e, w)
      | Inr p \<Rightarrow> (Inr (), w\<lparr>wd_procs := wd_procs w @ [(p, AtLine)]\<rparr>))"

section \<open>The abstract state\<close>

fun call_of :: "rpc_req \<Rightarrow> KvCall" where
  "call_of (PutRequest k v) = CPut k v"
| "call_of (SwapRequest k v) = CSwap k v"
| "call_of (GetRequest k) = CGet k"
| "call_of (ScanRequest a b) = CScan a b"
| "call_of (DeleteRequest k) = CDelete k"

fun pend_of :: "ClientProc \<times> client \<Rightarrow> KvCall option" where
  "pend_of (p, Calling req) = Some (call_of req)"
| "pend_of (p, Lost req None) = Some (call_of req)"
| "pend_of (p, AtLine) =
     (case cp_calls p of
        call # _ \<Rightarrow> Some call
      | [] \<Rightarrow> (case getline (wr_text (cp_stdin p)) of
                  None \<Rightarrow> None
                | Some (line, _) \<Rightarrow> (case client_line line of Rpc req \<Rightarrow> Some (call_of req) | _ \<Rightarrow> None)))"
| "pend_of _ = None"

fun done_of :: "ClientProc \<times> client \<Rightarrow> KvResp option" where
  "done_of (p, Replied req res) = Some (resp_of req res)"
| "done_of (p, Lost req (Some res)) = Some (resp_of req res)"
| "done_of (p, AtLine) =
     (case cp_resps p of
        r # _ \<Rightarrow> Some r
      | [] \<Rightarrow> if rd_input (cp_stdout p) = [] then None
              else (case from_read (cp_stdout p) of Some (Inr (r, _)) \<Rightarrow> Some r | _ \<Rightarrow> None))"
| "done_of _ = None"

definition world_abs :: "world \<Rightarrow> lin_state" where
  "world_abs w =
     \<lparr>ls_store = om_get (wd_store w),
      ls_pend = (\<lambda>c. if c < length (wd_procs w) then pend_of (wd_procs w ! c) else None),
      ls_done = (\<lambda>c. if c < length (wd_procs w) then done_of (wd_procs w ! c) else None)\<rparr>"

section \<open>Lines between the driver and the client\<close>

lemma is_space_whitespace: "is_space c \<Longrightarrow> is_whitespace c"
  by (auto simp: is_space_def is_whitespace_def)

lemma token_not_space: "is_token w \<Longrightarrow> c \<in> set w \<Longrightarrow> \<not> is_space c"
  using is_space_whitespace by (auto simp: is_token_def list_all_iff)

lemma is_space_simps [simp]: "is_space CHR '' ''" "is_space newline"
  by (simp_all add: is_space_def newline_def)

lemma next_word_space [simp]: "is_space c \<Longrightarrow> next_word (c # s) = next_word s"
  by (simp add: next_word_def)

lemma next_word_token [simp]:
  assumes "is_token w"
  shows "next_word (w @ CHR '' '' # s) = (w, CHR '' '' # s)" and "next_word w = (w, [])"
proof -
  have ns: "\<forall>c \<in> set w. \<not> is_space c" using token_not_space [OF assms] by blast
  have "dropWhile is_space (w @ t) = w @ t" for t
    using assms ns by (cases w) (auto simp: is_token_def)
  from this [of "CHR '' '' # s"] this [of "[]"] ns
  show "next_word (w @ CHR '' '' # s) = (w, CHR '' '' # s)" and "next_word w = (w, [])"
    by (simp_all add: next_word_def takeWhile_eq_all_conv dropWhile_eq_Nil_conv
        takeWhile_append2 dropWhile_append2)
qed

lemma getline_line: "newline \<notin> set l \<Longrightarrow> getline (l @ newline # rest) = Some (l, rest)"
  unfolding getline_def by (induction l) (auto split: list.splits)

lemma getline_Nil [simp]: "getline [] = None"
  by (simp add: getline_def)

lemma client_line_words:
  assumes "call_wf call" and "req_of call = Some req"
  shows "client_line (unwords (call_words call)) = Rpc req"
proof -
  have words: "next_word (unwords (w # w' # ws)) = (w, CHR '' '' # unwords (w' # ws))"
    if "is_token w" for w w' ws using that by simp
  show ?thesis
    using assms by (cases call) (auto simp: client_line_def words simp del: unwords.simps(3))
qed

lemma getline_call:
  assumes "call_wf call" and "req_of call = Some req"
  shows "\<exists>l. getline (call_line call) = Some (l, []) \<and> client_line l = Rpc req"
  using getline_line [OF unwords_line(1) [OF call_words_tokens [OF assms(1)]], of "[]"]
    client_line_words [OF assms] by (simp add: call_line_words)

lemma call_of_req: "req_of call = Some req \<Longrightarrow> call_of req = call"
  by (cases call) auto

lemma req_of_call: "req_of (call_of req) = Some req"
  by (cases req) auto

text \<open>What the client prints is the text the fuzzer reads the response from.\<close>

lemma client_print_text: "resp_of req res \<noteq> RStop \<Longrightarrow> client_print req res = resp_text (resp_of req res)"
  by (cases req; cases res)
    (auto simp: found_word_def value_word_def entry_line_def case_prod_unfold)

section \<open>Calls and stores of a run\<close>

definition tokens :: "string set \<Rightarrow> bool" where
  "tokens pool \<longleftrightarrow> (\<forall>k \<in> pool. is_token k)"

text \<open>
  The calls the system is made for: keys of the pool, values that survive the line format and cannot be
  taken for an absent value or the end of a scan, scans with ordered bounds.
\<close>

definition value_plain :: "string \<Rightarrow> bool" where
  "value_plain v \<longleftrightarrow> is_token v \<and> v \<noteq> ''null'' \<and> v \<noteq> ''END''"

fun sys_call_ok :: "string set \<Rightarrow> KvCall \<Rightarrow> bool" where
  "sys_call_ok pool (CPut k v) \<longleftrightarrow> k \<in> pool \<and> value_plain v"
| "sys_call_ok pool (CSwap k v) \<longleftrightarrow> k \<in> pool \<and> value_plain v"
| "sys_call_ok pool (CGet k) \<longleftrightarrow> k \<in> pool"
| "sys_call_ok pool (CScan a b) \<longleftrightarrow> a \<in> pool \<and> b \<in> pool \<and> a \<le> b"
| "sys_call_ok pool (CDelete k) \<longleftrightarrow> k \<in> pool"
| "sys_call_ok pool CStop \<longleftrightarrow> False"

definition store_ok :: "string set \<Rightarrow> ordmap \<Rightarrow> bool" where
  "store_ok pool m \<longleftrightarrow> om_inv m \<and> (\<forall>k v. om_get m k = Some v \<longrightarrow> k \<in> pool \<and> value_plain v)"

lemma fuzz_call_sys: "fuzz_call_ok pool call \<Longrightarrow> sys_call_ok pool call"
proof -
  have "is_alphanumeric c \<Longrightarrow> \<not> is_whitespace c" for c
    by (auto simp: is_alphanumeric_def is_whitespace_def Let_def)
  then have "value_gen v \<Longrightarrow> value_plain v" for v
    by (auto simp: value_gen_def value_plain_def VALUE_LEN_def is_token_def list_all_iff)
  then show "fuzz_call_ok pool call \<Longrightarrow> sys_call_ok pool call" by (cases call) auto
qed

lemma sys_call_wf: "tokens pool \<Longrightarrow> sys_call_ok pool call \<Longrightarrow> call_wf call"
  by (cases call) (auto simp: tokens_def value_plain_def)

lemma sys_call_ordered: "sys_call_ok pool call \<Longrightarrow> call_ordered call"
  by (cases call) auto

lemma sys_call_req: "sys_call_ok pool call \<Longrightarrow> \<exists>req. req_of call = Some req"
  by (cases call) auto

lemma kvstore_call_ok:
  assumes pool: "tokens pool" and call: "sys_call_ok pool call" and st: "store_ok pool s"
    and step: "kvstore_call call s = Done (r, s')"
  shows "store_ok pool s'" and "resp_wf r" and "r \<noteq> RStop"
proof -
  have inv: "om_inv s" and vals: "\<And>k v. om_get s k = Some v \<Longrightarrow> k \<in> pool \<and> value_plain v"
    using st by (auto simp: store_ok_def)
  note abs = kvstore.step_abs [OF inv step] and resp = kvstore.step_resp [OF inv step]
  show "store_ok pool s'"
    using kvstore.step_inv [OF inv step] vals call
    by (cases call) (auto simp: store_ok_def abs split: if_splits)
  have v: "value_wf (om_get s k)" for k
    using vals by (auto simp: value_wf_def value_plain_def split: option.split)
  show "r \<noteq> RStop" using resp call by (cases call) auto
  show "resp_wf r"
  proof (cases call)
    case (CScan a b)
    with resp obtain es where r: "r = RScan a b es" and es: "map_of es = om_get s |` {k. closed_range a b k}"
      and sorted: "sorted_wrt (<) (map fst es)" by auto
    have "distinct (map fst es)" using sorted strict_sorted_iff by blast
    then have "om_get s k = Some v" if "(k, v) \<in> set es" for k v
      using that es by (metis (no_types, lifting) map_of_is_SomeI option.distinct(1) restrict_map_def)
    then have "list_all entry_ok es"
      using vals pool by (fastforce simp: list_all_iff entry_ok_def tokens_def value_plain_def)
    with r CScan call pool show ?thesis by (simp add: tokens_def)
  qed (use resp call pool v in \<open>auto simp: tokens_def\<close>)
qed

section \<open>The life of a call\<close>

abbreviation proc ::
  "child \<Rightarrow> KvCall list \<Rightarrow> KvResp list \<Rightarrow> string \<Rightarrow> string \<Rightarrow> driver \<Rightarrow> ClientProc" where
  "proc h calls resps inp out drv \<equiv>
     \<lparr>cp_handle = h, cp_calls = calls, cp_resps = resps,
      cp_stdin = \<lparr>wr_text = inp, wr_fault = None\<rparr>, cp_stdout = \<lparr>rd_input = out, rd_fault = None\<rparr>,
      cp_driver = drv, cp_dropped = False, cp_errs = []\<rparr>"

text \<open>
  Where a call of a client can be: in the channel, in the pipe, with the client, or lost with a failed
  remote call; and where its response can be.
\<close>

inductive shape :: "string set \<Rightarrow> ClientProc \<times> client \<Rightarrow> KvCall option \<Rightarrow> KvResp option \<Rightarrow> bool" for pool where
  idle: "shape pool (proc h [] [] [] [] (AtRecv False), AtLine) None None"
| queued: "sys_call_ok pool call \<Longrightarrow>
    shape pool (proc h [call] [] [] [] (AtRecv False), AtLine) (Some call) None"
| piped: "sys_call_ok pool call \<Longrightarrow>
    shape pool (proc h [] [] (call_line call) [] (AtRead False), AtLine) (Some call) None"
| calling: "sys_call_ok pool (call_of req) \<Longrightarrow>
    shape pool (proc h [] [] [] [] (AtRead False), Calling req) (Some (call_of req)) None"
| lost: "sys_call_ok pool (call_of req) \<Longrightarrow>
    shape pool (proc h [] [] [] [] (AtRead False), Lost req None) (Some (call_of req)) None"
| replied: "resp_wf (resp_of req res) \<Longrightarrow> resp_of req res \<noteq> RStop \<Longrightarrow>
    shape pool (proc h [] [] [] [] (AtRead False), Replied req res) None (Some (resp_of req res))"
| lost_reply: "shape pool (proc h [] [] [] [] (AtRead False), Lost req (Some res)) None (Some (resp_of req res))"
| printed: "resp_wf r \<Longrightarrow>
    shape pool (proc h [] [] [] (resp_text r) (AtRead False), AtLine) None (Some r)"
| delivered: "shape pool (proc h [] [r] [] [] (AtRecv False), AtLine) None (Some r)"

inductive_cases shape_idleE: "shape pool pc None None"

lemma resp_text_nonempty: "resp_text r \<noteq> []"
  by (cases r) simp_all

lemma from_read_empty: "from_read \<lparr>rd_input = [], rd_fault = None\<rparr> = None"
proof -
  have "read_next_line \<lparr>rd_input = [], rd_fault = None\<rparr> = None"
    by (simp add: read_next_line_None_iff)
  then show ?thesis by (simp add: from_read_def)
qed

lemma shape_pend_done:
  assumes "tokens pool" and "shape pool pc pe de"
  shows "pend_of pc = pe" and "done_of pc = de"
proof -
  have "pend_of pc = pe \<and> done_of pc = de"
    using assms(2)
  proof cases
    case (piped call h)
    then obtain req where req: "req_of call = Some req" using sys_call_req by blast
    obtain l where "getline (call_line call) = Some (l, [])" "client_line l = Rpc req"
      using getline_call [OF sys_call_wf [OF assms(1) piped(4)] req] by blast
    with piped call_of_req [OF req] show ?thesis by simp
  next
    case (printed r h)
    with from_read_resp_text [of r "[]" None] show ?thesis by (auto simp: resp_text_nonempty)
  qed simp_all
  then show "pend_of pc = pe" and "done_of pc = de" by simp_all
qed

lemma shape_drive:
  assumes "shape pool (p, cl) pe de"
  shows "shape pool (driver_thread p, cl) pe de"
  using assms
proof cases
  case (queued call h)
  then have "driver_thread p = proc h [] [] (call_line call) [] (AtRead False)"
    by (cases call) (simp_all add: driver_thread_def driver_call_def into_write_def write_all_def)
  with queued show ?thesis using shape.piped by simp
next
  case (printed r h)
  obtain b where "from_read \<lparr>rd_input = resp_text r, rd_fault = None\<rparr> =
      Some (Inr (r, b, \<lparr>rd_input = [], rd_fault = None\<rparr>))"
    using from_read_resp_text [OF printed(5), of "[]" None] by auto
  then have "driver_thread p = proc h [] [r] [] [] (AtRecv False)"
    using printed by (simp add: driver_thread_def driver_resp_def)
  with printed show ?thesis using shape.delivered by simp
qed (use shape.intros in \<open>simp_all add: driver_thread_def driver_call_def driver_resp_def from_read_empty\<close>)

lemma shape_client:
  assumes pool: "tokens pool" and "shape pool (p, cl) pe de"
  shows "shape pool (client_move (p, cl)) pe de"
  using assms(2)
proof cases
  case (piped call h)
  then obtain req where req: "req_of call = Some req" using sys_call_req by blast
  obtain l where "getline (call_line call) = Some (l, [])" "client_line l = Rpc req"
    using getline_call [OF sys_call_wf [OF pool piped(5)] req] by blast
  then have "client_move (p, cl) = (proc h [] [] [] [] (AtRead False), Calling req)"
    using piped by (simp add: client_read_def)
  with piped call_of_req [OF req] show ?thesis using shape.calling [of pool req] by simp
next
  case (replied req res h)
  then have "client_move (p, cl) = (proc h [] [] [] (resp_text (resp_of req res)) (AtRead False), AtLine)"
    by (simp add: print_def client_print_text)
  with replied show ?thesis using shape.printed by simp
qed (use shape.intros in \<open>simp_all add: client_read_def\<close>)

lemma shape_fail:
  assumes "shape pool (p, cl) pe de" shows "shape pool (p, rpc_fail cl) pe de"
  using assms by cases (use shape.intros in simp_all)

section \<open>The world is linearizable\<close>

definition world_inv :: "nat \<Rightarrow> string set \<Rightarrow> world \<Rightarrow> bool" where
  "world_inv n pool w \<longleftrightarrow>
     tokens pool \<and> length (wd_procs w) = n \<and> wd_up w \<and> store_ok pool (wd_store w)
     \<and> (\<forall>c < n. \<exists>pe de. shape pool (wd_procs w ! c) pe de)"

lemma world_invD:
  assumes "world_inv n pool w"
  shows "tokens pool" and "length (wd_procs w) = n" and "wd_up w" and "store_ok pool (wd_store w)"
    and "c < n \<Longrightarrow> \<exists>pe de. shape pool (wd_procs w ! c) pe de"
  using assms unfolding world_inv_def by blast+

lemma set_proc_inv:
  assumes "world_inv n pool w" and "c < n" and "shape pool pc pe de"
  shows "world_inv n pool (set_proc c pc w)"
    and "world_abs (set_proc c pc w) =
      (world_abs w)\<lparr>ls_pend := (ls_pend (world_abs w))(c := pe), ls_done := (ls_done (world_abs w))(c := de)\<rparr>"
proof -
  show "world_inv n pool (set_proc c pc w)"
    using assms by (auto simp: world_inv_def set_proc_def nth_list_update)
  show "world_abs (set_proc c pc w) =
    (world_abs w)\<lparr>ls_pend := (ls_pend (world_abs w))(c := pe), ls_done := (ls_done (world_abs w))(c := de)\<rparr>"
    using assms shape_pend_done [OF world_invD(1) [OF assms(1)] assms(3)] world_invD(2) [OF assms(1)]
    by (auto simp: world_abs_def set_proc_def nth_list_update fun_eq_iff)
qed

lemma world_abs_shape:
  assumes "world_inv n pool w" and "c < n" and "shape pool (wd_procs w ! c) pe de"
  shows "ls_pend (world_abs w) c = pe" and "ls_done (world_abs w) c = de"
  using assms shape_pend_done [OF world_invD(1) [OF assms(1)] assms(3)] world_invD(2) [OF assms(1)]
  by (simp_all add: world_abs_def)

lemma set_proc_same:
  assumes "world_inv n pool w" and "c < n" and "shape pool (wd_procs w ! c) pe de" and "shape pool pc pe de"
  shows "world_inv n pool (set_proc c pc w) \<and> world_abs (set_proc c pc w) = world_abs w"
  using set_proc_inv [OF assms(1,2,4)] world_abs_shape [OF assms(1-3)] by auto

text \<open>The server handles a request: the moment the call takes effect.\<close>

lemma shape_awaiting:
  assumes "shape pool (p, cl) pe de" and "awaiting cl = Some (req, reply)"
  shows "sys_call_ok pool (call_of req)" and "pe = Some (call_of req)"
    and "resp_wf (resp_of req res) \<Longrightarrow> resp_of req res \<noteq> RStop \<Longrightarrow>
      shape pool (p, reply res) None (Some (resp_of req res))"
  using assms by (cases; auto intro: shape.intros)+

lemma serve_lin:
  assumes inv: "world_inv n pool w" and c: "c < n"
    and aw: "awaiting (snd (wd_procs w ! c)) = Some (req, reply)"
  shows "world_inv n pool (serve c w) \<and> ls_pend (world_abs w) c = Some (call_of req)
    \<and> (\<exists>r. resp_ok closed_range (call_of req) (ls_store (world_abs w)) r
            \<and> world_abs (serve c w) = lin_effect c (call_of req) r (world_abs w))"
proof -
  obtain p cl where pc: "wd_procs w ! c = (p, cl)" by fastforce
  obtain pe de where sh: "shape pool (p, cl) pe de" using world_invD(5) [OF inv c] pc by auto
  have cl: "awaiting cl = Some (req, reply)" using aw pc by simp
  note w = world_invD [OF inv] and call = shape_awaiting(1) [OF sh cl]
  have om: "om_inv (wd_store w)" using w(4) by (simp add: store_ok_def)
  obtain r s' where step: "kvstore_call (call_of req) (wd_store w) = Done (r, s')"
    using kvstore.step_done [OF om sys_call_ordered [OF call]] by blast
  then obtain res where srv: "KvStoreService req (wd_store w) = Done (res, s')" and r: "r = resp_of req res"
    by (auto simp: kvstore_call_def req_of_call split: rust.splits)
  have w': "serve c w = (set_proc c (p, reply res) w)\<lparr>wd_store := s'\<rparr>"
    using pc cl w(3) srv by (simp add: serve_def)
  note ok = kvstore_call_ok [OF w(1) call w(4) step]
  note sp = set_proc_inv [OF inv c shape_awaiting(3) [OF sh cl ok(2,3) [unfolded r]]]
  have "world_inv n pool (serve c w)" using sp(1) ok(1) by (simp add: w' world_inv_def)
  moreover have "world_abs (serve c w) = lin_effect c (call_of req) r (world_abs w)"
  proof -
    have "world_abs (serve c w) = (world_abs (set_proc c (p, reply res) w))\<lparr>ls_store := om_get s'\<rparr>"
      by (simp add: w' world_abs_def cong: if_cong)
    then show ?thesis using sp(2) kvstore.step_abs [OF om step] r by (simp add: world_abs_def)
  qed
  moreover have "ls_pend (world_abs w) c = Some (call_of req)"
    using world_abs_shape(1) [OF inv c] sh pc shape_awaiting(2) [OF sh cl] by simp
  moreover have "resp_ok closed_range (call_of req) (ls_store (world_abs w)) r"
    using kvstore.step_resp [OF om step] by (simp add: world_abs_def)
  ultimately show ?thesis by blast
qed

text \<open>The call that takes effect when an event happens, if there is one, and its client.\<close>

definition taking_effect :: "event \<Rightarrow> world \<Rightarrow> (nat \<times> KvCall) option" where
  "taking_effect ev w =
     (case ev of
        Serve c \<Rightarrow>
          if c < length (wd_procs w)
          then map_option (\<lambda>(req, _). (c, call_of req)) (awaiting (snd (wd_procs w ! c))) else None
      | _ \<Rightarrow> None)"

lemma run_event_effect:
  assumes inv: "world_inv n pool w" and ev: "taking_effect ev w = Some (c, call)"
  shows "world_inv n pool (run_event ev w) \<and> ls_pend (world_abs w) c = Some call
    \<and> (\<exists>r. resp_ok closed_range call (ls_store (world_abs w)) r
            \<and> world_abs (run_event ev w) = lin_effect c call r (world_abs w))"
proof -
  from ev obtain req reply where e: "ev = Serve c" "c < length (wd_procs w)" "call = call_of req"
    and aw: "awaiting (snd (wd_procs w ! c)) = Some (req, reply)"
    by (auto simp: taking_effect_def split: event.splits if_splits)
  with serve_lin [OF inv _ aw] world_invD(2) [OF inv] show ?thesis by (simp add: run_event_def)
qed

lemma run_event_no_effect:
  assumes inv: "world_inv n pool w" and none: "taking_effect ev w = None"
  shows "world_inv n pool (run_event ev w) \<and> world_abs (run_event ev w) = world_abs w"
proof -
  note len = world_invD(2) [OF inv]
  have same: "world_inv n pool (set_proc c (f (wd_procs w ! c)) w)
      \<and> world_abs (set_proc c (f (wd_procs w ! c)) w) = world_abs w"
    if c: "c < n" and f: "\<And>p cl pe de. shape pool (p, cl) pe de \<Longrightarrow> shape pool (f (p, cl)) pe de" for c f
  proof -
    obtain pe de where sh: "shape pool (wd_procs w ! c) pe de" using world_invD(5) [OF inv c] by blast
    then have "shape pool (f (wd_procs w ! c)) pe de" using f by (metis prod.collapse)
    with set_proc_same [OF inv c sh] show ?thesis by simp
  qed
  note moves = shape_drive shape_client [OF world_invD(1) [OF inv]] shape_fail
  show ?thesis
  proof (cases ev)
    case (Serve c)
    with inv none show ?thesis
      by (auto simp: run_event_def serve_def taking_effect_def split: if_splits prod.splits option.split)
  qed (use inv len moves in \<open>simp_all add: run_event_def same\<close>)
qed

lemma run_event_lin:
  assumes "world_inv n pool w"
  shows "world_inv n pool (run_event ev w) \<and> lin_steps (world_abs w) (world_abs (run_event ev w))"
proof (cases "taking_effect ev w")
  case None
  with run_event_no_effect [OF assms] show ?thesis by simp
next
  case (Some cc)
  with run_event_effect [OF assms] show ?thesis
    by (cases cc) (metis take_effect r_into_rtranclp)
qed

lemma run_events_lin:
  "world_inv n pool w \<Longrightarrow>
     world_inv n pool (fold run_event evs w) \<and> lin_steps (world_abs w) (world_abs (fold run_event evs w))"
proof (induction evs arbitrary: w)
  case (Cons ev evs)
  from run_event_lin [OF Cons.prems] Cons.IH show ?case by (fastforce intro: rtranclp_trans)
qed simp

lemma sched_irrelevant [simp]:
  "world_abs (w\<lparr>wd_sched := sc\<rparr>) = world_abs w" "world_inv n pool (w\<lparr>wd_sched := sc\<rparr>) = world_inv n pool w"
  by (simp_all add: world_abs_def world_inv_def cong: if_cong)

lemma run_batch_lin:
  "world_inv n pool w \<Longrightarrow>
     world_inv n pool (run_batch w) \<and> lin_steps (world_abs w) (world_abs (run_batch w))"
  using run_events_lin by (simp add: run_batch_def split: list.split)

interpretation kvs: lin_env world_ops world_abs "world_inv n pool" n pool for n pool
proof unfold_locales
  fix w c call u w'
  assume w: "world_inv n pool w" and c: "c < n" and idle: "\<not> outstanding (world_abs w) c"
    and call: "fuzz_call_ok pool call" and snd: "send_call_op world_ops c call w = (Inr u, w')"
  let ?v = "run_batch w"
  have v: "world_inv n pool ?v" and steps: "lin_steps (world_abs w) (world_abs ?v)"
    using run_batch_lin [OF w] by blast+
  obtain pe de where sh: "shape pool (wd_procs ?v ! c) pe de" using world_invD(5) [OF v c] by blast
  have "\<not> outstanding (world_abs ?v) c" using idle lin_steps_outstanding [OF steps] by simp
  then have "pe = None" "de = None"
    using world_abs_shape [OF v c sh] by (auto simp: outstanding_def)
  with sh obtain h where p: "wd_procs ?v ! c = (proc h [] [] [] [] (AtRecv False), AtLine)"
    by (auto elim: shape_idleE)
  then have w': "w' = set_proc c (proc h [call] [] [] [] (AtRecv False), AtLine) ?v"
    using snd by (simp add: world_ops_def world_send_def on_proc_def send_call_def)
  note sp = set_proc_inv [OF v c shape.queued [OF fuzz_call_sys [OF call]], of h, folded w']
  have "ls_done (world_abs ?v) c = None" using world_abs_shape(2) [OF v c sh] \<open>de = None\<close> by simp
  then have "world_abs w' = lin_invoke c call (world_abs ?v)"
    using sp(2) by (simp add: lin_invoke_def fun_upd_idem)
  with sp(1) steps show "world_inv n pool w' \<and>
      (\<exists>s. lin_steps (world_abs w) s \<and> lin_steps (lin_invoke c call s) (world_abs w'))" by auto
next
  fix w c t r w'
  assume w: "world_inv n pool w" and c: "c < n" and got: "wait_resp_op world_ops c t w = (Inr r, w')"
  let ?v = "run_batch w"
  have v: "world_inv n pool ?v" and steps: "lin_steps (world_abs w) (world_abs ?v)"
    using run_batch_lin [OF w] by blast+
  obtain p cl pe de where sh: "shape pool (p, cl) pe de" and pc: "wd_procs ?v ! c = (p, cl)"
    using world_invD(5) [OF v c] by (metis prod.collapse)
  from got pc have "cp_resps p \<noteq> []"
    by (auto simp: world_ops_def world_wait_def on_proc_def wait_resp_def)
  with sh obtain h r0 where p: "p = proc h [] [r0] [] [] (AtRecv False)" "cl = AtLine" "pe = None" "de = Some r0"
    by (auto elim: shape.cases)
  then have w': "w' = set_proc c (proc h [] [] [] [] (AtRecv False), AtLine) ?v" and r: "r0 = r"
    using got pc by (simp_all add: world_ops_def world_wait_def on_proc_def wait_resp_def)
  note sp = set_proc_inv [OF v c shape.idle, of h, folded w']
  have abs: "ls_pend (world_abs ?v) c = None" "ls_done (world_abs ?v) c = Some r"
    using world_abs_shape [OF v c] sh pc p r by simp_all
  then have "world_abs w' = lin_respond c (world_abs ?v)"
    using sp(2) by (simp add: lin_respond_def fun_upd_idem)
  with sp(1) steps abs show "world_inv n pool w' \<and> (\<exists>s. lin_steps (world_abs w) s
      \<and> ls_done s c = Some r \<and> lin_steps (lin_respond c s) (world_abs w'))" by auto
next
  fix w u w'
  assume "world_inv n pool w" and "flush_op world_ops w = (Inr u, w')"
  with run_batch_lin [of n pool w] show "world_inv n pool w' \<and> lin_steps (world_abs w) (world_abs w')"
    by (auto simp: world_ops_def world_flush_def split: option.splits)
qed

section \<open>Starting the clients\<close>

lemma world_boot_inv:
  "tokens pool \<Longrightarrow> world_inv 0 pool (world_boot sched)" "world_abs (world_boot sched) = lin_init"
  by (simp_all add: world_inv_def world_boot_def store_ok_def world_abs_def lin_init_def)

lemma world_spawn_inv:
  assumes inv: "world_inv m pool w" and ok: "world_spawn os args w = (Inr u, w')"
  shows "world_inv (Suc m) pool w' \<and> world_abs w' = world_abs w"
proof -
  obtain h where w': "w' = w\<lparr>wd_procs := wd_procs w @ [(proc h [] [] [] [] (AtRecv False), AtLine)]\<rparr>"
    using ok by (auto simp: world_spawn_def ClientProc_new_def split: sum.splits)
  have len: "length (wd_procs w) = m" using world_invD(2) [OF inv] .
  have idle: "shape pool (proc h [] [] [] [] (AtRecv False), AtLine) None None" by (rule shape.idle)
  have "\<exists>pe de. shape pool (wd_procs w' ! c) pe de" if "c < Suc m" for c
    using that world_invD(5) [OF inv] idle len by (cases "c = m") (auto simp: w' nth_append)
  then have "world_inv (Suc m) pool w'" using inv by (simp add: world_inv_def w')
  moreover have "world_abs w' = world_abs w"
    using shape_pend_done [OF world_invD(1) [OF inv] idle]
    by (auto simp: world_abs_def w' nth_append fun_eq_iff less_Suc_eq)
  ultimately show ?thesis by blast
qed

lemma spawn_clients_inv:
  "world_inv m pool w \<Longrightarrow> spawn_clients (world_spawn os args) n w = (Inr u, w') \<Longrightarrow>
     world_inv (m + n) pool w' \<and> world_abs w' = world_abs w"
proof (induction n arbitrary: m w)
  case (Suc n)
  from Suc.prems(2) obtain w1 where w1: "world_spawn os args w = (Inr (), w1)"
    and rest: "spawn_clients (world_spawn os args) n w1 = (Inr u, w')"
    by (auto split: prod.splits sum.splits)
  from world_spawn_inv [OF Suc.prems(1) w1] Suc.IH [OF _ rest] show ?case by fastforce
qed simp

section \<open>The keys of a run\<close>

lemma digits_token: "is_token (digits n)"
proof (induction n rule: digits.induct)
  case (1 n)
  have dig: "\<not> is_whitespace (char_of (48 + d))" if "d < 10" for d :: nat
    using that by (auto simp: is_whitespace_def of_char_of)
  show ?case
    using 1 dig by (subst digits.simps) (auto simp: is_token_def)
qed

lemma pad_zeros_token: "is_token (''key'' @ pad_zeros w n)"
  using digits_token [of n]
  by (auto simp: is_token_def pad_zeros_def list_all_iff is_whitespace_def)

lemma alphanumeric_token: "list_all is_alphanumeric s \<Longrightarrow> s \<noteq> [] \<Longrightarrow> is_token s"
  by (auto simp: is_token_def list_all_iff is_alphanumeric_def is_whitespace_def Let_def)

lemma gen_cli_keys_ok:
  assumes "rng_ok R"
  shows "length (fst (gen_cli_keys R conf is g)) = length is
    \<and> (\<forall>k \<in> set (fst (gen_cli_keys R conf is g)). is_token k)"
proof (induction "is" arbitrary: g)
  case (Cons i "is")
  have "is_token (fst (gen_rand_string R KEY_LEN g))"
  proof (rule alphanumeric_token)
    from rng_ok_string [OF assms prod.collapse [symmetric], of g KEY_LEN]
    have "length (fst (gen_rand_string R KEY_LEN g)) = 8"
      and al: "list_all is_alphanumeric (fst (gen_rand_string R KEY_LEN g))"
      by (simp_all add: gen_rand_string_def KEY_LEN_def)
    then show "fst (gen_rand_string R KEY_LEN g) \<noteq> []" by auto
    show "list_all is_alphanumeric (fst (gen_rand_string R KEY_LEN g))" by (rule al)
  qed
  with Cons pad_zeros_token show ?case by (auto simp: case_prod_unfold Let_def)
qed simp

lemma gen_keys_ok:
  assumes "rng_ok R" and "0 < nkeys"
  shows "length (fst (gen_keys R conf n nkeys g)) = n \<and> [] \<notin> set (fst (gen_keys R conf n nkeys g))
    \<and> tokens (key_pool (fst (gen_keys R conf n nkeys g)))"
proof (induction n arbitrary: g)
  case 0
  show ?case by (simp add: tokens_def key_pool_def)
next
  case (Suc n)
  have "length (fst (gen_cli_keys R conf [0..<nkeys] g)) \<noteq> 0"
    using gen_cli_keys_ok [OF assms(1), of conf "[0..<nkeys]" g] assms(2) by simp
  then have "fst (gen_cli_keys R conf [0..<nkeys] g) \<noteq> []" by auto
  with Suc gen_cli_keys_ok [OF assms(1), of conf "[0..<nkeys]" g] show ?case
    by (auto simp: case_prod_unfold Let_def tokens_def key_pool_def)
qed

section \<open>The fuzzer on the key-value store\<close>

lemma gen_keys_run_ok:
  assumes "rng_ok R" and "args_ok args"
    and "2 * (unat (num_ops args) * unat (num_clis args)) < 2 ^ 64"
    and "gen_keys R (conflict args) (unat (num_clis args)) (unat (num_keys args)) g = (keys, g')"
  shows "run_ok args keys" and "length keys = unat (num_clis args)" and "tokens (key_pool keys)"
proof -
  have "0 < unat (num_keys args)" using assms(2) by (simp add: args_ok_def unat_gt_0)
  from gen_keys_ok [OF assms(1) this, of "conflict args" "unat (num_clis args)" g] assms
  show "run_ok args keys" and "length keys = unat (num_clis args)" and "tokens (key_pool keys)"
    by (simp_all add: run_ok_def)
qed

lemma fuzz_main_returns:
  assumes "rng_ok R" and "rng_fair R"
    and "args_ok args" and "2 * (unat (num_ops args) * unat (num_clis args)) < 2 ^ 64"
  shows "fuzz_main R C spawn args g w \<noteq> None"
proof -
  obtain keys g1 where keys: "gen_keys R (conflict args) (unat (num_clis args)) (unat (num_keys args)) g = (keys, g1)"
    by fastforce
  note run = gen_keys_run_ok [OF assms(1,3,4) keys]
  from fuzz_test_returns [OF assms(1,2) run(1)] run(2) keys show ?thesis
    by (auto simp: fuzz_main_def Let_def split: prod.split sum.split)
qed

lemma fuzz_main_kvstore:
  assumes "rng_ok R" and "args_ok args"
    and "2 * (unat (num_ops args) * unat (num_clis args)) < 2 ^ 64"
    and ret: "fuzz_main R world_ops (world_spawn os just_args) args g (world_boot sched) = Some res"
  shows "(\<exists>e. res = Done (Inl e)) \<or> (\<exists>k. res = Done (Inr (if k < 1000 then PASSED k else UNFAIR k)))"
proof -
  let ?n = "unat (num_clis args)"
  obtain keys g1 where keys: "gen_keys R (conflict args) ?n (unat (num_keys args)) g = (keys, g1)"
    by fastforce
  note run = gen_keys_run_ok [OF assms(1,2,3) keys]
  obtain sp w1 where sp: "spawn_clients (world_spawn os just_args) ?n (world_boot sched) = (sp, w1)"
    by fastforce
  show ?thesis
  proof (cases sp)
    case (Inl e)
    with ret keys sp assms(2) show ?thesis by (auto simp: fuzz_main_def)
  next
    case (Inr u)
    from ret keys sp Inr assms(2) obtain r where
      t: "fuzz_test R world_ops args keys (Stats_new keys) ?n g1 w1 = Some r"
      and res: "res = map_rust (\<lambda>(res, st). map_sum id fuzz_verdict res) r"
      by (auto simp: fuzz_main_def)
    have w: "world_inv ?n (key_pool keys) w1" "world_abs w1 = lin_init"
      using spawn_clients_inv [OF world_boot_inv(1) [OF run(3)] sp [unfolded Inr]]
      by (simp_all add: world_boot_inv(2))
    have v: "fuzz_verdict (Some k) = (if k < 1000 then PASSED k else UNFAIR k)" for k
      by (simp add: fuzz_verdict_def REMAIN_THRESH_def)
    from kvs.test_sound [OF assms(1) run(1) order_refl run(2) [symmetric] w t]
    consider e st where "r = Done (Inl e, st)" | k st where "r = Done (Inr (Some k), st)" by blast
    then show ?thesis
    proof cases
      case (2 k st)
      with res have "res = Done (Inr (if k < 1000 then PASSED k else UNFAIR k))" by (simp add: v)
      then show ?thesis by blast
    qed (use res in simp)
  qed
qed

lemma on_proc_eq:
  "wd_procs w ! c = (p, cl) \<Longrightarrow> on_proc f c w = (fst (f p), set_proc c (snd (f p), cl) w)"
  by (simp add: on_proc_def case_prod_unfold Let_def)

lemma set_proc_nth [simp]: "c < length (wd_procs w) \<Longrightarrow> wd_procs (set_proc c pc w) ! c = pc"
  by (simp add: set_proc_def)

lemma set_proc_simps [simp]:
  "wd_store (set_proc c pc w) = wd_store w" "wd_up (set_proc c pc w) = wd_up w"
  "wd_sched (set_proc c pc w) = wd_sched w" "length (wd_procs (set_proc c pc w)) = length (wd_procs w)"
  by (simp_all add: set_proc_def)

text \<open>The way of one call through driver, client and server and back.\<close>

definition one_way :: "nat \<Rightarrow> event list" where
  "one_way c = [Drive c, ClientMove c, Serve c, ClientMove c, Drive c]"

lemma one_way_run:
  assumes inv: "world_inv n pool w" and c: "c < n" and call: "sys_call_ok pool call"
    and pc: "wd_procs w ! c = (proc h [call] [] [] [] (AtRecv False), AtLine)"
    and step: "kvstore_call call (wd_store w) = Done (r, s')"
  shows "wd_procs (fold run_event (one_way c) w) ! c = (proc h [] [r] [] [] (AtRecv False), AtLine)
    \<and> wd_store (fold run_event (one_way c) w) = s'"
proof -
  note w = world_invD [OF inv]
  obtain req where req: "req_of call = Some req" using sys_call_req [OF call] by blast
  obtain l where l: "getline (call_line call) = Some (l, [])" "client_line l = Rpc req"
    using getline_call [OF sys_call_wf [OF w(1) call] req] by blast
  obtain res where res: "KvStoreService req (wd_store w) = Done (res, s')" and r: "r = resp_of req res"
    using step req by (auto simp: kvstore_call_def split: rust.splits)
  note ok = kvstore_call_ok [OF w(1) call w(4) step]
  obtain b where b: "from_read \<lparr>rd_input = resp_text r, rd_fault = None\<rparr> =
      Some (Inr (r, b, \<lparr>rd_input = [], rd_fault = None\<rparr>))"
    using from_read_resp_text [OF ok(2), of "[]" None] by auto
  have ns: "call \<noteq> CStop" using call by auto
  let ?P = "\<lambda>inp out. proc h [] [] inp out (AtRead False)"
  let ?w1 = "set_proc c (?P (call_line call) [], AtLine) w"
  have 1: "run_event (Drive c) w = ?w1"
    using pc c w(2) ns by (simp add: run_event_def driver_thread_def driver_call_def into_write_def write_all_def)
  let ?w2 = "set_proc c (?P [] [], Calling req) ?w1"
  have 2: "run_event (ClientMove c) ?w1 = ?w2"
    using c w(2) l by (simp add: run_event_def client_read_def)
  let ?w3 = "(set_proc c (?P [] [], Replied req res) ?w2)\<lparr>wd_store := s'\<rparr>"
  have 3: "run_event (Serve c) ?w2 = ?w3" using c w(2,3) res by (simp add: run_event_def serve_def)
  let ?w4 = "set_proc c (?P [] (resp_text r), AtLine) ?w3"
  have 4: "run_event (ClientMove c) ?w3 = ?w4"
    using c w(2) r ok(3) by (simp add: run_event_def print_def client_print_text)
  have "run_event (Drive c) ?w4 = set_proc c (proc h [] [r] [] [] (AtRecv False), AtLine) ?w4"
    using c w(2) b by (simp add: run_event_def driver_thread_def driver_resp_def)
  with 1 2 3 4 c w(2) show ?thesis by (simp add: one_way_def)
qed

section \<open>Properties\<close>

text \<open>C1: the fuzzer raises no false alarm on the key-value store of this repository, started
  with an empty store.  For every schedule of the driver threads, the clients and the server, every pattern of failing remote calls, every random
  choice of a fair generator and all accepted arguments with fewer than \<open>2 ^ 63\<close> operations, the run ends,
  does not panic and does not print FAILED: it ends with an error of the environment, with PASSED, or with
  UNFAIR when a thousand or more responses are left unchecked.\<close>

theorem fuzzer_no_false_alarm:
  assumes "rng_ok R" and "rng_fair R" and "args_ok args"
    and "2 * (unat (num_ops args) * unat (num_clis args)) < 2 ^ 64"
  shows "(\<exists>e. fuzz_main R world_ops (world_spawn os just_args) args g (world_boot sched) = Some (Done (Inl e)))
    \<or> (\<exists>k. fuzz_main R world_ops (world_spawn os just_args) args g (world_boot sched) =
         Some (Done (Inr (if k < 1000 then PASSED k else UNFAIR k))))"
proof -
  obtain res where res: "fuzz_main R world_ops (world_spawn os just_args) args g (world_boot sched) = Some res"
    using fuzz_main_returns [OF assms] by (meson not_None_eq)
  from fuzz_main_kvstore [OF assms(1,3,4) res] res show ?thesis by auto
qed

theorem fuzzer_no_false_alarm_witness:
  "(\<exists>e. fuzz_main round_robin world_ops (world_spawn (\<lambda>_. Inr \<lparr>ch_wait = Inr (True, []), ch_kill = None\<rparr>) [])
       \<lparr>num_clis = 3, num_keys = 5, num_ops = 5000, conflict = True\<rparr> 0 (world_boot []) = Some (Done (Inl e)))
   \<or> (\<exists>k. fuzz_main round_robin world_ops (world_spawn (\<lambda>_. Inr \<lparr>ch_wait = Inr (True, []), ch_kill = None\<rparr>) [])
       \<lparr>num_clis = 3, num_keys = 5, num_ops = 5000, conflict = True\<rparr> 0 (world_boot []) =
         Some (Done (Inr (if k < 1000 then PASSED k else UNFAIR k))))"
  by (rule fuzzer_no_false_alarm [OF round_robin_ok round_robin_fair]) (simp_all add: args_ok_def)

text \<open>C4: driver threads, clients and server together behave like one linearizable key-value object.
  An event at which the server has no request to handle changes nothing of the calls and the store.  At an
  event at which the server handles the request of a client, even one whose call failed meanwhile, exactly
  that call takes effect: it was outstanding, its response is correct for the store, the store becomes the
  one the call leaves, and no other client is touched.  The invariant of the system is kept.\<close>

theorem world_is_linearizable:
  assumes "world_inv n pool w"
  shows "world_inv n pool (run_event ev w)
    \<and> (case taking_effect ev w of
         None \<Rightarrow> world_abs (run_event ev w) = world_abs w
       | Some (c, call) \<Rightarrow>
           ls_pend (world_abs w) c = Some call
           \<and> (\<exists>r. resp_ok closed_range call (ls_store (world_abs w)) r
                   \<and> world_abs (run_event ev w) = lin_effect c call r (world_abs w)))"
  using run_event_effect [OF assms] run_event_no_effect [OF assms] by (auto split: option.split)

theorem world_is_linearizable_witness:
  "let w = \<lparr>wd_store = om_empty, wd_up = True,
            wd_procs = [(proc \<lparr>ch_wait = Inl [], ch_kill = None\<rparr> [] [] [] [] (AtRead False), Calling (PutRequest ''k'' ''v'')),
                        (proc \<lparr>ch_wait = Inl [], ch_kill = None\<rparr> [] [] [] [] (AtRead False), Lost (GetRequest ''k'') None)],
            wd_stdout = None, wd_sched = []\<rparr>
   in world_abs (run_event (Serve 0) w) = lin_effect 0 (CPut ''k'' ''v'') (RPut ''k'' False) (world_abs w)
      \<and> world_abs (run_event (Serve 1) w) = lin_effect 1 (CGet ''k'') (RGet ''k'' None) (world_abs w)"
proof -
  let ?p = "proc \<lparr>ch_wait = Inl [], ch_kill = None\<rparr> [] [] [] [] (AtRead False)"
  let ?w = "\<lparr>wd_store = om_empty, wd_up = True,
    wd_procs = [(?p, Calling (PutRequest ''k'' ''v'')), (?p, Lost (GetRequest ''k'') None)],
    wd_stdout = None, wd_sched = []\<rparr>"
  have pool: "tokens {''k''}" by (simp add: tokens_def is_token_def is_whitespace_def)
  have "shape {''k''} (?p, Calling (PutRequest ''k'' ''v'')) (Some (CPut ''k'' ''v'')) None"
    using shape.calling [of "{''k''}" "PutRequest ''k'' ''v''"]
    by (simp add: value_plain_def is_token_def is_whitespace_def)
  moreover have "shape {''k''} (?p, Lost (GetRequest ''k'') None) (Some (CGet ''k'')) None"
    using shape.lost [of "{''k''}" "GetRequest ''k''"] by simp
  ultimately have inv: "world_inv 2 {''k''} ?w"
    using pool by (auto simp: world_inv_def store_ok_def less_Suc_eq numeral_2_eq_2)
  have "ls_store (world_abs ?w) = Map.empty" by (simp add: world_abs_def)
  with world_is_linearizable [OF inv, of "Serve 0"] world_is_linearizable [OF inv, of "Serve 1"]
  show ?thesis by (auto simp: taking_effect_def)
qed

text \<open>C5: a call gets through: when a client has nothing outstanding, a call of the fuzzer followed by one
  turn each of driver, client, server, client and driver is answered, with the response that is correct
  for the contents of the store, which then are those the call leaves.\<close>

theorem call_gets_answered:
  assumes inv: "world_inv n pool w" and c: "c < n" and idle: "\<not> outstanding (world_abs w) c"
    and call: "sys_call_ok pool call" and sched: "wd_sched w = [] # one_way c # sc"
  shows "\<exists>w1 w2 r. world_send c call w = (Inr (), w1) \<and> world_wait c timeout w1 = (Inr r, w2)
    \<and> resp_ok closed_range call (om_get (wd_store w)) r
    \<and> om_get (wd_store w2) = kv_apply call (om_get (wd_store w))"
proof -
  let ?v = "w\<lparr>wd_sched := one_way c # sc\<rparr>"
  have v: "world_inv n pool ?v" and abs: "world_abs ?v = world_abs w" using inv by simp_all
  note w = world_invD [OF v]
  obtain pe de where sh: "shape pool (wd_procs ?v ! c) pe de" using w(5) [OF c] by blast
  have "pe = None" "de = None" using world_abs_shape [OF v c sh] idle abs by (auto simp: outstanding_def)
  with sh obtain h where p: "wd_procs ?v ! c = (proc h [] [] [] [] (AtRecv False), AtLine)"
    by (auto elim: shape_idleE)
  let ?w1 = "set_proc c (proc h [call] [] [] [] (AtRecv False), AtLine) ?v"
  have send: "world_send c call w = (Inr (), ?w1)"
    using p sched by (simp add: world_send_def run_batch_def on_proc_eq send_call_def)
  have inv1: "world_inv n pool ?w1" by (rule set_proc_inv(1) [OF v c shape.queued [OF call]])
  have om: "om_inv (wd_store w)" using w(4) by (simp add: store_ok_def)
  obtain r s' where step: "kvstore_call call (wd_store w) = Done (r, s')"
    using kvstore.step_done [OF om sys_call_ordered [OF call]] by blast
  have run: "wd_procs (fold run_event (one_way c) ?w1) ! c = (proc h [] [r] [] [] (AtRecv False), AtLine)"
      "wd_store (fold run_event (one_way c) ?w1) = s'"
    using one_way_run [OF inv1 c call, of h r s'] step c w(2) by auto
  have "world_wait c timeout ?w1 = (Inr r, set_proc c (proc h [] [] [] [] (AtRecv False), AtLine)
      ((fold run_event (one_way c) ?w1)\<lparr>wd_sched := sc\<rparr>))"
    using run(1) by (simp add: world_wait_def run_batch_def on_proc_eq wait_resp_def)
  with send run(2) kvstore.step_resp [OF om step] kvstore.step_abs [OF om step] show ?thesis by auto
qed


theorem call_gets_answered_witness:
  "\<exists>w w1 w2 r. world_spawn (\<lambda>_. Inr \<lparr>ch_wait = Inr (True, []), ch_kill = None\<rparr>) [] (world_boot [[], one_way 0]) = (Inr (), w)
     \<and> world_send 0 (CGet ''k'') w = (Inr (), w1) \<and> world_wait 0 60 w1 = (Inr r, w2)
     \<and> r = RGet ''k'' None"
proof -
  have pool: "tokens {''k''}" by (simp add: tokens_def is_token_def is_whitespace_def)
  obtain w where w: "world_spawn (\<lambda>_. Inr \<lparr>ch_wait = Inr (True, []), ch_kill = None\<rparr>) [] (world_boot [[], one_way 0]) = (Inr (), w)"
    and st: "wd_store w = om_empty" "wd_sched w = [] # one_way 0 # []"
    by (simp add: world_spawn_def ClientProc_new_def world_boot_def)
  have inv: "world_inv 1 {''k''} w" and abs: "world_abs w = lin_init"
    using world_spawn_inv [OF world_boot_inv(1) [OF pool] w] by (simp_all add: world_boot_inv(2))
  have "\<not> outstanding (world_abs w) 0" by (simp add: abs outstanding_def lin_init_def)
  from call_gets_answered [OF inv _ this _ st(2), of "CGet ''k''" 60] w st(1) show ?thesis by auto
qed

end
