(* ===== verification/F64.thy ===== *)
theory F64
  imports Prelude Complex_Main "HOL-Library.Log_Nat"
begin

text \<open>
  Rust's \<open>f64\<close> as far as the benchmark needs it: non-negative values that neither overflow nor reach
  the subnormal range, so that every operation is the exact operation on rational numbers rounded to 53
  significant bits, to the nearest and to even on ties.  The values of the benchmark are such: counts,
  sums and quotients of 64 and 128 bit integers lie between \<open>2 ^ - 200\<close> and \<open>2 ^ 200\<close>.
\<close>

type_synonym f64 = rat

definition pow2 :: "int \<Rightarrow> rat" where
  "pow2 k = (if 0 \<le> k then 2 ^ nat k else 1 / 2 ^ nat (- k))"

text \<open>The exponent of the leading bit of a positive number.\<close>

definition lead_exp :: "rat \<Rightarrow> int" where
  "lead_exp x =
     (let (p, q) = quotient_of x;
          k = int (floorlog 2 (nat p)) - int (floorlog 2 (nat q))
      in if x < pow2 k then k - 1 else k)"

definition round_even :: "rat \<Rightarrow> int" where
  "round_even z =
     (let n = \<lfloor>z\<rfloor>; r = z - of_int n
      in if r < 1 / 2 then n else if r > 1 / 2 then n + 1 else if even n then n else n + 1)"

definition f64_round :: "rat \<Rightarrow> f64" where
  "f64_round x =
     (if x \<le> 0 then 0
      else let e = lead_exp x - 52 in of_int (round_even (x / pow2 e)) * pow2 e)"

definition f64_of_nat :: "nat \<Rightarrow> f64" where "f64_of_nat n = f64_round (of_nat n)"
definition f64_add :: "f64 \<Rightarrow> f64 \<Rightarrow> f64" where "f64_add a b = f64_round (a + b)"
definition f64_mul :: "f64 \<Rightarrow> f64 \<Rightarrow> f64" where "f64_mul a b = f64_round (a * b)"
definition f64_div :: "f64 \<Rightarrow> f64 \<Rightarrow> f64" where "f64_div a b = f64_round (a / b)"

text \<open>\<open>x.ceil() as usize\<close>, which saturates.\<close>

definition f64_ceil :: "f64 \<Rightarrow> nat" where
  "f64_ceil x = min (nat \<lceil>x\<rceil>) (2 ^ 64 - 1)"

section \<open>The rounding error\<close>

lemma pow2_powi: "pow2 k = 2 powi k"
  by (simp add: pow2_def power_int_def power_one_over inverse_eq_divide)

lemma pow2_pos [simp]: "0 < pow2 k"
  by (simp add: pow2_def)

lemma pow2_nonzero [simp]: "pow2 k \<noteq> 0"
  using pow2_pos [of k] by linarith

lemma pow2_add: "pow2 (a + b) = pow2 a * pow2 b"
  by (simp add: pow2_powi power_int_add)

lemma pow2_Suc: "pow2 (k + 1) = 2 * pow2 k"
  by (simp add: pow2_add) (simp add: pow2_def)

lemma pow2_mono: "a \<le> b \<Longrightarrow> pow2 a \<le> pow2 b"
  by (simp add: pow2_powi power_int_increasing)

lemma pow2_nat: "pow2 (int n) = of_nat (2 ^ n)"
  by (simp add: pow2_def)

lemma floorlog_pow2:
  assumes "0 < n"
  shows "pow2 (int (floorlog 2 n) - 1) \<le> of_nat n" and "of_nat n < pow2 (int (floorlog 2 n))"
proof -
  have *: "2 ^ (floorlog 2 n - 1) \<le> n" "n < 2 ^ floorlog 2 n"
    using floorlog_bounds [of n 2] assms by simp_all
  have "int (floorlog 2 n) - 1 = int (floorlog 2 n - 1)"
    using assms by (simp add: floorlog_def)
  with *(1) show "pow2 (int (floorlog 2 n) - 1) \<le> of_nat n"
    by (simp only: pow2_nat of_nat_le_iff)
  from *(2) show "of_nat n < pow2 (int (floorlog 2 n))" by (simp only: pow2_nat of_nat_less_iff)
qed

lemma lead_exp_bounds:
  assumes "0 < x"
  shows "pow2 (lead_exp x) \<le> x" and "x < 2 * pow2 (lead_exp x)"
proof -
  obtain p q where pq: "quotient_of x = (p, q)" by fastforce
  have q: "0 < q" using quotient_of_denom_pos [OF pq] .
  have x: "x = of_int p / of_int q" using quotient_of_div [OF pq] .
  with assms q have p: "0 < p" by (simp add: zero_less_divide_iff)
  let ?a = "int (floorlog 2 (nat p))" and ?b = "int (floorlog 2 (nat q))"
  have p': "pow2 (?a - 1) \<le> of_int p" "of_int p < pow2 ?a"
    using floorlog_pow2 [of "nat p"] p by simp_all
  have q': "pow2 (?b - 1) \<le> of_int q" "of_int q < pow2 ?b"
    using floorlog_pow2 [of "nat q"] q by simp_all
  have "pow2 (?a - 1) = pow2 (?a - ?b - 1) * pow2 ?b" by (simp flip: pow2_add)
  also have "\<dots> \<ge> pow2 (?a - ?b - 1) * of_int q" using q'(2) by simp
  finally have "pow2 (?a - ?b - 1) \<le> x" using p'(1) q by (simp add: x pos_le_divide_eq)
  moreover have "x < 2 * pow2 (?a - ?b)"
  proof -
    have "of_int p < pow2 ((?a - ?b + 1) + (?b - 1))" using p'(2) by simp
    also have "\<dots> = pow2 (?a - ?b + 1) * pow2 (?b - 1)" by (rule pow2_add)
    also have "\<dots> \<le> pow2 (?a - ?b + 1) * of_int q" using q'(1) by simp
    finally show ?thesis using q by (simp add: x pos_divide_less_eq pow2_Suc)
  qed
  moreover have "2 * pow2 (?a - ?b - 1) = pow2 (?a - ?b)" using pow2_Suc [of "?a - ?b - 1"] by simp
  ultimately show "pow2 (lead_exp x) \<le> x" and "x < 2 * pow2 (lead_exp x)"
    by (simp_all add: lead_exp_def pq Let_def)
qed

lemma round_even_near: "\<bar>of_int (round_even z) - z\<bar> \<le> 1 / 2"
proof -
  define n where "n = \<lfloor>z\<rfloor>"
  have "of_int n \<le> z" "z < of_int n + 1" unfolding n_def by linarith+
  then show ?thesis unfolding round_even_def n_def [symmetric] Let_def by (simp add: abs_if)
qed

lemma round_even_le: "z \<le> of_int m \<Longrightarrow> round_even z \<le> m"
proof -
  assume "z \<le> of_int m"
  then have "\<lfloor>z\<rfloor> \<le> m" "z - of_int \<lfloor>z\<rfloor> > 0 \<Longrightarrow> \<lfloor>z\<rfloor> < m" by linarith+
  then show ?thesis by (auto simp: round_even_def Let_def)
qed

lemma f64_round_error:
  assumes "0 < x"
  shows "\<bar>f64_round x - x\<bar> \<le> x / 2 ^ 53"
proof -
  let ?e = "lead_exp x - 52" and ?z = "x / pow2 (lead_exp x - 52)"
  have "f64_round x = of_int (round_even ?z) * pow2 ?e" using assms by (simp add: f64_round_def Let_def)
  moreover have "x = ?z * pow2 ?e" by simp
  ultimately have "f64_round x - x = (of_int (round_even ?z) - ?z) * pow2 ?e" by (simp add: left_diff_distrib)
  then have "\<bar>f64_round x - x\<bar> = \<bar>of_int (round_even ?z) - ?z\<bar> * pow2 ?e"
    by (simp only: abs_mult abs_of_pos [OF pow2_pos])
  also have "\<dots> \<le> 1 / 2 * pow2 ?e"
    by (rule mult_right_mono [OF round_even_near]) (simp add: less_imp_le)
  also have "1 / 2 * pow2 ?e = pow2 (lead_exp x) / 2 ^ 53"
    using pow2_add [of ?e 52] by (simp add: pow2_def [of 52])
  also have "\<dots> \<le> x / 2 ^ 53" using lead_exp_bounds(1) [OF assms] by (simp add: divide_right_mono)
  finally show ?thesis .
qed

lemma f64_round_0 [simp]: "f64_round 0 = 0"
  by (simp add: f64_round_def)

lemma f64_round_lower:
  assumes "0 \<le> x" shows "x * (1 - 1 / 2 ^ 53) \<le> f64_round x"
proof (cases "x = 0")
  case False
  with assms have "0 < x" by simp
  from f64_round_error [OF this] show ?thesis by (simp add: abs_if right_diff_distrib split: if_splits)
qed simp

text \<open>Rounding does not pass an integer of at most 53 bits.\<close>

lemma f64_round_le:
  assumes "x \<le> of_nat m" and "m < 2 ^ 53"
  shows "f64_round x \<le> of_nat m"
proof (cases "0 < x")
  case True
  let ?e = "lead_exp x - 52"
  have "\<not> 0 < ?e"
  proof
    assume "0 < ?e"
    then have "pow2 53 \<le> pow2 (lead_exp x)" by (intro pow2_mono) simp
    also have "\<dots> \<le> x" by (rule lead_exp_bounds(1) [OF True])
    also have "\<dots> \<le> of_nat m" by (rule assms(1))
    also have "\<dots> < of_nat (2 ^ 53)" using assms(2) by (simp only: of_nat_less_iff)
    finally show False by (simp add: pow2_def)
  qed
  then have e: "pow2 ?e * 2 ^ nat (- ?e) = 1" by (auto simp: pow2_def)
  have "x / pow2 ?e \<le> of_nat m / pow2 ?e" using assms(1) by (simp add: divide_right_mono less_imp_le)
  also have "of_nat m / pow2 ?e = of_int (int m * 2 ^ nat (- ?e))" using e by (simp add: field_simps)
  finally have "round_even (x / pow2 ?e) \<le> int m * 2 ^ nat (- ?e)" by (rule round_even_le)
  then have "of_int (round_even (x / pow2 ?e)) * pow2 ?e \<le> (of_int (int m * 2 ^ nat (- ?e)) :: rat) * pow2 ?e"
    by (intro mult_right_mono) (simp_all add: less_imp_le del: of_int_mult of_int_power)
  also have "\<dots> = of_nat m" using e by (simp add: mult.commute mult.assoc)
  finally show ?thesis using True by (simp add: f64_round_def Let_def)
qed (simp add: f64_round_def)

end
