(* ===== verification/Bencher.thy ===== *)
theory Bencher
  imports F64 Proc "HOL-Library.Multiset"
begin

text \<open>
  The statistics of the YCSB benchmark (\<open>Stats\<close> of \<open>runner/src/bin/bencher/main.rs\<close>): recording a
  sample, the summary of the samples, merging.  The hash map from operation types to latency samples is an
  association list with distinct keys; its order does not matter, since printing sorts the keys.
\<close>

record bench_stats =
  merged :: usize
  total_ms :: f64
  lat_samples :: "(string \<times> f64 list) list"

definition bench_stats_new :: bench_stats where
  "bench_stats_new = \<lparr>merged = 0, total_ms = 0, lat_samples = []\<rparr>"

text \<open>\<open>entry(op).or_default().extend(xs)\<close>.\<close>

fun entry_extend :: "string \<Rightarrow> f64 list \<Rightarrow> (string \<times> f64 list) list \<Rightarrow> (string \<times> f64 list) list" where
  "entry_extend op xs [] = [(op, xs)]"
| "entry_extend op xs ((op', ys) # m) =
     (if op' = op then (op', ys @ xs) # m else (op', ys) # entry_extend op xs m)"

definition record_op :: "string \<Rightarrow> f64 \<Rightarrow> bench_stats \<Rightarrow> bench_stats" where
  "record_op op latency_us st = st\<lparr>lat_samples := entry_extend op [latency_us] (lat_samples st)\<rparr>"

definition total_ops :: "bench_stats \<Rightarrow> nat" where
  "total_ops st = sum_list (map (\<lambda>(_, s). length s) (lat_samples st))"

definition percentile_index :: "nat \<Rightarrow> nat" where
  "percentile_index len =
     (let idx = f64_ceil (f64_mul (f64_of_nat len) (f64_round (99 / 100)))
      in min (idx - 1) (len - 1))"

definition latency_stats :: "f64 list \<Rightarrow> (f64 \<times> f64 \<times> f64 \<times> f64) option" where
  "latency_stats samples =
     (if samples = [] then None
      else
        (let sorted = sort samples; len = length sorted;
             total = foldl f64_add 0 sorted;
             avg = f64_div total (f64_of_nat len)
         in Some (avg, sorted ! 0, sorted ! (len - 1), sorted ! percentile_index len)))"

definition throughput :: "bench_stats \<Rightarrow> f64" where
  "throughput st =
     (if total_ms st > 0 then f64_div (f64_of_nat (total_ops st)) (f64_div (total_ms st) 1000) else 0)"

text \<open>The rows that \<open>print\<close> prints, one per operation type, in the order of their names.\<close>

definition print_rows :: "bench_stats \<Rightarrow> (string \<times> nat \<times> f64 \<times> f64 \<times> f64 \<times> f64) list" where
  "print_rows st =
     map (\<lambda>op. (let samples = the (map_of (lat_samples st) op)
                in (op, length samples, case latency_stats samples of Some s \<Rightarrow> s | None \<Rightarrow> (0, 0, 0, 0))))
       (sort (map fst (lat_samples st)))"

definition merge :: "bench_stats \<Rightarrow> bench_stats \<Rightarrow> bench_stats" where
  "merge self other =
     (if merged self = 0 then other
      else
        \<lparr>merged = merged self + merged other,
         total_ms = max (total_ms self) (total_ms other),
         lat_samples = fold (\<lambda>(op, s). entry_extend op s) (lat_samples other) (lat_samples self)\<rparr>)"

section \<open>What the statistics hold\<close>

text \<open>The samples of an operation type.\<close>

definition samples_of :: "bench_stats \<Rightarrow> string \<Rightarrow> f64 list" where
  "samples_of st op = (case map_of (lat_samples st) op of None \<Rightarrow> [] | Some s \<Rightarrow> s)"

lemma entry_extend_lookup:
  "map_of (entry_extend op xs m) = (map_of m)(op \<mapsto> (case map_of m op of None \<Rightarrow> [] | Some ys \<Rightarrow> ys) @ xs)"
  by (induction op xs m rule: entry_extend.induct) (auto simp: fun_eq_iff)

lemma entry_extend_keys: "fst ` set (entry_extend op xs m) = insert op (fst ` set m)"
  by (induction op xs m rule: entry_extend.induct) auto

lemma entry_extend_distinct: "distinct (map fst m) \<Longrightarrow> distinct (map fst (entry_extend op xs m))"
proof (induction op xs m rule: entry_extend.induct)
  case (2 op xs op' ys m)
  then show ?case using entry_extend_keys [of op xs m] by auto
qed simp

lemma entry_extend_length:
  "sum_list (map (\<lambda>(_, s). length s) (entry_extend op xs m)) = sum_list (map (\<lambda>(_, s). length s) m) + length xs"
  by (induction op xs m rule: entry_extend.induct) auto

lemma total_ops_record: "total_ops (record_op op x st) = Suc (total_ops st)"
  by (simp add: total_ops_def record_op_def entry_extend_length)

lemma fold_entry_length:
  "sum_list (map (\<lambda>(_, s). length s) (fold (\<lambda>(op, s). entry_extend op s) es m)) =
     sum_list (map (\<lambda>(_, s). length s) m) + sum_list (map (\<lambda>(_, s). length s) es)"
proof (induction es arbitrary: m)
  case (Cons e es)
  then show ?case by (cases e) (simp add: entry_extend_length)
qed simp

lemma fold_entry_lookup:
  "distinct (map fst es) \<Longrightarrow>
   (case map_of (fold (\<lambda>(op, s). entry_extend op s) es m) op of None \<Rightarrow> [] | Some s \<Rightarrow> s) =
     (case map_of m op of None \<Rightarrow> [] | Some s \<Rightarrow> s) @ (case map_of es op of None \<Rightarrow> [] | Some s \<Rightarrow> s)"
proof (induction es arbitrary: m)
  case (Cons e es)
  obtain op' s where [simp]: "e = (op', s)" by (cases e)
  have "op' = op \<Longrightarrow> map_of es op = None" using Cons.prems by (auto simp: map_of_eq_None_iff)
  with Cons show ?case by (auto simp: entry_extend_lookup)
qed simp

lemma percentile_index_less: "0 < len \<Longrightarrow> percentile_index len < len"
  by (simp add: percentile_index_def Let_def)

text \<open>The double nearest to 0.99 lies just below it.\<close>

lemma f64_099: "f64_round (99 / 100) \<le> 99 / 100" "99 / 100 * (1 - 1 / 2 ^ 53) \<le> f64_round (99 / 100)"
proof -
  show "f64_round (99 / 100) \<le> 99 / 100" by code_simp
  show "99 / 100 * (1 - 1 / 2 ^ 53) \<le> f64_round (99 / 100)"
    by (rule f64_round_lower) simp
qed

lemma f64_of_nat_exact:
  assumes "n < 2 ^ 40" shows "f64_of_nat n \<le> of_nat n" and "of_nat n * (1 - 1 / 2 ^ 53) \<le> f64_of_nat n"
proof -
  show "f64_of_nat n \<le> of_nat n" unfolding f64_of_nat_def by (rule f64_round_le) (use assms in simp_all)
  show "of_nat n * (1 - 1 / 2 ^ 53) \<le> f64_of_nat n"
    unfolding f64_of_nat_def by (rule f64_round_lower) simp
qed

lemma percentile_product:
  assumes len: "len < 2 ^ 40"
  shows "f64_of_nat len * f64_round (99 / 100) \<le> 99 * of_nat len / 100"
    and "99 * of_nat len / 100 - 1 / 1000 \<le> f64_mul (f64_of_nat len) (f64_round (99 / 100))"
proof -
  let ?d = "1 / 2 ^ 53 :: rat" and ?n = "of_nat len :: rat" and ?c = "f64_round (99 / 100)"
  have n0: "0 \<le> f64_of_nat len" and c0: "0 \<le> ?c"
    using f64_of_nat_exact(2) [OF len] f64_099(2) by (simp_all add: order_trans [rotated])
  show up: "f64_of_nat len * ?c \<le> 99 * ?n / 100"
    using mult_mono [OF f64_of_nat_exact(1) [OF len] f64_099(1)] c0 by simp
  let ?x = "f64_of_nat len * ?c"
  have "?n * (1 - ?d) * (99 / 100 * (1 - ?d)) \<le> ?x"
    by (rule mult_mono [OF f64_of_nat_exact(2) [OF len] f64_099(2) n0]) simp
  moreover have "?x * (1 - ?d) \<le> f64_mul (f64_of_nat len) ?c"
    unfolding f64_mul_def by (rule f64_round_lower [OF mult_nonneg_nonneg [OF n0 c0]])
  ultimately have "?n * (1 - ?d) * (99 / 100 * (1 - ?d)) * (1 - ?d) \<le> f64_mul (f64_of_nat len) ?c"
    by (meson mult_right_mono order_trans zero_le_divide_1_iff diff_ge_0_iff_ge divide_le_eq_1_pos
        one_le_power one_le_numeral zero_less_power zero_less_numeral)
  moreover have "99 * ?n / 100 - 1 / 1000 \<le> ?n * (1 - ?d) * (99 / 100 * (1 - ?d)) * (1 - ?d)"
  proof -
    have "?n < of_nat (2 ^ 40)" using len by (simp only: of_nat_less_iff)
    then show ?thesis by (simp add: field_simps)
  qed
  ultimately show "99 * ?n / 100 - 1 / 1000 \<le> f64_mul (f64_of_nat len) ?c" by simp
qed

lemma percentile_index_eq:
  assumes "0 < len" and "len < 2 ^ 40"
  shows "percentile_index len = (99 * len + 99) div 100 - 1"
proof -
  let ?y = "f64_mul (f64_of_nat len) (f64_round (99 / 100))"
  define m where "m = (99 * len + 99) div 100"
  have m: "99 * len \<le> 100 * m" "100 * m \<le> 99 * len + 99" "0 < m" "m \<le> len" "m < 2 ^ 53"
    using assms by (auto simp: m_def)
  have "of_nat (99 * len) \<le> (of_nat (100 * m) :: rat)" using m(1) by (simp only: of_nat_le_iff)
  then have "99 * of_nat len / 100 \<le> (of_nat m :: rat)" by simp
  then have "?y \<le> of_nat m"
    unfolding f64_mul_def using percentile_product(1) [OF assms(2)] m(5) by (intro f64_round_le) simp_all
  moreover have "of_nat m - 1 < ?y"
  proof -
    have "of_nat (100 * m) \<le> (of_nat (99 * len + 99) :: rat)" using m(2) by (simp only: of_nat_le_iff)
    then have "100 * of_nat m \<le> 99 * of_nat len + (99 :: rat)" by simp
    with percentile_product(2) [OF assms(2)] show ?thesis by simp
  qed
  ultimately have "\<lceil>?y\<rceil> = int m" by (simp add: ceiling_eq_iff)
  with m have "f64_ceil ?y = m" by (simp add: f64_ceil_def)
  with m show ?thesis by (simp add: percentile_index_def Let_def m_def)
qed

text \<open>The rank of an element of a sorted list.\<close>

lemma count_le_nth:
  assumes "sorted xs" and "i < length xs"
  shows "Suc i \<le> length (filter (\<lambda>x. x \<le> xs ! i) xs)"
proof -
  have "length (filter (\<lambda>x. x \<le> xs ! i) (take (Suc i) xs)) = Suc i"
    using assms sorted_nth_mono by (subst filter_True) (auto simp: in_set_conv_nth less_Suc_eq_le)
  moreover have "length (filter P (take k xs)) \<le> length (filter P xs)" for P k
    by (metis append_take_drop_id filter_append le_add1 length_append)
  ultimately show ?thesis by metis
qed

lemma count_less_nth:
  assumes "sorted xs" and "i < length xs"
  shows "length (filter (\<lambda>x. x < xs ! i) xs) \<le> i"
proof -
  have "filter (\<lambda>x. x < xs ! i) (drop i xs) = []"
    using assms sorted_nth_mono [OF assms(1)] by (auto simp: filter_empty_conv in_set_conv_nth not_less)
  then have "length (filter (\<lambda>x. x < xs ! i) xs) = length (filter (\<lambda>x. x < xs ! i) (take i xs))"
    by (metis append_Nil2 append_take_drop_id filter_append)
  also have "\<dots> \<le> i" by (metis (no_types, lifting) length_filter_le length_take min.bounded_iff)
  finally show ?thesis .
qed

lemma sort_ends:
  assumes "xs \<noteq> []"
  shows "sort xs ! 0 = Min (set xs)" and "sort xs ! (length xs - 1) = Max (set xs)"
proof -
  let ?s = "sort xs" and ?n = "length xs"
  have mem: "j < ?n \<Longrightarrow> ?s ! j \<in> set xs" for j by (metis length_sort nth_mem set_sort)
  have nth: "\<exists>j < ?n. y = ?s ! j" if "y \<in> set xs" for y using that by (metis in_set_conv_nth length_sort set_sort)
  have mono: "x \<le> y \<Longrightarrow> y < ?n \<Longrightarrow> ?s ! x \<le> ?s ! y" for x y
    using sorted_nth_mono [OF sorted_sort, of x y xs] by simp
  show "?s ! 0 = Min (set xs)"
    using assms mem [of 0] nth mono [of 0] by (intro Min_eqI [symmetric]) fastforce+
  show "?s ! (?n - 1) = Max (set xs)"
    using assms mem [of "?n - 1"] nth mono [of _ "?n - 1"] by (intro Max_eqI [symmetric]) fastforce+
qed

text \<open>Merging the statistics of two clients keeps every sample of both, per operation type and in
  order, and adds up the operations and the clients.\<close>

lemma merge_keeps_samples:
  assumes "merged a \<noteq> 0 \<or> a = bench_stats_new" and "distinct (map fst (lat_samples b))"
  shows "samples_of (merge a b) op = samples_of a op @ samples_of b op
    \<and> total_ops (merge a b) = total_ops a + total_ops b \<and> merged (merge a b) = merged a + merged b"
proof (cases "merged a = 0")
  case True
  with assms show ?thesis by (simp add: merge_def samples_of_def total_ops_def bench_stats_new_def)
next
  case False
  with fold_entry_lookup [OF assms(2), of "lat_samples a" op] fold_entry_length [of "lat_samples b" "lat_samples a"]
  show ?thesis by (simp add: merge_def samples_of_def total_ops_def)
qed

section \<open>Properties\<close>

text \<open>C32: the reported 99th percentile is exactly the nearest-rank percentile in spite of the rounding of
  the floating-point computation of its index: for fewer than \<open>2 ^ 40\<close> samples, at least 99 percent of the
  samples are at most the reported value, and less than 99 percent are below it.  The minimum and the
  maximum are exact.\<close>

theorem latency_stats_percentile:
  assumes "samples \<noteq> []" and "length samples < 2 ^ 40"
  shows "\<exists>avg p99. latency_stats samples = Some (avg, Min (set samples), Max (set samples), p99)
    \<and> p99 \<in> set samples
    \<and> 99 * length samples \<le> 100 * length (filter (\<lambda>x. x \<le> p99) samples)
    \<and> 100 * length (filter (\<lambda>x. x < p99) samples) < 99 * length samples"
proof -
  let ?s = "sort samples" and ?n = "length samples" and ?i = "percentile_index (length samples)"
  have n: "0 < ?n" using assms(1) by simp
  have i: "?i < length ?s" using percentile_index_less [OF n] by simp
  define m where "m = (99 * ?n + 99) div 100"
  have "99 * ?n \<le> 100 * m" "100 * m \<le> 99 * ?n + 99" by (auto simp: m_def)
  moreover have "0 < m" unfolding m_def div_greater_zero_iff using n by linarith
  moreover have "?i = m - 1" using percentile_index_eq [OF n assms(2)] by (simp add: m_def)
  ultimately have rank: "99 * ?n \<le> 100 * Suc ?i" "100 * ?i < 99 * ?n" by auto
  have count: "length (filter P samples) = length (filter P ?s)" for P
    by (metis mset_filter mset_sort size_mset)
  have "Suc ?i \<le> length (filter (\<lambda>x. x \<le> ?s ! ?i) samples)" "length (filter (\<lambda>x. x < ?s ! ?i) samples) \<le> ?i"
    unfolding count by (rule count_le_nth [OF sorted_sort i], rule count_less_nth [OF sorted_sort i])
  moreover have "?s ! ?i \<in> set samples" using i by (metis nth_mem set_sort)
  ultimately show ?thesis
    using assms(1) rank sort_ends [OF assms(1)] by (auto simp: latency_stats_def Let_def)
qed

theorem latency_stats_percentile_witness: "\<exists>avg. latency_stats [3, 1, 2] = Some (avg, 1, 3, 3)"
  using latency_stats_percentile [of "[3, 1, 2]"] by auto

end
