(* ===== verification/Ycsb.thy ===== *)
theory Ycsb
  imports Bencher Refcli
begin

text \<open>
  The driver of a YCSB process (\<open>runner/src/bin/bencher/ycsb.rs\<close>): how an output line of the YCSB basic
  driver becomes a call of the key-value store, and the feeder thread that sends the calls of one YCSB
  process to one client and records how long each took.

  The set of inserted keys is a sorted list without repetitions, as iterating over a \<open>BTreeSet\<close> gives
  it.  An \<open>Instant\<close> is a number of nanoseconds.  The feeder uses its client through the record
  \<open>client_ops\<close>, extended with the clock.  The runner is built in release mode, so that \<open>scnt - 1\<close> wraps
  around.
\<close>

section \<open>Translating a line\<close>

definition ycsb_profile :: "char \<Rightarrow> string rust" where
  "ycsb_profile workload =
     (if workload = CHR ''a'' then Done ''ycsb/workloads/workloada''
      else if workload = CHR ''b'' then Done ''ycsb/workloads/workloadb''
      else if workload = CHR ''c'' then Done ''ycsb/workloads/workloadc''
      else if workload = CHR ''d'' then Done ''ycsb/workloads/workloadd''
      else if workload = CHR ''e'' then Done ''ycsb/workloads/workloade''
      else if workload = CHR ''f'' then Done ''ycsb/workloads/workloadf''
      else Panic ''internal error: entered unreachable code'')"

fun parse_ycsb_key :: "string list \<Rightarrow> RunnerError + (string \<times> string list)" where
  "parse_ycsb_key (table # key # segs) = Inr (table @ ''_'' @ key, segs)"
| "parse_ycsb_key _ = Inl (Parse ''missing key segment'')"

fun parse_ycsb_value :: "string list \<Rightarrow> RunnerError + string" where
  "parse_ycsb_value [] = Inl (Parse ''no value start bracket'')"
| "parse_ycsb_value (s # segs) =
     (if s \<noteq> ''['' then Inl (Parse ''no value start bracket'')
      else Inr (foldl (\<lambda>value seg. value @ ''_'' @ seg) [] segs))"

text \<open>\<open>str::parse::<usize>\<close>: decimal digits after an optional plus sign.\<close>

definition is_digit :: "char \<Rightarrow> bool" where
  "is_digit c \<longleftrightarrow> 48 \<le> (of_char c :: nat) \<and> (of_char c :: nat) \<le> 57"

fun parse_digits :: "string \<Rightarrow> nat \<Rightarrow> string + nat" where
  "parse_digits [] acc = Inr acc"
| "parse_digits (c # cs) acc =
     (if \<not> is_digit c then Inl ''invalid digit found in string''
      else if 10 * acc + (of_char c - 48) \<ge> 2 ^ 64 then Inl ''number too large to fit in target type''
      else parse_digits cs (10 * acc + (of_char c - 48)))"

definition parse_usize :: "string \<Rightarrow> string + usize" where
  "parse_usize s =
     (if s = [] then Inl ''cannot parse integer from empty string''
      else if s = ''+'' then Inl ''invalid digit found in string''
      else map_sum id of_nat (parse_digits (if hd s = CHR ''+'' then tl s else s) 0))"

fun parse_ycsb_scnt :: "string list \<Rightarrow> RunnerError + usize" where
  "parse_ycsb_scnt [] = Inl (Parse ''missing scan count'')"
| "parse_ycsb_scnt (s # segs) = map_sum (\<lambda>e. impl_from (ParseIntError e)) id (parse_usize s)"

text \<open>\<open>ikeys.range(key_start..).nth(scnt - 1).unwrap_or(ikeys.last().unwrap())\<close>.\<close>

definition scan_end :: "string list \<Rightarrow> string \<Rightarrow> usize \<Rightarrow> string" where
  "scan_end ikeys key_start scnt =
     (let range = filter (\<lambda>k. key_start \<le> k) ikeys; i = unat (scnt - 1)
      in if i < length range then range ! i else last ikeys)"

definition interpret_ycsb_call ::
  "string \<Rightarrow> string list \<Rightarrow> RunnerError + ((KvCall \<times> string) option \<times> string list)" where
  "interpret_ycsb_call line ikeys =
     (case split_whitespace line of
        [] \<Rightarrow> Inr (None, ikeys)
      | op # segs \<Rightarrow>
          if op = ''INSERT'' then
            (case parse_ycsb_key segs of
               Inl e \<Rightarrow> Inl e
             | Inr (key, segs1) \<Rightarrow>
                 (case parse_ycsb_value segs1 of
                    Inl e \<Rightarrow> Inl e
                  | Inr value \<Rightarrow> Inr (Some (CPut key value, ''INSERT''), insort_insert key ikeys)))
          else if op = ''UPDATE'' then
            (case parse_ycsb_key segs of
               Inl e \<Rightarrow> Inl e
             | Inr (key, segs1) \<Rightarrow>
                 (case parse_ycsb_value segs1 of
                    Inl e \<Rightarrow> Inl e
                  | Inr value \<Rightarrow> Inr (Some (CSwap key value, ''UPDATE''), ikeys)))
          else if op = ''READ'' then
            (case parse_ycsb_key segs of
               Inl e \<Rightarrow> Inl e
             | Inr (key, _) \<Rightarrow> Inr (Some (CGet key, ''READ''), ikeys))
          else if op = ''SCAN'' then
            (case parse_ycsb_key segs of
               Inl e \<Rightarrow> Inl e
             | Inr (key_start, segs1) \<Rightarrow>
                 if ikeys = [] then Inr (Some (CScan key_start ''zzzzzzzz'', ''SCAN''), ikeys)
                 else
                   (case parse_ycsb_scnt segs1 of
                      Inl e \<Rightarrow> Inl e
                    | Inr scnt \<Rightarrow>
                        Inr (Some (CScan key_start (scan_end ikeys key_start scnt), ''SCAN''), ikeys)))
          else Inr (None, ikeys))"

section \<open>Feeding the client\<close>

record 'w bench_ops = "'w client_ops" +
  now_op :: "'w \<Rightarrow> nat \<times> 'w"

record 'w feed =
  fd_stdout :: reader
  fd_line :: string
  fd_ikeys :: "string list"
  fd_stats :: bench_stats
  fd_ended :: bool
  fd_started :: "nat option"
  fd_last_end :: "nat option"
  fd_world :: 'w

definition BENCH_RESP_TIMEOUT :: nat where "BENCH_RESP_TIMEOUT = 60"

text \<open>\<open>Duration::as_secs_f64\<close> of a number of nanoseconds.\<close>

definition as_secs_f64 :: "nat \<Rightarrow> f64" where
  "as_secs_f64 ns =
     f64_add (f64_of_nat (ns div 1000000000)) (f64_div (f64_of_nat (ns mod 1000000000)) 1000000000)"

text \<open>\<open>str::contains\<close> and \<open>str::starts_with\<close>.\<close>

definition starts_with :: "string \<Rightarrow> string \<Rightarrow> bool" where
  "starts_with pat s \<longleftrightarrow> take (length pat) s = pat"

fun contains :: "string \<Rightarrow> string \<Rightarrow> bool" where
  "contains pat [] \<longleftrightarrow> pat = []"
| "contains pat (c # s) \<longleftrightarrow> starts_with pat (c # s) \<or> contains pat s"

text \<open>The synchronous call: the client is asked, and the time it took is recorded.\<close>

definition feed_call ::
  "'w bench_ops \<Rightarrow> nat \<Rightarrow> KvCall \<Rightarrow> string \<Rightarrow> 'w feed \<Rightarrow> RunnerError option \<times> 'w feed" where
  "feed_call C cli call op st =
     (let (start, w1) = now_op C (fd_world st);
          (sent, w2) = send_call_op C cli call w1
      in case sent of
           Inl e \<Rightarrow> (Some e, st\<lparr>fd_world := w2\<rparr>)
         | Inr _ \<Rightarrow>
             (let (got, w3) = wait_resp_op C cli BENCH_RESP_TIMEOUT w2
              in case got of
                   Inl e \<Rightarrow> (Some e, st\<lparr>fd_world := w3\<rparr>)
                 | Inr _ \<Rightarrow>
                     (let (stop1, w4) = now_op C w3; (stop2, w5) = now_op C w4
                      in (None,
                          st\<lparr>fd_started := (if fd_started st = None then Some start else fd_started st),
                             fd_last_end := Some stop2,
                             fd_stats := record_op op (f64_of_nat ((stop1 - start) div 1000)) (fd_stats st),
                             fd_world := w5\<rparr>))))"

definition feed_a_line :: "'w bench_ops \<Rightarrow> nat \<Rightarrow> 'w feed \<Rightarrow> RunnerError option \<times> 'w feed" where
  "feed_a_line C cli st =
     (case read_line (fd_stdout st) [] of
        Inl e \<Rightarrow> (Some (impl_from (IoError e)), st\<lparr>fd_line := []\<rparr>)
      | Inr (sz, line, stdout') \<Rightarrow>
          (let st1 = st\<lparr>fd_line := line, fd_stdout := stdout'\<rparr>
           in if sz = 0 then (None, st1\<lparr>fd_ended := True\<rparr>)
              else if trim line = [] then (None, st1)
              else
                (case interpret_ycsb_call line (fd_ikeys st) of
                   Inl e \<Rightarrow> (Some e, st1)
                 | Inr (Some (call, op), ikeys') \<Rightarrow> feed_call C cli call op (st1\<lparr>fd_ikeys := ikeys'\<rparr>)
                 | Inr (None, ikeys') \<Rightarrow>
                     if starts_with ''['' line then (None, st1)
                     else if contains ''No such file'' line then (Some (Io line), st1)
                     else (None, st1))))"

text \<open>
  What a line that was read leaves to be read.
\<close>

lemma utf8_len_0 [simp]: "utf8_len s = 0 \<longleftrightarrow> s = []" "0 < utf8_len s \<longleftrightarrow> s \<noteq> []"
  by (cases s; simp add: utf8_len_def)+

lemma read_line_shorter:
  assumes "read_line rd buf = Inr (sz, line, rd')" and "sz \<noteq> 0"
  shows "length (rd_input rd') < length (rd_input rd)"
proof (cases rd rule: reader_cases)
  case (line l rest f)
  with assms show ?thesis by (auto simp: read_line_line)
next
  case last
  with assms(1) have "sz = utf8_len (rd_input rd)" and rd': "rd' = rd\<lparr>rd_input := []\<rparr>"
    by (auto simp: read_line_eof split: option.splits)
  with assms(2) show ?thesis by (simp add: rd')
qed

lemma feed_call_keeps [simp]:
  "fd_stdout (snd (feed_call C cli call op st)) = fd_stdout st"
  "fd_ended (snd (feed_call C cli call op st)) = fd_ended st"
  "fd_ikeys (snd (feed_call C cli call op st)) = fd_ikeys st"
  by (simp_all add: feed_call_def Let_def case_prod_unfold split: sum.split)

lemma feed_a_line_stdout:
  "read_line (fd_stdout st) [] = Inr (sz, line, rd') \<Longrightarrow> fd_stdout (snd (feed_a_line C cli st)) = rd'"
  by (simp add: feed_a_line_def Let_def split: sum.split option.split prod.split)

lemma feed_a_line_shorter:
  assumes "feed_a_line C cli st = (None, st')" and "\<not> fd_ended st'"
  shows "length (rd_input (fd_stdout st')) < length (rd_input (fd_stdout st))"
proof (cases "read_line (fd_stdout st) []")
  case (Inl e)
  with assms(1) show ?thesis by (simp add: feed_a_line_def)
next
  case (Inr res)
  obtain sz line rd' where res: "res = (sz, line, rd')" by (cases res)
  have "fd_ended st'" if "sz = 0" using that Inr res assms(1) by (auto simp: feed_a_line_def Let_def)
  with assms(2) have "sz \<noteq> 0" by blast
  moreover have "fd_stdout st' = rd'" using feed_a_line_stdout [of st sz line rd' C cli] Inr res assms(1) by simp
  ultimately show ?thesis using read_line_shorter Inr res by blast
qed

text \<open>
  The loop of the thread, with the error messages it prints.  A closed channel is not reported.
\<close>

function feeder_loop :: "'w bench_ops \<Rightarrow> nat \<Rightarrow> 'w feed \<Rightarrow> string list \<times> 'w feed" where
  "feeder_loop C cli st =
     (case feed_a_line C cli st of
        (Some err, st') \<Rightarrow> (if is_chan err then [] else [''Error in feeder: '' @ fmt err], st')
      | (None, st') \<Rightarrow> if fd_ended st' then ([], st') else feeder_loop C cli st')"
  by pat_completeness auto
termination
  by (relation "measure (\<lambda>(C, cli, st). length (rd_input (fd_stdout st)))")
    (auto intro: feed_a_line_shorter [OF sym])

declare feeder_loop.simps [simp del]

definition feed_init :: "reader \<Rightarrow> string list \<Rightarrow> 'w \<Rightarrow> 'w feed" where
  "feed_init stdout ikeys w =
     \<lparr>fd_stdout = stdout, fd_line = [], fd_ikeys = ikeys, fd_stats = bench_stats_new, fd_ended = False,
      fd_started = None, fd_last_end = None, fd_world = w\<rparr>"

definition feeder_thread ::
  "'w bench_ops \<Rightarrow> nat \<Rightarrow> reader \<Rightarrow> string list \<Rightarrow> 'w
     \<Rightarrow> (bench_stats \<times> string list) option \<times> string list \<times> 'w" where
  "feeder_thread C cli stdout ikeys w =
     (let (errs, st) = feeder_loop C cli (feed_init stdout ikeys w);
          (stopped, w') = stop_op C cli (fd_world st);
          errs' = errs @ (case stopped of Inl err \<Rightarrow> [''Error stopping client: '' @ fmt err] | Inr _ \<Rightarrow> [])
      in if \<not> fd_ended st then (None, errs', w')
         else
           (let stats = (case (fd_started st, fd_last_end st) of
                           (Some start, Some stop) \<Rightarrow>
                             (fd_stats st)\<lparr>total_ms := f64_mul (as_secs_f64 (stop - start)) 1000\<rparr>
                         | _ \<Rightarrow> fd_stats st)
            in (Some (stats\<lparr>merged := 1\<rparr>, fd_ikeys st), errs', w')))"

section \<open>The driver\<close>

text \<open>
  A driver as the benchmark sees it: the YCSB process and its feeder thread, which is still running
  when the time limit is over, has panicked, or has finished with its result.
\<close>

datatype feeder = Running | Died | Returned "(bench_stats \<times> string list) option"

record ycsb_driver =
  yd_handle :: child
  yd_feeder :: feeder

definition ycsb_command :: "string \<Rightarrow> usize \<Rightarrow> bool \<Rightarrow> string list" where
  "ycsb_command profile num_ops load =
     [''ycsb/bin/ycsb.sh'', if load then ''load'' else ''run'', ''basic'', ''-P'', profile, ''-p'',
      ''operationcount='' @ digits (unat num_ops)]"

text \<open>
  Starting a driver.  The operating system is a parameter: starting the YCSB process fails, or gives the
  process, its output, and whether the feeder takes longer than the time limit of \<open>wait\<close>.
\<close>

definition YcsbDriver_exec ::
  "(string list \<Rightarrow> string + (child \<times> reader \<times> bool)) \<Rightarrow> 'w bench_ops \<Rightarrow> char \<Rightarrow> usize \<Rightarrow> bool \<Rightarrow> nat \<Rightarrow> 'w
     \<Rightarrow> string list \<Rightarrow> (RunnerError + ycsb_driver) rust" where
  "YcsbDriver_exec os C workload num_ops load cli w ikeys =
     (case ycsb_profile workload of
        Panic m \<Rightarrow> Panic m
      | Done profile \<Rightarrow>
          (case os (ycsb_command profile num_ops load) of
             Inl e \<Rightarrow> Done (Inl (impl_from (IoError e)))
           | Inr (handle, stdout, slow) \<Rightarrow>
               Done (Inr \<lparr>yd_handle = handle,
                          yd_feeder = (if slow then Running
                                       else Returned (fst (feeder_thread C cli stdout ikeys w)))\<rparr>)))"

definition driver_wait :: "ycsb_driver \<Rightarrow> RunnerError + (bench_stats \<times> string list) option" where
  "driver_wait d =
     (case yd_feeder d of
        Running \<Rightarrow> Inl (impl_from (RecvTimeoutError ''timed out waiting on channel''))
      | Died \<Rightarrow> Inl (impl_from (RecvTimeoutError ''channel is empty and sending half is closed''))
      | Returned res \<Rightarrow> (case kill (yd_handle d) of Inl e \<Rightarrow> Inl e | Inr _ \<Rightarrow> Inr res))"

section \<open>Lines of the output\<close>

text \<open>The lines of a text, each with its newline.\<close>

fun lines_of :: "string \<Rightarrow> string list" where
  "lines_of [] = []"
| "lines_of (c # s) =
     (if c = newline then [c] # lines_of s
      else (case lines_of s of [] \<Rightarrow> [[c]] | l # ls \<Rightarrow> (c # l) # ls))"

lemma lines_of_line: "newline \<notin> set l \<Longrightarrow> lines_of (l @ newline # rest) = (l @ [newline]) # lines_of rest"
  by (induction l) auto

lemma lines_of_last: "newline \<notin> set l \<Longrightarrow> lines_of l = (if l = [] then [] else [l])"
  by (induction l) auto

lemma read_line_lines:
  assumes "read_line rd [] = Inr (sz, line, rd')"
  shows "if sz = 0 then rd_input rd = [] else lines_of (rd_input rd) = line # lines_of (rd_input rd')"
proof (cases rd rule: reader_cases)
  case (line l rest f)
  with assms show ?thesis by (auto simp: read_line_line lines_of_line)
next
  case last
  with assms have "sz = utf8_len (rd_input rd)" "line = rd_input rd" "rd' = rd\<lparr>rd_input := []\<rparr>"
    by (auto simp: read_line_eof split: option.splits)
  with last show ?thesis by (simp add: lines_of_last)
qed

text \<open>The operation a line stands for, and the key it inserts.\<close>

definition line_op :: "string \<Rightarrow> string option" where
  "line_op line =
     (case split_whitespace line of
        [] \<Rightarrow> None
      | op # _ \<Rightarrow> if op \<in> {''INSERT'', ''UPDATE'', ''READ'', ''SCAN''} then Some op else None)"

definition inserted_key :: "string \<Rightarrow> string option" where
  "inserted_key line =
     (case split_whitespace line of
        op # table # key # _ \<Rightarrow> if op = ''INSERT'' then Some (table @ ''_'' @ key) else None
      | _ \<Rightarrow> None)"

lemma parse_ycsb_key_Inr:
  "parse_ycsb_key segs = Inr (key, segs') \<longleftrightarrow> (\<exists>t k. segs = t # k # segs' \<and> key = t @ ''_'' @ k)"
  by (cases segs rule: parse_ycsb_key.cases) auto

lemma interpret_ycsb_call_op:
  assumes "interpret_ycsb_call line ikeys = Inr (r, ikeys')"
  shows "map_option snd r = line_op line"
    and "ikeys' = (case inserted_key line of None \<Rightarrow> ikeys | Some k \<Rightarrow> insort_insert k ikeys)"
  using assms
  by (auto simp: interpret_ycsb_call_def line_op_def inserted_key_def parse_ycsb_key_Inr
      split: list.splits if_splits sum.splits prod.splits)

lemma blank_line: "trim line = [] \<Longrightarrow> line_op line = None \<and> inserted_key line = None"
  by (simp add: trim_eq_Nil_iff split_whitespace_Nil_iff [symmetric] line_op_def inserted_key_def)

lemma feed_call_stats:
  "feed_call C cli call op st = (None, st') \<Longrightarrow> \<exists>x. fd_stats st' = record_op op x (fd_stats st)"
  by (auto simp: feed_call_def Let_def case_prod_unfold split: sum.splits)

lemma samples_of_record: "samples_of (record_op op' x st) op = samples_of st op @ (if op = op' then [x] else [])"
  by (simp add: samples_of_def record_op_def entry_extend_lookup)

lemma record_op_distinct:
  "distinct (map fst (lat_samples st)) \<Longrightarrow> distinct (map fst (lat_samples (record_op op x st)))"
  by (simp add: record_op_def entry_extend_distinct)

lemma record_op_neq [simp]: "st = record_op op x st \<longleftrightarrow> False"
  using total_ops_record [of op x st] by auto

text \<open>
  One line: the end of the output, or a line whose operation and inserted key are recorded.
\<close>

lemma feed_a_line_step:
  assumes step: "feed_a_line C cli st = (None, st')" and "\<not> fd_ended st"
  shows "if fd_ended st'
    then rd_input (fd_stdout st) = [] \<and> fd_stats st' = fd_stats st \<and> fd_ikeys st' = fd_ikeys st
    else \<exists>line. lines_of (rd_input (fd_stdout st)) = line # lines_of (rd_input (fd_stdout st'))
      \<and> (case line_op line of None \<Rightarrow> fd_stats st' = fd_stats st
          | Some op \<Rightarrow> \<exists>x. fd_stats st' = record_op op x (fd_stats st))
      \<and> fd_ikeys st' = (case inserted_key line of None \<Rightarrow> fd_ikeys st | Some k \<Rightarrow> insort_insert k (fd_ikeys st))"
proof -
  from step obtain sz line rd' where rd: "read_line (fd_stdout st) [] = Inr (sz, line, rd')"
    by (auto simp: feed_a_line_def split: sum.splits)
  note lines = read_line_lines [OF rd]
  have out: "fd_stdout st' = rd'" using feed_a_line_stdout [OF rd, of C cli] step by simp
  consider (eof) "sz = 0" | (blank) "sz \<noteq> 0" "trim line = []"
    | (ycsb) r ikeys' where "sz \<noteq> 0" "trim line \<noteq> []" "interpret_ycsb_call line (fd_ikeys st) = Inr (r, ikeys')"
    using step rd by (cases "interpret_ycsb_call line (fd_ikeys st)") (auto simp: feed_a_line_def Let_def split: if_splits)
  then show ?thesis
  proof cases
    case eof
    with step rd lines show ?thesis by (auto simp: feed_a_line_def Let_def)
  next
    case blank
    with step rd have "st' = st\<lparr>fd_line := line, fd_stdout := rd'\<rparr>" by (simp add: feed_a_line_def Let_def)
    with blank_line [OF blank(2)] blank(1) lines assms(2) show ?thesis by auto
  next
    case ycsb
    note op = interpret_ycsb_call_op [OF ycsb(3)]
    show ?thesis
    proof (cases r)
      case None
      with step rd ycsb have "st' = st\<lparr>fd_line := line, fd_stdout := rd'\<rparr>"
        by (auto simp: feed_a_line_def Let_def split: if_splits)
      moreover have "ikeys' = fd_ikeys st"
        using ycsb(3) None by (auto simp: interpret_ycsb_call_def split: list.splits if_splits sum.splits prod.splits)
      ultimately show ?thesis using None op ycsb(1) lines assms(2) by auto
    next
      case (Some co)
      obtain call oper where co: "co = (call, oper)" by (cases co)
      let ?st1 = "st\<lparr>fd_line := line, fd_stdout := rd', fd_ikeys := ikeys'\<rparr>"
      have fc: "feed_call C cli call oper ?st1 = (None, st')"
        using step rd ycsb Some co by (simp add: feed_a_line_def Let_def)
      with feed_call_keeps [of C cli call oper ?st1]
      have "fd_ikeys st' = ikeys'" "\<not> fd_ended st'" using assms(2) by simp_all
      moreover obtain x where "fd_stats st' = record_op oper x (fd_stats st)"
        using feed_call_stats [OF fc] by auto
      moreover have "line_op line = Some oper" using op(1) Some co by auto
      ultimately show ?thesis using op(2) ycsb(1) lines out by auto
    qed
  qed
qed

lemma feed_a_line_error:
  assumes "feed_a_line C cli st = (Some e, st')" shows "fd_ended st' = fd_ended st"
proof -
  have "fd_ended (snd (feed_a_line C cli st)) = fd_ended st" if "fst (feed_a_line C cli st) \<noteq> None"
    using that by (auto simp: feed_a_line_def Let_def split: sum.split option.split if_splits prod.split)
  with assms show ?thesis by simp
qed

text \<open>The samples of an operation type that a text of lines is to leave, and the keys it inserts.\<close>

abbreviation op_count :: "string \<Rightarrow> string list \<Rightarrow> nat" where
  "op_count op ls \<equiv> length (filter (\<lambda>l. line_op l = Some op) ls)"

abbreviation inserted_keys :: "string list \<Rightarrow> string list" where
  "inserted_keys ls \<equiv> List.map_filter inserted_key ls"

lemma feeder_loop_records:
  "feeder_loop C cli st = (errs, st') \<Longrightarrow> \<not> fd_ended st \<Longrightarrow> fd_ended st' \<Longrightarrow>
   length (samples_of (fd_stats st') op) = length (samples_of (fd_stats st) op) + op_count op (lines_of (rd_input (fd_stdout st)))
   \<and> fd_ikeys st' = fold insort_insert (inserted_keys (lines_of (rd_input (fd_stdout st)))) (fd_ikeys st)
   \<and> errs = []
   \<and> (distinct (map fst (lat_samples (fd_stats st))) \<longrightarrow> distinct (map fst (lat_samples (fd_stats st'))))"
proof (induction C cli st rule: feeder_loop.induct)
  case (1 C cli st)
  obtain r st1 where step: "feed_a_line C cli st = (r, st1)" by fastforce
  show ?case
  proof (cases r)
    case (Some e)
    with 1 step show ?thesis by (auto simp: feeder_loop.simps [of C cli st] dest: feed_a_line_error)
  next
    case None
    note line = feed_a_line_step [OF step [unfolded None] "1.prems"(2)]
    show ?thesis
    proof (cases "fd_ended st1")
      case True
      with line "1.prems" step None show ?thesis
        by (auto simp: feeder_loop.simps [of C cli st] map_filter_simps)
    next
      case False
      with "1.prems" step None have "feeder_loop C cli st1 = (errs, st')"
        by (simp add: feeder_loop.simps [of C cli st])
      from "1.IH" [OF step [symmetric] None False this False "1.prems"(3)] line False show ?thesis
        by (auto simp: map_filter_simps samples_of_record record_op_distinct split: option.splits)
    qed
  qed
qed

lemma feeder_thread_records:
  assumes "fst (feeder_thread C cli stdout ikeys w) = Some (stats, ikeys')"
  shows "length (samples_of stats op) = length (filter (\<lambda>l. line_op l = Some op) (lines_of (rd_input stdout)))
    \<and> merged stats = 1
    \<and> set ikeys' = set ikeys \<union> {k. \<exists>l \<in> set (lines_of (rd_input stdout)). inserted_key l = Some k}
    \<and> distinct (map fst (lat_samples stats))"
proof -
  obtain errs st where loop: "feeder_loop C cli (feed_init stdout ikeys w) = (errs, st)" by fastforce
  with assms have "fd_ended st" and st: "lat_samples stats = lat_samples (fd_stats st)" "merged stats = 1" "ikeys' = fd_ikeys st"
    by (auto simp: feeder_thread_def Let_def split: prod.splits if_splits option.splits)
  note rec = feeder_loop_records [OF loop _ \<open>fd_ended st\<close>, unfolded feed_init_def, simplified, of op]
  have "set (fold insort_insert xs ys) = set ys \<union> set xs" for xs ys :: "string list"
    by (induction xs arbitrary: ys) (auto simp: set_insort_insert)
  moreover have "set (inserted_keys ls) = {k. \<exists>l \<in> set ls. inserted_key l = Some k}" for ls
    by (induction ls) (auto simp: map_filter_simps split: option.split)
  ultimately show ?thesis using rec st by (auto simp: samples_of_def bench_stats_new_def)
qed

section \<open>Lines that can be fed\<close>

text \<open>
  The lines on which the translation does not fail: complete calls, and other lines, unless they report
  a missing file.
\<close>

definition line_ok :: "string \<Rightarrow> bool" where
  "line_ok line =
     (case split_whitespace line of
        [] \<Rightarrow> True
      | op # segs \<Rightarrow>
          if op = ''INSERT'' \<or> op = ''UPDATE'' then 3 \<le> length segs \<and> segs ! 2 = ''[''
          else if op = ''READ'' then 2 \<le> length segs
          else if op = ''SCAN'' then 3 \<le> length segs \<and> \<not> isl (parse_usize (segs ! 2))
          else starts_with ''['' line \<or> \<not> contains ''No such file'' line)"

lemma parse_ycsb_key_long: "2 \<le> length segs \<Longrightarrow> parse_ycsb_key segs = Inr (segs ! 0 @ ''_'' @ segs ! 1, drop 2 segs)"
  by (cases segs rule: parse_ycsb_key.cases) auto

lemma interpret_line_ok:
  assumes "line_ok line"
  shows "\<exists>r ikeys'. interpret_ycsb_call line ikeys = Inr (r, ikeys')
    \<and> (r = None \<longrightarrow> starts_with ''['' line \<or> \<not> contains ''No such file'' line \<or> trim line = [])"
proof (cases "split_whitespace line")
  case Nil
  then have "trim line = []" by (simp add: trim_eq_Nil_iff split_whitespace_Nil_iff)
  with Nil show ?thesis by (simp add: interpret_ycsb_call_def)
next
  case (Cons op segs)
  consider "op \<in> {''INSERT'', ''UPDATE''}" | "op = ''READ''" | "op = ''SCAN''"
    | "op \<notin> {''INSERT'', ''UPDATE'', ''READ'', ''SCAN''}" by blast
  then show ?thesis
  proof cases
    case 1
    with assms Cons have "3 \<le> length segs" "segs ! 2 = ''[''" by (auto simp: line_ok_def)
    moreover from this obtain t k v where "segs = t # k # ''['' # v"
      by (auto simp: numeral_3_eq_3 Suc_le_length_iff)
    ultimately show ?thesis using 1 Cons by (auto simp: interpret_ycsb_call_def)
  next
    case 2
    with assms Cons show ?thesis by (auto simp: line_ok_def interpret_ycsb_call_def parse_ycsb_key_long)
  next
    case 3
    with assms Cons have "3 \<le> length segs" and n: "\<not> isl (parse_usize (segs ! 2))" by (auto simp: line_ok_def)
    then obtain t k m v where "segs = t # k # m # v" by (auto simp: numeral_3_eq_3 Suc_le_length_iff)
    with 3 Cons n show ?thesis by (cases "parse_usize m") (auto simp: interpret_ycsb_call_def)
  next
    case 4
    with assms Cons show ?thesis by (auto simp: line_ok_def interpret_ycsb_call_def)
  qed
qed

text \<open>
  Lines that can be fed one after the other, starting with the keys \<open>ikeys\<close>, such that every call is
  among the \<open>good\<close> ones; and the number of calls.
\<close>

fun feedable :: "(KvCall \<Rightarrow> bool) \<Rightarrow> string list \<Rightarrow> string list \<Rightarrow> bool" where
  "feedable good ikeys [] \<longleftrightarrow> True"
| "feedable good ikeys (l # ls) =
     (case interpret_ycsb_call l ikeys of
        Inl _ \<Rightarrow> False
      | Inr (Some (call, op), ikeys') \<Rightarrow> good call \<and> feedable good ikeys' ls
      | Inr (None, ikeys') \<Rightarrow>
          (starts_with ''['' l \<or> \<not> contains ''No such file'' l \<or> trim l = []) \<and> feedable good ikeys' ls)"

definition call_count :: "string list \<Rightarrow> nat" where
  "call_count ls = length (filter (\<lambda>l. line_op l \<noteq> None) ls)"

lemma line_ok_feedable: "list_all line_ok ls \<Longrightarrow> feedable (\<lambda>_. True) ikeys ls"
proof (induction ls arbitrary: ikeys)
  case (Cons l ls)
  then have "line_ok l" by simp
  from interpret_line_ok [OF this, of ikeys] Cons show ?case by (auto split: option.split)
qed simp

lemma blank_interpret: "trim l = [] \<Longrightarrow> interpret_ycsb_call l ikeys = Inr (None, ikeys)"
  by (simp add: trim_eq_Nil_iff split_whitespace_Nil_iff [symmetric] interpret_ycsb_call_def)

lemma read_line_fault: "read_line rd buf = Inr (sz, line, rd') \<Longrightarrow> rd_fault rd' = rd_fault rd"
  by (auto simp: read_line_def Let_def split: list.splits option.splits)

section \<open>The client a feeder needs\<close>

text \<open>
  What the feeder relies on: a client that is \<open>ready\<close> for a number of calls takes and answers each \<open>good\<close>
  call in time, and is then ready for one call less.  Reading the clock does not disturb it.
\<close>

locale bench_client =
  fixes C :: "'w bench_ops"
    and cli :: nat
    and ready :: "nat \<Rightarrow> 'w \<Rightarrow> bool"
    and good :: "KvCall \<Rightarrow> bool"
  assumes ready_now: "ready k w \<Longrightarrow> ready k (snd (now_op C w))"
    and ready_call: "ready (Suc k) w \<Longrightarrow> good call \<Longrightarrow>
      \<exists>w1 r w2. send_call_op C cli call w = (Inr (), w1)
        \<and> wait_resp_op C cli BENCH_RESP_TIMEOUT w1 = (Inr r, w2) \<and> ready k w2"
begin

lemma feed_call_good:
  assumes "ready (Suc k) (fd_world st)" and "good call"
  shows "fst (feed_call C cli call op st) = None \<and> ready k (fd_world (snd (feed_call C cli call op st)))"
proof -
  let ?w = "snd (now_op C (fd_world st))"
  obtain w1 r w2 where "send_call_op C cli call ?w = (Inr (), w1)"
    and "wait_resp_op C cli BENCH_RESP_TIMEOUT w1 = (Inr r, w2)" and w2: "ready k w2"
    using ready_call [OF ready_now [OF assms(1)] assms(2)] by blast
  then show ?thesis using ready_now [OF ready_now [OF w2]] by (simp add: feed_call_def Let_def case_prod_unfold)
qed

lemma feed_a_line_good:
  assumes rd: "rd_fault (fd_stdout st) = None" and "\<not> fd_ended st"
    and lines: "feedable good (fd_ikeys st) (lines_of (rd_input (fd_stdout st)))"
    and ready: "ready (call_count (lines_of (rd_input (fd_stdout st)))) (fd_world st)"
  shows "\<exists>st'. feed_a_line C cli st = (None, st') \<and> rd_fault (fd_stdout st') = None
    \<and> (\<not> fd_ended st' \<longrightarrow> feedable good (fd_ikeys st') (lines_of (rd_input (fd_stdout st')))
          \<and> ready (call_count (lines_of (rd_input (fd_stdout st')))) (fd_world st'))"
proof -
  obtain sz line rd' where r: "read_line (fd_stdout st) [] = Inr (sz, line, rd')"
    using rd by (cases "fd_stdout st" rule: reader_cases) (auto simp: read_line_line read_line_eof)
  then have rd': "rd_fault rd' = None" using read_line_fault rd by simp
  show ?thesis
  proof (cases "sz = 0")
    case True
    with r rd' show ?thesis by (simp add: feed_a_line_def Let_def)
  next
    case False
    with read_line_lines [OF r] have split: "lines_of (rd_input (fd_stdout st)) = line # lines_of (rd_input rd')" by simp
    from lines split obtain res ikeys' where int: "interpret_ycsb_call line (fd_ikeys st) = Inr (res, ikeys')"
      by (auto split: sum.splits)
    have count: "call_count (line # ls) = (if res = None then 0 else 1) + call_count ls" for ls
      using interpret_ycsb_call_op(1) [OF int] by (auto simp: call_count_def)
    let ?st1 = "st\<lparr>fd_line := line, fd_stdout := rd', fd_ikeys := ikeys'\<rparr>"
    show ?thesis
    proof (cases res)
      case None
      have "ikeys' = fd_ikeys st"
        using int None by (auto simp: interpret_ycsb_call_def split: list.splits if_splits sum.splits prod.splits)
      with None int False r split lines ready count rd' show ?thesis
        by (auto simp: feed_a_line_def Let_def blank_interpret)
    next
      case (Some co)
      obtain call op where co: "co = (call, op)" by (cases co)
      have "trim line \<noteq> []" using int Some by (auto simp: blank_interpret)
      then have step: "feed_a_line C cli st = feed_call C cli call op ?st1"
        using r False int Some co by (simp add: feed_a_line_def Let_def)
      have good: "good call" and rest: "feedable good ikeys' (lines_of (rd_input rd'))"
        using lines split int Some co by simp_all
      have "ready (Suc (call_count (lines_of (rd_input rd')))) (fd_world ?st1)"
        using ready split count Some by simp
      from feed_call_good [OF this good, of op] rest rd' show ?thesis
        unfolding step by (intro exI [of _ "snd (feed_call C cli call op ?st1)"]) (simp add: prod_eq_iff)
    qed
  qed
qed

lemma feeder_loop_ends:
  "rd_fault (fd_stdout st) = None \<Longrightarrow> \<not> fd_ended st \<Longrightarrow>
   feedable good (fd_ikeys st) (lines_of (rd_input (fd_stdout st))) \<Longrightarrow>
   ready (call_count (lines_of (rd_input (fd_stdout st)))) (fd_world st) \<Longrightarrow>
   fd_ended (snd (feeder_loop C cli st))"
proof (induction "length (rd_input (fd_stdout st))" arbitrary: st rule: less_induct)
  case less
  from feed_a_line_good [OF less.prems] obtain st' where step: "feed_a_line C cli st = (None, st')"
    and fault: "rd_fault (fd_stdout st') = None"
    and more: "\<not> fd_ended st' \<longrightarrow> feedable good (fd_ikeys st') (lines_of (rd_input (fd_stdout st')))
      \<and> ready (call_count (lines_of (rd_input (fd_stdout st')))) (fd_world st')" by blast
  show ?case
  proof (cases "fd_ended st'")
    case False
    from less.hyps [OF feed_a_line_shorter [OF step False] fault False] more False
    show ?thesis by (simp add: feeder_loop.simps [of C cli st] step)
  qed (simp add: feeder_loop.simps [of C cli st] step)
qed

lemma feeder_thread_Some:
  assumes "rd_fault stdout = None" and "feedable good ikeys (lines_of (rd_input stdout))"
    and "ready (call_count (lines_of (rd_input stdout))) w"
  shows "fst (feeder_thread C cli stdout ikeys w) \<noteq> None"
proof -
  have "fd_ended (snd (feeder_loop C cli (feed_init stdout ikeys w)))"
    by (rule feeder_loop_ends) (use assms in \<open>simp_all add: feed_init_def\<close>)
  then show ?thesis by (simp add: feeder_thread_def Let_def case_prod_unfold)
qed

end

text \<open>A client that takes every call and answers it in time is always ready.\<close>

definition responsive :: "'w bench_ops \<Rightarrow> nat \<Rightarrow> bool" where
  "responsive C cli \<longleftrightarrow>
     (\<forall>call w. \<not> isl (fst (send_call_op C cli call w))) \<and>
     (\<forall>w. \<not> isl (fst (wait_resp_op C cli BENCH_RESP_TIMEOUT w)))"

lemma responsive_client: "responsive C cli \<Longrightarrow> bench_client C cli (\<lambda>_ _. True) (\<lambda>_. True)"
proof unfold_locales
  fix call w assume *: "responsive C cli"
  obtain s w1 r w2 where sw: "send_call_op C cli call w = (s, w1)" "wait_resp_op C cli BENCH_RESP_TIMEOUT w1 = (r, w2)"
    by fastforce
  have "\<not> isl (fst (send_call_op C cli call w))" "\<not> isl (fst (wait_resp_op C cli BENCH_RESP_TIMEOUT w1))"
    using * unfolding responsive_def by blast+
  with sw show "\<exists>w1 r w2. send_call_op C cli call w = (Inr (), w1)
      \<and> wait_resp_op C cli BENCH_RESP_TIMEOUT w1 = (Inr r, w2) \<and> True"
    by (cases s; cases r) auto
qed simp

lemma feeder_responsive:
  assumes "responsive C cli" and "rd_fault stdout = None" and "list_all line_ok (lines_of (rd_input stdout))"
  shows "fst (feeder_thread C cli stdout ikeys w) \<noteq> None"
  using bench_client.feeder_thread_Some [OF responsive_client [OF assms(1)] assms(2) line_ok_feedable [OF assms(3)]]
  by blast

section \<open>The keys of scans\<close>

lemma sorted_filter_le_nth:
  fixes xs :: "'a :: linorder list"
  assumes "sorted_wrt (<) xs" and "i < length xs"
  shows "filter (\<lambda>k. k \<le> xs ! i) xs = take (Suc i) xs"
  using assms
proof (induction xs arbitrary: i)
  case (Cons x xs)
  show ?case
  proof (cases i)
    case 0
    with Cons.prems show ?thesis by (auto simp: filter_empty_conv)
  next
    case (Suc j)
    with Cons have "x \<le> xs ! j" by (auto intro: less_imp_le)
    with Cons Suc show ?thesis by simp
  qed
qed simp

lemma le_last:
  fixes xs :: "'a :: linorder list"
  shows "sorted_wrt (<) xs \<Longrightarrow> x \<in> set xs \<Longrightarrow> x \<le> last xs"
  by (induction xs) (auto simp: less_imp_le)

lemma scan_end_covers:
  assumes sorted: "sorted_wrt (<) ikeys" and "ikeys \<noteq> []" and "0 < scnt"
  shows "length (filter (\<lambda>k. a \<le> k \<and> k \<le> scan_end ikeys a scnt) ikeys) =
    min (unat scnt) (length (filter (\<lambda>k. a \<le> k) ikeys))"
proof -
  let ?r = "filter (\<lambda>k. a \<le> k) ikeys" and ?i = "unat (scnt - 1)"
  have split: "filter (\<lambda>k. a \<le> k \<and> k \<le> b) ikeys = filter (\<lambda>k. k \<le> b) ?r" for b
    by (simp add: filter_filter)
  have r: "sorted_wrt (<) ?r" using sorted by (rule sorted_wrt_filter)
  have n: "unat scnt = Suc ?i" using assms(3) by (simp add: unat_minus_one unat_gt_0 word_neq_0_conv)
  show ?thesis
  proof (cases "?i < length ?r")
    case True
    with sorted_filter_le_nth [OF r True] n show ?thesis
      unfolding split scan_end_def by (simp add: Let_def)
  next
    case False
    have "filter (\<lambda>k. k \<le> last ikeys) ?r = ?r" using le_last [OF sorted] by (intro filter_True) auto
    with False n show ?thesis unfolding split scan_end_def by (simp add: Let_def)
  qed
qed

lemma scan_end_reversed:
  assumes "ikeys \<noteq> []" and "\<forall>k \<in> set ikeys. k < a"
  shows "scan_end ikeys a scnt = last ikeys"
proof -
  have "filter (\<lambda>k. a \<le> k) ikeys = []" using assms(2) by (auto simp: filter_empty_conv not_le)
  then show ?thesis by (simp add: scan_end_def)
qed

lemma scan_end_ordered:
  assumes "sorted_wrt (<) ikeys" and "k \<in> set ikeys" and "a \<le> k"
  shows "a \<le> scan_end ikeys a scnt"
proof -
  from le_last [OF assms(1,2)] assms(3) have "a \<le> last ikeys" by simp
  moreover have "a \<le> filter (\<lambda>k. a \<le> k) ikeys ! i" if "i < length (filter (\<lambda>k. a \<le> k) ikeys)" for i
    using nth_mem [OF that] by simp
  ultimately show ?thesis by (simp add: scan_end_def Let_def)
qed

lemma scan_end_in: "ikeys \<noteq> [] \<Longrightarrow> scan_end ikeys a scnt \<in> set ikeys"
  unfolding scan_end_def Let_def by (auto dest: nth_mem)

lemma is_token_join: "is_token a \<Longrightarrow> is_token b \<Longrightarrow> is_token (a @ ''_'' @ b)"
  by (auto simp: is_token_def is_whitespace_def)

lemma parse_ycsb_value_Inr:
  assumes "parse_ycsb_value segs = Inr v"
  obtains segs' where "segs = ''['' # segs'" and "v = concat (map (\<lambda>s. ''_'' @ s) segs')"
proof -
  have fold: "foldl (\<lambda>value seg. value @ ''_'' @ seg) v segs = v @ concat (map (\<lambda>s. ''_'' @ s) segs)"
    for v and segs :: "string list"
    by (induction segs arbitrary: v) simp_all
  from assms show ?thesis
    by (cases segs) (auto simp: fold simp del: append.simps split: if_splits intro: that)
qed

lemma value_token:
  assumes "\<forall>s \<in> set segs. is_token s" and "parse_ycsb_value segs = Inr v"
  shows "v = [] \<or> is_token v"
proof -
  from assms(2) obtain segs' where "segs = ''['' # segs'" "v = concat (map (\<lambda>s. ''_'' @ s) segs')"
    by (rule parse_ycsb_value_Inr)
  with assms(1) show ?thesis by (auto simp: is_token_def list_all_iff is_whitespace_def)
qed

text \<open>The keys seen so far: sorted, and free of white space.\<close>

definition ikeys_ok :: "string list \<Rightarrow> bool" where
  "ikeys_ok ikeys \<longleftrightarrow> sorted_wrt (<) ikeys \<and> (\<forall>k \<in> set ikeys. is_token k)"

lemma ikeys_ok_insert: "ikeys_ok ikeys \<Longrightarrow> is_token k \<Longrightarrow> ikeys_ok (insort_insert k ikeys)"
  by (auto simp: ikeys_ok_def strict_sorted_iff sorted_insort_insert distinct_insort_insert set_insort_insert)

text \<open>A call is well formed, or it writes an empty value.\<close>

lemma interpret_call_cases:
  assumes ok: "ikeys_ok ikeys" and int: "interpret_ycsb_call line ikeys = Inr (Some (call, op), ikeys')"
  shows "ikeys_ok ikeys' \<and> (call_wf call \<or> (\<exists>k. is_token k \<and> (call = CPut k [] \<or> call = CSwap k [])))"
proof -
  from int obtain segs where line: "split_whitespace line = op # segs"
    using interpret_ycsb_call_op(1) [OF int] by (auto simp: line_op_def split: list.splits if_splits)
  then have tok: "\<forall>s \<in> set segs. is_token s" using split_whitespace_tokens [of _ line] by simp
  from int line obtain t k rest where segs: "segs = t # k # rest"
    by (cases segs rule: parse_ycsb_key.cases) (auto simp: interpret_ycsb_call_def split: if_splits)
  with tok have key: "is_token (t @ ''_'' @ k)" by (intro is_token_join) simp_all
  have val: "v = [] \<or> is_token v" if "parse_ycsb_value rest = Inr v" for v
    using that tok segs value_token [of rest] by simp
  have z: "is_token ''zzzzzzzz''" by (simp add: is_token_def is_whitespace_def)
  have "ikeys \<noteq> [] \<Longrightarrow> is_token (scan_end ikeys a n)" for a n
    using scan_end_in ok by (auto simp: ikeys_ok_def)
  with int line segs key val z ok ikeys_ok_insert [OF ok key] show ?thesis
    by (auto simp: interpret_ycsb_call_def split: if_splits sum.splits)
qed

section \<open>Properties\<close>

text \<open>C22: when a feeder thread succeeds, its statistics hold exactly one latency sample per call line of
  the YCSB output, for every operation type, they count as those of one client, and the keys it
  returns are the keys it was given and the keys of the \<open>INSERT\<close> lines.\<close>

theorem feeder_records_all:
  assumes "fst (feeder_thread C cli stdout ikeys w) = Some (stats, ikeys')"
  shows "length (samples_of stats op) = length (filter (\<lambda>l. line_op l = Some op) (lines_of (rd_input stdout)))
    \<and> merged stats = 1
    \<and> set ikeys' = set ikeys \<union> {k. \<exists>l \<in> set (lines_of (rd_input stdout)). inserted_key l = Some k}"
  using feeder_thread_records [OF assms, of op] by blast

text \<open>A client that answers at once, and an output of two calls.\<close>

definition instant_client :: "unit bench_ops" where
  "instant_client =
     \<lparr>send_call_op = \<lambda>_ _ w. (Inr (), w), wait_resp_op = \<lambda>_ _ w. (Inr RStop, w), stop_op = \<lambda>_ w. (Inr (), w),
      flush_op = \<lambda>w. (Inr (), w), now_op = \<lambda>w. (0, w)\<rparr>"

definition two_calls :: reader where
  "two_calls =
     \<lparr>rd_input = ''INSERT t k1 [ f=x ]'' @ newline # ''READ t k1 [ f ]'' @ [newline], rd_fault = None\<rparr>"

lemma two_calls_ok:
  "responsive instant_client 0" "rd_fault two_calls = None" "list_all line_ok (lines_of (rd_input two_calls))"
proof -
  show "responsive instant_client 0" by (simp add: responsive_def instant_client_def)
  show "rd_fault two_calls = None" by (simp add: two_calls_def)
  show "list_all line_ok (lines_of (rd_input two_calls))" by code_simp
qed

theorem feeder_records_all_witness:
  "\<exists>stats ikeys'. fst (feeder_thread instant_client 0 two_calls [] ()) = Some (stats, ikeys')
     \<and> length (samples_of stats ''READ'') = 1 \<and> set ikeys' = {''t_k1''}"
proof -
  have "fst (feeder_thread instant_client 0 two_calls [] ()) \<noteq> None"
    by (rule feeder_responsive [OF two_calls_ok])
  then obtain stats ikeys' where res: "fst (feeder_thread instant_client 0 two_calls [] ()) = Some (stats, ikeys')"
    by auto
  have lines: "lines_of (rd_input two_calls) = [''INSERT t k1 [ f=x ]'' @ [newline], ''READ t k1 [ f ]'' @ [newline]]"
    by code_simp
  have ops: "map line_op (lines_of (rd_input two_calls)) = [Some ''INSERT'', Some ''READ'']"
    "map inserted_key (lines_of (rd_input two_calls)) = [Some ''t_k1'', None]" by code_simp+
  from feeder_records_all [OF res, of "''READ''"] ops show ?thesis
    by (auto simp: res lines)
qed

text \<open>C23: the call that a YCSB line is translated to is the call that the reference client reads from its
  line, with one exception: an \<open>INSERT\<close> or \<open>UPDATE\<close> line with nothing after the bracket becomes a call
  with an empty value, which the reference client rejects.  The set of inserted keys stays sorted.\<close>

theorem ycsb_call_parsed:
  assumes "ikeys_ok ikeys" and "interpret_ycsb_call line ikeys = Inr (Some (call, op), ikeys')"
  shows "ikeys_ok ikeys' \<and>
    (if \<exists>k. call = CPut k [] \<or> call = CSwap k [] then isl (parse_input_call (trim (call_line call)))
     else parse_input_call (trim (call_line call)) = Inr call)"
proof -
  have words: "split_whitespace (w @ '' '' @ k @ '' '' @ [newline]) = [w, k]" if "is_token w" "is_token k" for w k
    using that split_whitespace_token [of w "CHR '' ''" "k @ '' '' @ [newline]"]
      split_whitespace_token [of k "CHR '' ''" "[newline]"] by simp
  have cmd: "is_token ''PUT''" "is_token ''SWAP''" by (simp_all add: is_token_def is_whitespace_def)
  have bad: "isl (parse_input_call (trim (call_line c)))" if "c = CPut k [] \<or> c = CSwap k []" "is_token k" for c k
    using that words [OF cmd(1) that(2)] words [OF cmd(2) that(2)]
    by (auto simp: parse_input_call_def two_segs_def ref_expect_next_seg_def)
  from interpret_call_cases [OF assms] show ?thesis
    using bad parse_call_line [of call] by (auto simp: is_token_def)
qed

theorem ycsb_call_parsed_witness:
  "parse_input_call (trim (call_line (CPut ''t_k'' ''_x_]''))) = Inr (CPut ''t_k'' ''_x_]'')
   \<and> isl (parse_input_call (trim (call_line (CPut ''t_k'' []))))"
proof -
  have ok: "ikeys_ok []" by (simp add: ikeys_ok_def)
  have full: "interpret_ycsb_call ''INSERT t k [ x ]'' [] = Inr (Some (CPut ''t_k'' ''_x_]'', ''INSERT''), [''t_k''])"
    and empty: "interpret_ycsb_call ''INSERT t k ['' [] = Inr (Some (CPut ''t_k'' [], ''INSERT''), [''t_k''])"
    by code_simp+
  from ycsb_call_parsed [OF ok full] ycsb_call_parsed [OF ok empty] show ?thesis by auto
qed

text \<open>C34: the scan of a YCSB line whose start key lies after every inserted key is reversed: it ends at the
  last inserted key, whatever the scan count.  A reference client that has stored a key panics on it; one
  that never stored any answers with no entries.\<close>

theorem ycsb_scan_reversed:
  assumes "split_whitespace line = ''SCAN'' # table # key # n # rest" and "parse_usize n = Inr scnt"
    and "ikeys \<noteq> []" and "\<forall>k \<in> set ikeys. k < table @ ''_'' @ key"
  shows "\<exists>a b. interpret_ycsb_call line ikeys = Inr (Some (CScan a b, ''SCAN''), ikeys) \<and> b < a
    \<and> handle_kv_call (CScan a b) st =
        (case st of
           NoRoot \<Rightarrow> Done (RScan a b [], NoRoot)
         | Root _ \<Rightarrow> Panic ''range start is greater than range end in BTreeMap'')"
proof -
  let ?a = "table @ ''_'' @ key"
  have "interpret_ycsb_call line ikeys = Inr (Some (CScan ?a (last ikeys), ''SCAN''), ikeys)"
    using assms scan_end_reversed [OF assms(3,4)] by (simp add: interpret_ycsb_call_def)
  moreover have "last ikeys < ?a" using assms(3,4) by simp
  ultimately show ?thesis by (auto split: btree.split)
qed

theorem ycsb_scan_reversed_witness:
  "\<exists>a b. interpret_ycsb_call ''SCAN t k9 5 [ ]'' [''t_k1'', ''t_k4''] = Inr (Some (CScan a b, ''SCAN''), [''t_k1'', ''t_k4''])
     \<and> b < a
     \<and> handle_kv_call (CScan a b) (Root [(''t_k5'', ''v'')]) = Panic ''range start is greater than range end in BTreeMap''"
proof -
  have "split_whitespace ''SCAN t k9 5 [ ]'' = ''SCAN'' # ''t'' # ''k9'' # ''5'' # [''['', '']'']" by code_simp
  moreover have "parse_usize ''5'' = Inr 5" by (simp add: parse_usize_def is_digit_def)
  moreover have "\<forall>k \<in> set [''t_k1'', ''t_k4'']. k < ''t'' @ ''_'' @ ''k9''" by code_simp
  ultimately show ?thesis
    using ycsb_scan_reversed [where st = "Root [(''t_k5'', ''v'')]"] by fastforce
qed

end
