(* ===== verification/Bench_Main.thy ===== *)
theory Bench_Main
  imports Ycsb
begin

text \<open>
  The benchmark itself (\<open>ycsb_bench\<close> and \<open>main\<close> of \<open>runner/src/bin/bencher/main.rs\<close>): a YCSB driver per
  client, first for the load phase, then for the run phase, which knows the keys that were loaded.

  The feeder threads of a phase run at the same time, but each of them talks to its own client only, so
  each has a world of its own: what the other clients do to the store shows in the answers that this
  world gives.  Starting processes is a parameter.  Sleeping is left out, and printing is reduced to
  the two statistics that are printed.
\<close>

definition VALID_WORKLOADS :: "char list" where
  "VALID_WORKLOADS = [CHR ''a'', CHR ''b'', CHR ''c'', CHR ''d'', CHR ''e'', CHR ''f'']"

record bench_args =
  ba_num_clis :: usize
  ba_num_ops :: usize
  ba_workload :: char
  ba_client_just_args :: "string list"

text \<open>
  What the benchmark gets from outside: the operations of a client and, for each phase and the index of a
  client in it, starting the client process and starting the YCSB process.
\<close>

record 'w bench_env =
  be_ops :: "'w bench_ops"
  be_client :: "bool \<Rightarrow> nat \<Rightarrow> string list \<Rightarrow> RunnerError + 'w"
  be_ycsb :: "bool \<Rightarrow> nat \<Rightarrow> string list \<Rightarrow> string + (child \<times> reader \<times> bool)"

text \<open>Sorted sets of keys, as \<open>BTreeSet\<close> is: inserting many.\<close>

definition set_extend :: "string list \<Rightarrow> string list \<Rightarrow> string list" where
  "set_extend ks m = fold insort_insert ks m"

fun collect ::
  "ycsb_driver list \<Rightarrow> bench_stats \<Rightarrow> string list \<Rightarrow> RunnerError + (bench_stats \<times> string list)" where
  "collect [] stats ikeys = Inr (stats, ikeys)"
| "collect (d # ds) stats ikeys =
     (case driver_wait d of
        Inl e \<Rightarrow> Inl e
      | Inr (Some (cli_stats, cli_ikeys)) \<Rightarrow>
          collect ds (merge stats cli_stats) (set_extend cli_ikeys ikeys)
      | Inr None \<Rightarrow> Inl (Io ''a YCSB driver process failed''))"

fun start_drivers ::
  "'w bench_env \<Rightarrow> bench_args \<Rightarrow> bool \<Rightarrow> string list \<Rightarrow> (nat \<times> 'w) list \<Rightarrow> (RunnerError + ycsb_driver list) rust" where
  "start_drivers E args load ikeys [] = Done (Inr [])"
| "start_drivers E args load ikeys ((cli, w) # clients) =
     (case YcsbDriver_exec (be_ycsb E load cli) (be_ops E) (ba_workload args) (ba_num_ops args) load cli w ikeys of
        Panic m \<Rightarrow> Panic m
      | Done (Inl e) \<Rightarrow> Done (Inl e)
      | Done (Inr d) \<Rightarrow> map_rust (map_sum id (\<lambda>ds. d # ds)) (start_drivers E args load ikeys clients))"

definition ycsb_bench ::
  "'w bench_env \<Rightarrow> bench_args \<Rightarrow> (nat \<times> 'w) list \<Rightarrow> bool \<Rightarrow> string list
     \<Rightarrow> (RunnerError + (bench_stats \<times> string list)) rust" where
  "ycsb_bench E args clients load ikeys =
     (case start_drivers E args load ikeys clients of
        Panic m \<Rightarrow> Panic m
      | Done (Inl e) \<Rightarrow> Done (Inl e)
      | Done (Inr drivers) \<Rightarrow> Done (collect drivers bench_stats_new []))"

fun new_clients :: "'w bench_env \<Rightarrow> bench_args \<Rightarrow> bool \<Rightarrow> nat list \<Rightarrow> RunnerError + (nat \<times> 'w) list" where
  "new_clients E args load [] = Inr []"
| "new_clients E args load (i # is) =
     (case be_client E load i (ba_client_just_args args) of
        Inl e \<Rightarrow> Inl e
      | Inr w \<Rightarrow> map_sum id (\<lambda>cs. (i, w) # cs) (new_clients E args load is))"

definition bench_phase ::
  "'w bench_env \<Rightarrow> bench_args \<Rightarrow> bool \<Rightarrow> string list \<Rightarrow> (RunnerError + (bench_stats \<times> string list)) rust" where
  "bench_phase E args load ikeys =
     (case new_clients E args load [0..<unat (ba_num_clis args)] of
        Inl e \<Rightarrow> Done (Inl e)
      | Inr clients \<Rightarrow> ycsb_bench E args clients load ikeys)"

definition bench_main :: "'w bench_env \<Rightarrow> bench_args \<Rightarrow> (RunnerError + (bench_stats \<times> bench_stats)) rust" where
  "bench_main E args =
     (if ba_num_clis args = 0 then Panic ''assertion `left != right` failed''
      else if ba_workload args \<notin> set VALID_WORKLOADS
      then Panic ''assertion failed: VALID_WORKLOADS.contains(&args.workload)''
      else
        (case bench_phase E args True [] of
           Panic m \<Rightarrow> Panic m
         | Done (Inl e) \<Rightarrow> Done (Inl e)
         | Done (Inr (stats_load, ikeys_load)) \<Rightarrow>
             (case bench_phase E args False ikeys_load of
                Panic m \<Rightarrow> Panic m
              | Done (Inl e) \<Rightarrow> Done (Inl e)
              | Done (Inr (stats_run, _)) \<Rightarrow> Done (Inr (stats_load, stats_run)))))"

section \<open>What the drivers deliver\<close>

text \<open>What the feeder of a YCSB output is to deliver: how many samples per operation, which keys.\<close>

definition out_ops :: "string \<Rightarrow> reader \<Rightarrow> nat" where
  "out_ops op out = op_count op (lines_of (rd_input out))"

definition out_keys :: "reader \<Rightarrow> string set" where
  "out_keys out = {k. \<exists>l \<in> set (lines_of (rd_input out)). inserted_key l = Some k}"

definition delivers :: "string list \<Rightarrow> reader \<Rightarrow> ycsb_driver \<Rightarrow> bool" where
  "delivers ikeys out d \<longleftrightarrow>
     (\<forall>stats keys. driver_wait d = Inr (Some (stats, keys)) \<longrightarrow>
        (\<forall>op. length (samples_of stats op) = out_ops op out) \<and> merged stats = 1
        \<and> set keys = set ikeys \<union> out_keys out \<and> distinct (map fst (lat_samples stats)))"

lemma exec_delivers:
  assumes "YcsbDriver_exec os C wl n load cli w ikeys = Done (Inr d)"
  shows "\<exists>profile h out slow. ycsb_profile wl = Done profile \<and> os (ycsb_command profile n load) = Inr (h, out, slow)
    \<and> delivers ikeys out d"
proof -
  from assms obtain profile h out slow where p: "ycsb_profile wl = Done profile"
    "os (ycsb_command profile n load) = Inr (h, out, slow)"
    and d: "d = \<lparr>yd_handle = h, yd_feeder = if slow then Running else Returned (fst (feeder_thread C cli out ikeys w))\<rparr>"
    by (auto simp: YcsbDriver_exec_def split: rust.splits sum.splits)
  have "fst (feeder_thread C cli out ikeys w) = Some (stats, keys)"
    if "driver_wait d = Inr (Some (stats, keys))" for stats keys
    using that by (auto simp: driver_wait_def d split: if_splits sum.splits)
  then have "delivers ikeys out d"
    using feeder_thread_records by (fastforce simp: delivers_def out_ops_def out_keys_def)
  with p show ?thesis by blast
qed

text \<open>The outputs of the YCSB processes of a phase.\<close>

definition ycsb_out :: "'w bench_env \<Rightarrow> bench_args \<Rightarrow> bool \<Rightarrow> nat \<Rightarrow> reader \<Rightarrow> bool" where
  "ycsb_out E args load cli out \<longleftrightarrow>
     (\<exists>profile h slow. ycsb_profile (ba_workload args) = Done profile \<and>
        be_ycsb E load cli (ycsb_command profile (ba_num_ops args) load) = Inr (h, out, slow))"

lemma start_drivers_deliver:
  "start_drivers E args load ikeys clients = Done (Inr ds) \<Longrightarrow>
   \<exists>outs. list_all2 (ycsb_out E args load) (map fst clients) outs \<and> list_all2 (delivers ikeys) outs ds"
proof (induction clients arbitrary: ds)
  case (Cons c clients)
  obtain cli w where c: "c = (cli, w)" by (cases c)
  from Cons.prems obtain d ds' where
    d: "YcsbDriver_exec (be_ycsb E load cli) (be_ops E) (ba_workload args) (ba_num_ops args) load cli w ikeys = Done (Inr d)"
    and rest: "start_drivers E args load ikeys clients = Done (Inr ds')" and ds: "ds = d # ds'"
    by (auto simp: c map_rust_Done_iff map_sum_Inr_iff split: rust.splits sum.splits)
  from exec_delivers [OF d] obtain out where "ycsb_out E args load cli out" "delivers ikeys out d"
    by (auto simp: ycsb_out_def)
  moreover from Cons.IH [OF rest] obtain outs where
    "list_all2 (ycsb_out E args load) (map fst clients) outs" "list_all2 (delivers ikeys) outs ds'" by blast
  ultimately show ?case unfolding c ds by (intro exI [of _ "out # outs"]) simp
qed simp

text \<open>
  Collecting: the statistics of \<open>m\<close> clients, with \<open>n\<close> more to come, never wrap around to \<open>merged = 0\<close>.
\<close>

lemma collect_counts:
  assumes "list_all2 (delivers ikeys) outs ds" and "collect ds st keys = Inr (stats, keys')"
    and "merged st = of_nat m" and "m = 0 \<longrightarrow> st = bench_stats_new" and "m + length outs < 2 ^ 64"
  shows "length (samples_of stats op) = length (samples_of st op) + (\<Sum>out\<leftarrow>outs. out_ops op out)
    \<and> merged stats = of_nat (m + length outs)
    \<and> set keys' = set keys \<union> (\<Union>out \<in> set outs. set ikeys \<union> out_keys out)"
  using assms
proof (induction outs ds arbitrary: st keys m rule: list_all2_induct)
  case Nil
  then show ?case by simp
next
  case (Cons out outs d ds)
  from Cons.prems(1) obtain s ks where wait: "driver_wait d = Inr (Some (s, ks))"
    and rest: "collect ds (merge st s) (set_extend ks keys) = Inr (stats, keys')"
    by (auto split: sum.splits option.splits)
  from Cons.hyps(1) wait have s: "length (samples_of s op) = out_ops op out" "merged s = 1"
    "set ks = set ikeys \<union> out_keys out" "distinct (map fst (lat_samples s))"
    by (auto simp: delivers_def)
  have m0: "merged st \<noteq> 0 \<or> st = bench_stats_new"
  proof (cases "m = 0")
    case False
    moreover have "unat (of_nat m :: usize) = m" using Cons.prems(4) by (simp add: unat_of_nat)
    ultimately have "(of_nat m :: usize) \<noteq> 0" by auto
    with Cons.prems(2) show ?thesis by simp
  qed (use Cons.prems(3) in simp)
  note mk = merge_keeps_samples [OF m0 s(4)]
  have keys: "set (set_extend ks keys) = set keys \<union> set ks"
    unfolding set_extend_def by (induction ks arbitrary: keys) (auto simp: set_insort_insert)
  have "merged (merge st s) = of_nat (Suc m)" using mk [of op] s(2) Cons.prems(2) by simp
  from Cons.IH [OF rest this] Cons.prems(4) mk [of op] s keys show ?case by auto
qed

lemma new_clients_indices: "new_clients E args load is = Inr cs \<Longrightarrow> map fst cs = is"
  by (induction "is" arbitrary: cs) (auto simp: map_sum_Inr_iff split: sum.splits)

lemma bench_phase_counts:
  assumes "bench_phase E args load ikeys = Done (Inr (stats, keys))"
  shows "\<exists>outs. list_all2 (ycsb_out E args load) [0..<unat (ba_num_clis args)] outs
    \<and> (\<forall>op. length (samples_of stats op) = (\<Sum>out\<leftarrow>outs. out_ops op out))
    \<and> merged stats = ba_num_clis args
    \<and> set keys = (\<Union>out \<in> set outs. set ikeys \<union> out_keys out)"
proof -
  let ?n = "unat (ba_num_clis args)"
  from assms obtain cs ds where cs: "new_clients E args load [0..<?n] = Inr cs"
    and ds: "start_drivers E args load ikeys cs = Done (Inr ds)"
    and col: "collect ds bench_stats_new [] = Inr (stats, keys)"
    by (auto simp: bench_phase_def ycsb_bench_def split: sum.splits rust.splits)
  from start_drivers_deliver [OF ds] new_clients_indices [OF cs] obtain outs where
    outs: "list_all2 (ycsb_out E args load) [0..<?n] outs" and del: "list_all2 (delivers ikeys) outs ds" by auto
  then have n: "length outs = ?n" by (auto dest: list_all2_lengthD)
  have "merged bench_stats_new = of_nat 0" "0 + length outs < 2 ^ 64" "samples_of bench_stats_new op = []" for op
    using n unsigned_less [of "ba_num_clis args"] by (simp_all add: bench_stats_new_def samples_of_def)
  with collect_counts [OF del col, of 0] outs n show ?thesis by auto
qed

section \<open>Benchmarks that come to their end\<close>

text \<open>
  An environment in which nothing fails: clients start and answer in time, the YCSB processes start,
  their outputs can be fed within the time limit, and the processes can be killed.
\<close>

definition ycsb_ok :: "string + (child \<times> reader \<times> bool) \<Rightarrow> bool" where
  "ycsb_ok r =
     (case r of Inl _ \<Rightarrow> False
      | Inr (h, out, slow) \<Rightarrow> \<not> slow \<and> ch_kill h = None \<and> rd_fault out = None \<and> list_all line_ok (lines_of (rd_input out)))"

definition env_ok :: "'w bench_env \<Rightarrow> bool" where
  "env_ok E \<longleftrightarrow>
     (\<forall>cli. responsive (be_ops E) cli) \<and> (\<forall>load cli a. \<not> isl (be_client E load cli a)) \<and>
     (\<forall>load cli cmd. ycsb_ok (be_ycsb E load cli cmd))"

lemma profile_ok: "wl \<in> set VALID_WORKLOADS \<Longrightarrow> \<exists>profile. ycsb_profile wl = Done profile"
  by (auto simp: VALID_WORKLOADS_def ycsb_profile_def)

lemma exec_ok:
  assumes "env_ok E" and "wl \<in> set VALID_WORKLOADS"
  shows "\<exists>d res. YcsbDriver_exec (be_ycsb E load cli) (be_ops E) wl n load cli w ikeys = Done (Inr d)
    \<and> driver_wait d = Inr (Some res)"
proof -
  obtain profile where p: "ycsb_profile wl = Done profile" using profile_ok [OF assms(2)] ..
  have "ycsb_ok (be_ycsb E load cli (ycsb_command profile n load))" and C: "responsive (be_ops E) cli"
    using assms(1) by (auto simp: env_ok_def)
  then obtain h out where y: "be_ycsb E load cli (ycsb_command profile n load) = Inr (h, out, False)"
    and h: "ch_kill h = None" and out: "rd_fault out = None" "list_all line_ok (lines_of (rd_input out))"
    by (auto simp: ycsb_ok_def split: sum.splits)
  from feeder_responsive [OF C out, of ikeys w] p y h show ?thesis
    by (auto simp: YcsbDriver_exec_def driver_wait_def kill_def)
qed

lemma start_drivers_ok:
  assumes "env_ok E" and "ba_workload args \<in> set VALID_WORKLOADS"
  shows "\<exists>ds. start_drivers E args load ikeys clients = Done (Inr ds)
    \<and> list_all (\<lambda>d. \<exists>res. driver_wait d = Inr (Some res)) ds"
proof (induction clients)
  case (Cons c clients)
  obtain cli w where c: "c = (cli, w)" by (cases c)
  from exec_ok [OF assms, of load cli "ba_num_ops args" w ikeys] Cons show ?case by (auto simp: c)
qed simp

lemma collect_ok:
  "list_all (\<lambda>d. \<exists>res. driver_wait d = Inr (Some res)) ds \<Longrightarrow> \<exists>res. collect ds st keys = Inr res"
  by (induction ds arbitrary: st keys) auto

lemma new_clients_ok: "env_ok E \<Longrightarrow> \<exists>cs. new_clients E args load is = Inr cs"
proof (induction "is")
  case (Cons i "is")
  then have "\<not> isl (be_client E load i (ba_client_just_args args))" by (simp add: env_ok_def)
  with Cons show ?case by (cases "be_client E load i (ba_client_just_args args)") auto
qed simp

lemma bench_phase_ok:
  assumes "env_ok E" and "ba_workload args \<in> set VALID_WORKLOADS"
  shows "\<exists>res. bench_phase E args load ikeys = Done (Inr res)"
proof -
  obtain cs where "new_clients E args load [0..<unat (ba_num_clis args)] = Inr cs"
    using new_clients_ok [OF assms(1)] by blast
  moreover obtain ds where "start_drivers E args load ikeys cs = Done (Inr ds)"
    and "list_all (\<lambda>d. \<exists>res. driver_wait d = Inr (Some res)) ds"
    using start_drivers_ok [OF assms] by blast
  moreover from this(2) obtain res where "collect ds bench_stats_new [] = Inr res"
    using collect_ok by blast
  ultimately show ?thesis by (simp add: bench_phase_def ycsb_bench_def)
qed

lemma bench_main_ok:
  assumes "ba_num_clis args \<noteq> 0" and "ba_workload args \<in> set VALID_WORKLOADS" and "env_ok E"
  shows "\<exists>stats_load stats_run. bench_main E args = Done (Inr (stats_load, stats_run))"
proof -
  from bench_phase_ok [OF assms(3,2)] obtain sl keys where "bench_phase E args True [] = Done (Inr (sl, keys))"
    by (metis surj_pair)
  moreover from bench_phase_ok [OF assms(3,2)] obtain sr keys' where
    "bench_phase E args False keys = Done (Inr (sr, keys'))" by (metis surj_pair)
  ultimately show ?thesis using assms(1,2) by (simp add: bench_main_def)
qed

section \<open>Properties\<close>

text \<open>C20: when the benchmark succeeds, the statistics of each phase hold exactly one sample per call line
  that the YCSB processes of the phase printed, for every operation type, and count every client once.\<close>

theorem bench_main_counts:
  assumes "bench_main E args = Done (Inr (stats_load, stats_run))"
  shows "\<exists>outs_load outs_run.
      list_all2 (ycsb_out E args True) [0..<unat (ba_num_clis args)] outs_load
    \<and> list_all2 (ycsb_out E args False) [0..<unat (ba_num_clis args)] outs_run
    \<and> (\<forall>op. length (samples_of stats_load op) = (\<Sum>out\<leftarrow>outs_load. out_ops op out))
    \<and> (\<forall>op. length (samples_of stats_run op) = (\<Sum>out\<leftarrow>outs_run. out_ops op out))
    \<and> merged stats_load = ba_num_clis args \<and> merged stats_run = ba_num_clis args"
proof -
  from assms obtain keys keys' where l: "bench_phase E args True [] = Done (Inr (stats_load, keys))"
    and r: "bench_phase E args False keys = Done (Inr (stats_run, keys'))"
    by (auto simp: bench_main_def split: if_splits rust.splits sum.splits)
  from bench_phase_counts [OF l] obtain ol where
    ol: "list_all2 (ycsb_out E args True) [0..<unat (ba_num_clis args)] ol"
      "\<forall>op. length (samples_of stats_load op) = (\<Sum>out\<leftarrow>ol. out_ops op out)"
      "merged stats_load = ba_num_clis args" by blast
  from bench_phase_counts [OF r] obtain rl where
    rl: "list_all2 (ycsb_out E args False) [0..<unat (ba_num_clis args)] rl"
      "\<forall>op. length (samples_of stats_run op) = (\<Sum>out\<leftarrow>rl. out_ops op out)"
      "merged stats_run = ba_num_clis args" by blast
  show ?thesis by (intro exI [of _ ol] exI [of _ rl] conjI ol rl)
qed

text \<open>C21: the benchmark comes to its end, without a panic and without an error, if its arguments pass the
  assertions and nothing it relies on fails.\<close>

theorem bench_main_completes:
  assumes "ba_num_clis args \<noteq> 0" and "ba_workload args \<in> set VALID_WORKLOADS" and "env_ok E"
  shows "\<exists>stats_load stats_run. bench_main E args = Done (Inr (stats_load, stats_run))"
  using assms by (rule bench_main_ok)

text \<open>A benchmark of two instant clients whose YCSB processes print two calls each.\<close>

definition instant_env :: "unit bench_env" where
  "instant_env =
     \<lparr>be_ops = instant_client, be_client = \<lambda>_ _ _. Inr (),
      be_ycsb = \<lambda>_ _ _. Inr (\<lparr>ch_wait = Inr (True, []), ch_kill = None\<rparr>, two_calls, False)\<rparr>"

definition two_clients :: bench_args where
  "two_clients = \<lparr>ba_num_clis = 2, ba_num_ops = 1, ba_workload = CHR ''a'', ba_client_just_args = []\<rparr>"

lemma instant_env_ok: "env_ok instant_env"
  using two_calls_ok by (simp add: env_ok_def instant_env_def ycsb_ok_def responsive_def instant_client_def)

lemma two_clients_ok: "ba_num_clis two_clients \<noteq> 0" "ba_workload two_clients \<in> set VALID_WORKLOADS"
  by (simp_all add: two_clients_def VALID_WORKLOADS_def)

theorem bench_main_completes_witness:
  "\<exists>stats_load stats_run. bench_main instant_env two_clients = Done (Inr (stats_load, stats_run))"
  by (rule bench_main_completes [OF two_clients_ok instant_env_ok])

theorem bench_main_counts_witness:
  "\<exists>stats_load stats_run. bench_main instant_env two_clients = Done (Inr (stats_load, stats_run))
     \<and> length (samples_of stats_run ''READ'') = 2 \<and> merged stats_run = 2"
proof -
  obtain sl sr where run: "bench_main instant_env two_clients = Done (Inr (sl, sr))"
    using bench_main_ok [OF two_clients_ok instant_env_ok] by blast
  from bench_main_counts [OF run] obtain outs where
    outs: "list_all2 (ycsb_out instant_env two_clients False) [0..<2] outs"
    and n: "length (samples_of sr ''READ'') = (\<Sum>out\<leftarrow>outs. out_ops ''READ'' out)" "merged sr = 2"
    by (auto simp: two_clients_def)
  have "[0..<2] = [0, 1 :: nat]" by (simp add: upt_rec)
  with outs have "outs = [two_calls, two_calls]"
    by (auto simp: ycsb_out_def instant_env_def list_all2_Cons1)
  moreover have "out_ops ''READ'' two_calls = 1" by code_simp
  ultimately show ?thesis using run n by simp
qed

end
