(* ===== verification/Bench_System.thy ===== *)
theory Bench_System
  imports System Bench_Main
begin

text \<open>
  The benchmark on the key-value store of this repository: the feeder thread of \<open>Ycsb\<close> runs against the
  world of \<open>System\<close>, in which its client, the other clients, the driver threads and the server move as a
  schedule says.  The world provides the interface \<open>bench_client\<close> as long as the schedule lets the
  calls of the client through.
\<close>

section \<open>The operations of the feeder on the world\<close>

text \<open>The world with a clock: the readings that \<open>Instant::now\<close> will give.\<close>

type_synonym timed_world = "world \<times> nat list"

fun clock_now :: "timed_world \<Rightarrow> nat \<times> timed_world" where
  "clock_now (w, []) = (0, (w, []))"
| "clock_now (w, t # ts) = (t, (w, ts))"

definition on_world :: "(world \<Rightarrow> 'a \<times> world) \<Rightarrow> timed_world \<Rightarrow> 'a \<times> timed_world" where
  "on_world f tw = (let (r, w') = f (fst tw) in (r, (w', snd tw)))"

definition kv_bench_ops :: "timed_world bench_ops" where
  "kv_bench_ops =
     \<lparr>send_call_op = \<lambda>c call. on_world (world_send c call), wait_resp_op = \<lambda>c t. on_world (world_wait c t),
      stop_op = \<lambda>c. on_world (world_stop c), flush_op = on_world world_flush, now_op = clock_now\<rparr>"

section \<open>Schedules that let calls through\<close>

fun ev_client :: "event \<Rightarrow> nat" where
  "ev_client (Drive c) = c"
| "ev_client (ClientMove c) = c"
| "ev_client (Serve c) = c"
| "ev_client (RpcFail c) = c"

text \<open>
  The events of the client in a batch begin with the way of one call; the other clients do as they like.
\<close>

definition lets_through :: "nat \<Rightarrow> event list \<Rightarrow> bool" where
  "lets_through c evs \<longleftrightarrow> take 5 (filter (\<lambda>ev. ev_client ev = c) evs) = one_way c"

text \<open>Every call takes two batches: one before it is sent, one before its response is taken.\<close>

fun answering :: "nat \<Rightarrow> nat \<Rightarrow> event list list \<Rightarrow> bool" where
  "answering c 0 sched \<longleftrightarrow> True"
| "answering c (Suc k) (_ # evs # sched) \<longleftrightarrow> lets_through c evs \<and> answering c k sched"
| "answering c (Suc k) _ \<longleftrightarrow> False"

definition kv_ready :: "nat \<Rightarrow> string set \<Rightarrow> nat \<Rightarrow> nat \<Rightarrow> timed_world \<Rightarrow> bool" where
  "kv_ready n pool c k tw \<longleftrightarrow>
     world_inv n pool (fst tw) \<and> c < n \<and> \<not> outstanding (world_abs (fst tw)) c \<and> answering c k (wd_sched (fst tw))"

section \<open>The stations of a call\<close>

inductive station :: "string set \<Rightarrow> nat \<Rightarrow> ClientProc \<times> client \<Rightarrow> bool" for pool where
  queued: "sys_call_ok pool call \<Longrightarrow> station pool 0 (proc h [call] [] [] [] (AtRecv False), AtLine)"
| piped: "sys_call_ok pool call \<Longrightarrow>
    station pool 1 (proc h [] [] (call_line call) [] (AtRead False), AtLine)"
| calling: "sys_call_ok pool (call_of req) \<Longrightarrow>
    station pool 2 (proc h [] [] [] [] (AtRead False), Calling req)"
| replied: "resp_wf (resp_of req res) \<Longrightarrow> resp_of req res \<noteq> RStop \<Longrightarrow>
    station pool 3 (proc h [] [] [] [] (AtRead False), Replied req res)"
| printed: "resp_wf r \<Longrightarrow> station pool 4 (proc h [] [] [] (resp_text r) (AtRead False), AtLine)"
| delivered: "station pool 5 (proc h [] [r] [] [] (AtRecv False), AtLine)"

inductive_cases stationE: "station pool i pc"

lemma other_client: "ev_client ev \<noteq> c \<Longrightarrow> wd_procs (run_event ev w) ! c = wd_procs w ! c"
  by (cases ev)
    (auto simp: run_event_def set_proc_def serve_def split: prod.split option.split rust.split)

lemma station_drive:
  assumes "station pool i (p, cl)" and "i = 0 \<or> i = 4"
  shows "station pool (Suc i) (driver_thread p, cl)"
  using assms(1)
proof cases
  case (queued call h)
  then have "driver_thread p = proc h [] [] (call_line call) [] (AtRead False)"
    by (cases call) (simp_all add: driver_thread_def driver_call_def into_write_def write_all_def)
  with queued show ?thesis using station.piped by simp
next
  case (printed r h)
  obtain b where "from_read \<lparr>rd_input = resp_text r, rd_fault = None\<rparr> =
      Some (Inr (r, b, \<lparr>rd_input = [], rd_fault = None\<rparr>))"
    using from_read_resp_text [OF printed(4), of "[]" None] by auto
  with printed have "driver_thread p = proc h [] [r] [] [] (AtRecv False)"
    by (simp add: driver_thread_def driver_resp_def)
  with printed show ?thesis using station.delivered by simp
qed (use assms(2) in simp_all)

lemma station_client:
  assumes "tokens pool" and "station pool i (p, cl)" and "i = 1 \<or> i = 3"
  shows "station pool (Suc i) (client_move (p, cl))"
  using assms(2)
proof cases
  case (piped call h)
  then obtain req where req: "req_of call = Some req" using sys_call_req by blast
  obtain l where "getline (call_line call) = Some (l, [])" "client_line l = Rpc req"
    using getline_call [OF sys_call_wf [OF assms(1) piped(4)] req] by blast
  then have "client_move (p, cl) = (proc h [] [] [] [] (AtRead False), Calling req)"
    using piped by (simp add: client_read_def)
  with piped call_of_req [OF req] show ?thesis using station.calling [of pool req] by (simp add: numeral_2_eq_2)
next
  case (replied req res h)
  then have "client_move (p, cl) = (proc h [] [] [] (resp_text (resp_of req res)) (AtRead False), AtLine)"
    by (simp add: print_def client_print_text)
  with replied show ?thesis using station.printed [of "resp_of req res" pool h] by simp
qed (use assms(3) in simp_all)

lemma station_serve:
  assumes inv: "world_inv n pool w" and c: "c < n" and st: "station pool 2 (wd_procs w ! c)"
  shows "station pool 3 (wd_procs (serve c w) ! c)"
proof -
  note w = world_invD [OF inv]
  from st obtain h req where pc: "wd_procs w ! c = (proc h [] [] [] [] (AtRead False), Calling req)"
    and call: "sys_call_ok pool (call_of req)" by (auto elim: stationE)
  have "om_inv (wd_store w)" using w(4) by (simp add: store_ok_def)
  then obtain r s' where step: "kvstore_call (call_of req) (wd_store w) = Done (r, s')"
    using kvstore.step_done [OF _ sys_call_ordered [OF call]] by blast
  then obtain res where srv: "KvStoreService req (wd_store w) = Done (res, s')" and r: "r = resp_of req res"
    by (auto simp: kvstore_call_def req_of_call split: rust.splits)
  have "wd_procs (serve c w) ! c = (proc h [] [] [] [] (AtRead False), Replied req res)"
    using pc w(2,3) srv c by (simp add: serve_def)
  with kvstore_call_ok(2,3) [OF w(1) call w(4) step] r show ?thesis using station.replied by simp
qed

lemma station_step:
  assumes inv: "world_inv n pool w" and c: "c < n" and st: "station pool i (wd_procs w ! c)" and i: "i < 5"
  shows "station pool (Suc i) (wd_procs (run_event (one_way c ! i) w) ! c)"
proof -
  note w = world_invD [OF inv]
  obtain p cl where pc: "wd_procs w ! c = (p, cl)" by fastforce
  consider "i = 0 \<or> i = 4" | "i = 1 \<or> i = 3" | "i = 2" using i by linarith
  then show ?thesis
  proof cases
    case 1
    then have "one_way c ! i = Drive c" by (auto simp: one_way_def)
    with station_drive [OF st [unfolded pc] 1] pc c w(2) show ?thesis by (simp add: run_event_def)
  next
    case 2
    then have "one_way c ! i = ClientMove c" by (auto simp: one_way_def)
    with station_client [OF w(1) st [unfolded pc] 2] pc c w(2) show ?thesis by (simp add: run_event_def)
  next
    case 3
    with station_serve [OF inv c] st c w(2) show ?thesis by (simp add: one_way_def run_event_def numeral_3_eq_3)
  qed
qed

lemma station_stays:
  assumes "station pool 5 (wd_procs w ! c)" and "c < length (wd_procs w)" and "ev_client ev = c"
  shows "station pool 5 (wd_procs (run_event ev w) ! c)"
proof -
  from assms(1) obtain h r where "wd_procs w ! c = (proc h [] [r] [] [] (AtRecv False), AtLine)"
    by (auto elim: stationE)
  then have "wd_procs (run_event ev w) ! c = wd_procs w ! c"
    using assms(2,3) by (cases ev) (auto simp: run_event_def serve_def driver_thread_def driver_call_def client_read_def)
  with assms(1) show ?thesis by simp
qed

lemma stations_run:
  assumes "world_inv n pool w" and c: "c < n" and "station pool i (wd_procs w ! c)" and "i \<le> 5"
    and "take (5 - i) (filter (\<lambda>ev. ev_client ev = c) evs) = drop i (one_way c)"
  shows "world_inv n pool (fold run_event evs w) \<and> station pool 5 (wd_procs (fold run_event evs w) ! c)"
  using assms(1,3,4,5)
proof (induction evs arbitrary: w i)
  case Nil
  then have "length (drop i (one_way c)) = 0" by simp
  with Nil have "i = 5" by (simp add: one_way_def)
  with Nil show ?case by simp
next
  case (Cons ev evs)
  have inv: "world_inv n pool (run_event ev w)" using run_event_lin [OF Cons.prems(1)] by blast
  consider "ev_client ev \<noteq> c" | "ev_client ev = c" "i = 5" | "ev_client ev = c" "i < 5" using Cons.prems(3) by linarith
  then show ?case
  proof cases
    case 1
    with Cons.prems Cons.IH [OF inv, of i] other_client [OF 1] show ?thesis by simp
  next
    case 2
    then have "station pool 5 (wd_procs (run_event ev w) ! c)"
      using station_stays Cons.prems world_invD(2) [OF Cons.prems(1)] c by blast
    with 2 Cons.IH [OF inv, of 5] show ?thesis by (simp add: one_way_def)
  next
    case 3
    have "drop i (one_way c) = one_way c ! i # drop (Suc i) (one_way c)"
      by (rule Cons_nth_drop_Suc [symmetric]) (use 3(2) in \<open>simp add: one_way_def\<close>)
    moreover have "5 - i = Suc (5 - Suc i)" using 3(2) by simp
    ultimately have "ev = one_way c ! i
        \<and> take (5 - Suc i) (filter (\<lambda>ev. ev_client ev = c) evs) = drop (Suc i) (one_way c)"
      using Cons.prems(4) 3(1) by simp
    with station_step [OF Cons.prems(1) c Cons.prems(2) 3(2)] Cons.IH [OF inv, of "Suc i"] 3(2) show ?thesis by simp
  qed
qed

section \<open>The world as a client of the feeder\<close>

lemma kv_call_answered:
  assumes inv: "world_inv n pool w" and c: "c < n" and idle: "\<not> outstanding (world_abs w) c"
    and call: "sys_call_ok pool call" and sched: "answering c (Suc k) (wd_sched w)"
  shows "\<exists>w1 r w2. world_send c call w = (Inr (), w1) \<and> world_wait c t w1 = (Inr r, w2)
    \<and> world_inv n pool w2 \<and> \<not> outstanding (world_abs w2) c \<and> answering c k (wd_sched w2)"
proof -
  from sched obtain evs0 evs sc where sched: "wd_sched w = evs0 # evs # sc"
    and evs: "lets_through c evs" and sc: "answering c k sc"
    by (cases "(c, Suc k, wd_sched w)" rule: answering.cases) auto
  let ?v = "run_batch w"
  have v: "world_inv n pool ?v" and "lin_steps (world_abs w) (world_abs ?v)" using run_batch_lin [OF inv] by blast+
  then have idle': "\<not> outstanding (world_abs ?v) c" using idle lin_steps_outstanding by metis
  obtain pe de where sh: "shape pool (wd_procs ?v ! c) pe de" using world_invD(5) [OF v c] by blast
  have "pe = None" "de = None" using world_abs_shape [OF v c sh] idle' by (auto simp: outstanding_def)
  with sh obtain h where p: "wd_procs ?v ! c = (proc h [] [] [] [] (AtRecv False), AtLine)"
    by (auto elim: shape_idleE)
  let ?w1 = "set_proc c (proc h [call] [] [] [] (AtRecv False), AtLine) ?v"
  have w1: "world_inv n pool ?w1" by (rule set_proc_inv(1) [OF v c shape.queued [OF call]])
  have "station pool 0 (wd_procs ?w1 ! c)" using station.queued [OF call] c world_invD(2) [OF v] by simp
  from stations_run [OF w1 c this] evs have
    u: "world_inv n pool (fold run_event evs ?w1)" "station pool 5 (wd_procs (fold run_event evs ?w1) ! c)"
    by (simp_all add: lets_through_def)
  let ?u = "(fold run_event evs ?w1)\<lparr>wd_sched := sc\<rparr>"
  from u(2) obtain h' r where p': "wd_procs ?u ! c = (proc h' [] [r] [] [] (AtRecv False), AtLine)"
    by (auto elim: stationE)
  let ?w2 = "set_proc c (proc h' [] [] [] [] (AtRecv False), AtLine) ?u"
  have "wd_sched ?w1 = evs # sc" using sched by (simp add: run_batch_def)
  then have "run_batch ?w1 = ?u" by (simp add: run_batch_def)
  then have "world_wait c t ?w1 = (Inr r, ?w2)" using p' by (simp add: world_wait_def on_proc_eq wait_resp_def)
  moreover have "world_send c call w = (Inr (), ?w1)" using p by (simp add: world_send_def on_proc_eq send_call_def)
  moreover have "world_inv n pool ?u" using u(1) by simp
  from set_proc_inv [OF this c shape.idle] have "world_inv n pool ?w2" "\<not> outstanding (world_abs ?w2) c"
    by (simp_all add: outstanding_def)
  ultimately show ?thesis using sc by auto
qed

interpretation kv_bench: bench_client kv_bench_ops c "kv_ready n pool c" "sys_call_ok pool" for n pool c
proof unfold_locales
  fix k and tw :: timed_world
  obtain w ts where tw: "tw = (w, ts)" by (cases tw)
  show "kv_ready n pool c k (snd (now_op kv_bench_ops tw))" if "kv_ready n pool c k tw"
    using that tw by (cases ts) (simp_all add: kv_bench_ops_def kv_ready_def)
  fix call assume "kv_ready n pool c (Suc k) tw" and call: "sys_call_ok pool call"
  then have "world_inv n pool w" "c < n" "\<not> outstanding (world_abs w) c" "answering c (Suc k) (wd_sched w)"
    by (simp_all add: kv_ready_def tw)
  from kv_call_answered [OF this(1-3) call this(4), of BENCH_RESP_TIMEOUT] \<open>c < n\<close> tw
  show "\<exists>w1 r w2. send_call_op kv_bench_ops c call tw = (Inr (), w1)
      \<and> wait_resp_op kv_bench_ops c BENCH_RESP_TIMEOUT w1 = (Inr r, w2) \<and> kv_ready n pool c k w2"
    by (fastforce simp: kv_bench_ops_def on_world_def kv_ready_def)
qed

section \<open>YCSB calls\<close>

text \<open>A value that is read from a YCSB line starts with an underscore.\<close>

lemma ycsb_value_plain:
  assumes "parse_ycsb_value segs = Inr v" and "\<forall>s \<in> set segs. is_token s" and "v \<noteq> []"
  shows "value_plain v"
proof -
  from assms(1) obtain segs' where "v = concat (map (\<lambda>s. ''_'' @ s) segs')" by (rule parse_ycsb_value_Inr)
  with assms(3) have "\<exists>u. v = CHR ''_'' # u" by (cases segs') auto
  with value_token [OF assms(2,1)] assms(3) show ?thesis by (auto simp: value_plain_def)
qed

text \<open>Complete lines that write a value, if they write, and do not scan, as in all workloads but one.\<close>

definition plain_line :: "string \<Rightarrow> bool" where
  "plain_line l \<longleftrightarrow>
     line_ok l \<and>
     (case split_whitespace l of
        [] \<Rightarrow> True
      | op # segs \<Rightarrow> op \<noteq> ''SCAN'' \<and> (op \<in> {''INSERT'', ''UPDATE''} \<longrightarrow> 3 < length segs))"

lemma plain_call_ok:
  assumes l: "plain_line l" and int: "interpret_ycsb_call l ikeys = Inr (Some (call, op), ikeys')"
  shows "sys_call_ok {k. is_token k} call"
proof -
  from int obtain segs where line: "split_whitespace l = op # segs"
    using interpret_ycsb_call_op(1) [OF int] by (auto simp: line_op_def split: list.splits if_splits)
  then have tok: "\<forall>s \<in> set segs. is_token s" using split_whitespace_tokens [of _ l] by simp
  from int line obtain t k rest where segs: "segs = t # k # rest"
    by (cases segs rule: parse_ycsb_key.cases) (auto simp: interpret_ycsb_call_def split: if_splits)
  with tok have key: "is_token (t @ ''_'' @ k)" by (intro is_token_join) simp_all
  have "value_plain v" if "parse_ycsb_value rest = Inr v" "1 < length rest" for v
  proof (rule ycsb_value_plain [OF that(1)])
    from that(1) obtain rest' where "rest = ''['' # rest'" "v = concat (map (\<lambda>s. ''_'' @ s) rest')"
      by (rule parse_ycsb_value_Inr)
    with that(2) show "v \<noteq> []" by (cases rest') auto
  qed (use tok segs in simp)
  with int line segs key l show ?thesis
    by (auto simp: interpret_ycsb_call_def plain_line_def split: if_splits sum.splits)
qed

lemma plain_feedable: "list_all plain_line ls \<Longrightarrow> feedable (sys_call_ok {k. is_token k}) ikeys ls"
proof (induction ls arbitrary: ikeys)
  case (Cons l ls)
  then have l: "plain_line l" by simp
  then obtain r ikeys' where "interpret_ycsb_call l ikeys = Inr (r, ikeys')"
    and "r = None \<longrightarrow> starts_with ''['' l \<or> \<not> contains ''No such file'' l \<or> trim l = []"
    using interpret_line_ok [of l ikeys] by (auto simp: plain_line_def)
  with Cons plain_call_ok [OF l] show ?case by (auto split: option.split)
qed simp

section \<open>Properties\<close>

text \<open>C9: a feeder thread succeeds against the key-value store of this repository.  From every state of the
  system in which its client is idle, whatever the other clients do and wherever they stand, the thread
  feeds an output whose calls the system is made for to the end and records one sample per call line, if
  for each call its own driver, client and handler get their turns while the response is awaited.\<close>

theorem feeder_on_kvstore:
  assumes "world_inv n {k. is_token k} w" and "c < n" and "\<not> outstanding (world_abs w) c"
    and "rd_fault out = None" and "feedable (sys_call_ok {k. is_token k}) ikeys (lines_of (rd_input out))"
    and "answering c (call_count (lines_of (rd_input out))) (wd_sched w)"
  shows "\<exists>stats ikeys'. fst (feeder_thread kv_bench_ops c out ikeys (w, clock)) = Some (stats, ikeys')
    \<and> (\<forall>op. length (samples_of stats op) = length (filter (\<lambda>l. line_op l = Some op) (lines_of (rd_input out))))"
proof -
  have "kv_ready n {k. is_token k} c (call_count (lines_of (rd_input out))) (w, clock)"
    using assms by (simp add: kv_ready_def)
  from kv_bench.feeder_thread_Some [OF assms(4,5) this] obtain stats ikeys' where
    res: "fst (feeder_thread kv_bench_ops c out ikeys (w, clock)) = Some (stats, ikeys')" by auto
  with feeder_thread_records [OF res] show ?thesis by blast
qed

theorem feeder_on_kvstore_witness:
  "\<exists>w stats ikeys'. world_spawn (\<lambda>_. Inr \<lparr>ch_wait = Inr (True, []), ch_kill = None\<rparr>) []
       (world_boot [[], one_way 0, [], one_way 0]) = (Inr (), w)
     \<and> fst (feeder_thread kv_bench_ops 0 two_calls [] (w, [5, 6, 7])) = Some (stats, ikeys')"
proof -
  let ?boot = "world_boot [[], one_way 0, [], one_way 0]"
  obtain w where w: "world_spawn (\<lambda>_. Inr \<lparr>ch_wait = Inr (True, []), ch_kill = None\<rparr>) [] ?boot = (Inr (), w)"
    and st: "wd_sched w = [[], one_way 0, [], one_way 0]"
    by (simp add: world_spawn_def ClientProc_new_def world_boot_def)
  have pool: "tokens {k. is_token k}" by (simp add: tokens_def)
  have inv: "world_inv 1 {k. is_token k} w" and abs: "world_abs w = lin_init"
    using world_spawn_inv [OF world_boot_inv(1) [OF pool] w] by (simp_all add: world_boot_inv(2))
  have "\<not> outstanding (world_abs w) 0" by (simp add: abs outstanding_def lin_init_def)
  moreover have "list_all plain_line (lines_of (rd_input two_calls))" by code_simp
  then have "feedable (sys_call_ok {k. is_token k}) [] (lines_of (rd_input two_calls))" by (rule plain_feedable)
  moreover have "call_count (lines_of (rd_input two_calls)) = Suc (Suc 0)" by code_simp
  moreover have "answering 0 (Suc (Suc 0)) (wd_sched w)" by (simp add: st lets_through_def one_way_def)
  ultimately show ?thesis
    using feeder_on_kvstore [OF inv, of 0 two_calls "[]" "[5, 6, 7]"] two_calls_ok(2) w by auto
qed

end
