(* ===== verification/Fuzz_Asserts.thy ===== *)
theory Fuzz_Asserts
  imports Fuzz_Loop
begin

text \<open>
  The assertions that only debug builds check (\<open>debug_assert!\<close>) in \<open>add_to_queue\<close> and \<open>apply_update\<close> of
  \<open>runner/src/bin/fuzzer/history.rs\<close> and in \<open>gen_rand_client\<close> of \<open>random.rs\<close>: they hold in every state that
  the fuzzing loop reaches, whatever the clients answer.
\<close>

section \<open>The assertions\<close>

text \<open>Of \<open>gen_rand_client\<close>: there is a client of the wanted kind.\<close>

definition gen_rand_client_asserts :: "bool list \<Rightarrow> bool \<Rightarrow> bool" where
  "gen_rand_client_asserts flying want_flying \<longleftrightarrow>
     (want_flying \<or> \<not> list_all (\<lambda>b. b) flying) \<and> (\<not> want_flying \<or> \<not> list_all (\<lambda>b. \<not> b) flying)"

text \<open>Of \<open>add_to_queue\<close>: responses come after their calls, and in order.\<close>

definition add_to_queue_asserts :: "u64 \<Rightarrow> u64 \<Rightarrow> History \<Rightarrow> bool" where
  "add_to_queue_asserts ts_call ts_resp h \<longleftrightarrow>
     ts_call < ts_resp \<and> (queue h = [] \<or> qs_resp (last (queue h)) < ts_resp)"

text \<open>Of \<open>apply_update\<close>: the client is known, and its previous update of the key ended before this one.\<close>

definition apply_update_asserts :: "nat \<Rightarrow> u64 \<Rightarrow> string \<Rightarrow> History \<Rightarrow> bool" where
  "apply_update_asserts cidx ts_call key h =
     (case map_of (spans h) key of
        None \<Rightarrow> True
      | Some key_spans \<Rightarrow>
          cidx < length (maxtr h) \<and> cidx < length key_spans
          \<and> (key_spans ! cidx = [] \<or> us_resp (last (key_spans ! cidx)) < ts_call))"

section \<open>The states the loop reaches\<close>

inductive fuzz_steps ::
  "'g rng_ops \<Rightarrow> 'w client_ops \<Rightarrow> string list list \<Rightarrow> usize \<Rightarrow> ('g, 'w) fuzz \<Rightarrow> ('g, 'w) fuzz \<Rightarrow> bool"
  for R C keys tot st where
  start: "fuzz_steps R C keys tot st st"
| round: "fuzz_steps R C keys tot st st1 \<Longrightarrow> fz_waited st1 < tot \<Longrightarrow>
    fuzz_round R C keys tot st1 = Some (Continue st2) \<Longrightarrow> fuzz_steps R C keys tot st st2"

text \<open>
  Per client, the responses of the recorded updates are no later than the last one, which is earlier than
  the call that is under way; nothing recorded is later than the clock.
\<close>

definition hist_ordered :: "nat \<Rightarrow> History \<Rightarrow> bool" where
  "hist_ordered n h \<longleftrightarrow>
     length (maxtr h) = n
     \<and> (\<forall>k ks. map_of (spans h) k = Some ks \<longrightarrow> length ks = n
          \<and> (\<forall>c < n. \<forall>sp \<in> set (ks ! c). us_resp sp \<le> maxtr h ! c))"

definition calls_ordered :: "nat \<Rightarrow> ('g, 'w) fuzz \<Rightarrow> bool" where
  "calls_ordered n st \<longleftrightarrow>
     hist_ordered n (fz_history st)
     \<and> (\<forall>c < n. maxtr (fz_history st) ! c \<le> fz_timestamp st
          \<and> (fz_flying st ! c \<longrightarrow> maxtr (fz_history st) ! c < fst (fz_memo st ! c) \<and> fst (fz_memo st ! c) \<le> fz_timestamp st))
     \<and> (\<forall>e \<in> set (queue (fz_history st)). qs_resp e \<le> fz_timestamp st)"

lemma hist_ordered_update:
  assumes h: "hist_ordered n h" and c: "c < n" "maxtr h ! c \<le> tr"
    and upd: "apply_update c tc tr k v h = Done (None, h')"
  shows "hist_ordered n h' \<and> maxtr h' = (maxtr h)[c := tr]"
proof -
  have len: "length (maxtr h) = n" using h by (simp add: hist_ordered_def)
  from upd obtain ks where ks: "map_of (spans h) k = Some ks" by (auto simp: apply_update_def split: option.splits)
  with h have ks': "length ks = n" "\<forall>c < n. \<forall>sp \<in> set (ks ! c). us_resp sp \<le> maxtr h ! c"
    by (auto simp: hist_ordered_def)
  let ?span = "\<lparr>us_call = tc, us_resp = tr, us_value = v\<rparr>"
  let ?mt = "(maxtr h)[c := tr]"
  let ?trim = "trim_client (min_coming ?mt) (min_queued (queue h))"
  let ?ks = "map ?trim (ks[c := ks ! c @ [?span]])"
  have h': "maxtr h' = ?mt" "spans h' = alist_put k ?ks (spans h)"
    using upd apply_update_known [OF ks, of c tc tr v] c len ks' by (auto simp: Let_def)
  have mono: "maxtr h ! d \<le> ?mt ! d" if "d < n" for d using c len that by (cases "d = c") simp_all
  have "us_resp sp \<le> ?mt ! d" if "d < n" "sp \<in> set (?ks ! d)" for d sp
  proof -
    have "sp \<in> set (ks[c := ks ! c @ [?span]] ! d)"
      using that ks' trim_client_set [of "min_coming ?mt" "min_queued (queue h)"] by (auto simp del: set_map)
    then have "sp \<in> set (ks ! d) \<or> d = c \<and> sp = ?span"
      using that ks' c by (cases "d = c") auto
    then show ?thesis using ks' mono [OF that(1)] that(1) c len by (auto intro: order_trans)
  qed
  then have new: "\<forall>d < n. \<forall>sp \<in> set (?ks ! d). us_resp sp \<le> ?mt ! d" by blast
  have old: "length ks' = n \<and> (\<forall>d < n. \<forall>sp \<in> set (ks' ! d). us_resp sp \<le> ?mt ! d)"
    if "map_of (spans h) k' = Some ks'" for k' ks'
    using h that mono unfolding hist_ordered_def by (meson order_trans)
  show ?thesis
    unfolding hist_ordered_def h' map_of_alist_put [OF ks] using old new len ks'(1) by simp
qed

lemma hist_ordered_ack:
  assumes h: "hist_ordered n h" and c: "c < n" "maxtr h ! c \<le> tr"
    and ack: "acknowledge c tc tr resp upd h = Done (None, h')"
  shows "hist_ordered n h' \<and> (maxtr h' = maxtr h \<or> maxtr h' = (maxtr h)[c := tr])"
proof (cases upd)
  case None
  with ack h show ?thesis by (auto simp: acknowledge_def add_to_queue_def hist_ordered_def)
next
  case (Some u)
  obtain k v where u: "u = (k, v)" by (cases u)
  let ?h = "add_to_queue tc tr resp h"
  have "hist_ordered n ?h" "maxtr ?h = maxtr h" using h by (simp_all add: add_to_queue_def hist_ordered_def)
  with hist_ordered_update [of n ?h c tr tc k v h'] c ack Some u show ?thesis by (simp add: acknowledge_def)
qed

lemma acknowledge_queue:
  assumes "acknowledge c tc tr resp upd h = Done (None, h')"
  shows "\<forall>e \<in> set (queue h'). e \<in> set (queue h) \<or> qs_resp e = tr"
proof -
  let ?q = "queue (add_to_queue tc tr resp h)"
  have "set (queue h') \<subseteq> set ?q"
  proof (cases upd)
    case None
    with assms show ?thesis by (simp add: acknowledge_def)
  next
    case (Some u)
    with assms show ?thesis
      by (auto simp: acknowledge_def apply_update_def Let_def case_prod_unfold split: option.splits if_splits
          dest: check_queue_subset [THEN subsetD])
  qed
  then show ?thesis by (auto simp: add_to_queue_def)
qed

lemma calls_ordered_round:
  assumes R: "rng_ok R" and ok: "loop_ok n keys tot st" and tot: "small tot" "tot div 100 \<noteq> 0"
    and more: "fz_waited st < tot" and ret: "fuzz_round R C keys tot st = Some (Continue st')"
    and inv: "calls_ordered n st"
  shows "calls_ordered n st'"
proof -
  have len: "length (fz_flying st) = n" "length keys = n" "length (fz_memo st) = n" "0 < n"
    and keys: "[] \<notin> set keys" and sh: "stats_shape keys (fz_stats st)" and cnt: "counters tot st"
    using ok unfolding loop_ok_def by blast+
  have mt: "length (maxtr (fz_history st)) = n" using inv by (simp add: calls_ordered_def hist_ordered_def)
  have tick: "fz_timestamp st < fz_timestamp st + 1"
    using counters_tick [OF cnt tot(1) more] by (simp add: word_less_nat_alt)
  have le: "maxtr (fz_history st) ! c < fz_timestamp st + 1" if "c < n" for c
    using inv that tick by (auto simp: calls_ordered_def intro: le_less_trans)
  have queue: "qs_resp e \<le> fz_timestamp st + 1" if "e \<in> set (queue (fz_history st))" for e
    using inv that tick by (auto simp: calls_ordered_def)
  obtain call g where cw: "gen_call_vs_wait R (fz_called st) tot (fz_flying st) (fz_rng st) = (call, g)"
    by fastforce
  show ?thesis
  proof (cases call)
    case True
    then have "fuzz_call R C keys (ticked st g) = Some (Continue st')"
      using ret fuzz_round_ticked [OF cw] by simp
    then show ?thesis
    proof (rule fuzz_call_shape [OF R, where n = n])
      fix c cl stats' g' w'
      assume c: "c < n"
        and st': "Continue st' = Continue (ticked st g\<lparr>fz_memo := (fz_memo (ticked st g))
            [c := (fz_timestamp (ticked st g), update_info cl)], fz_stats := stats', fz_rng := g',
            fz_world := w', fz_flying := (fz_flying (ticked st g))[c := True],
            fz_called := fz_called (ticked st g) + 1\<rparr>)"
      have "maxtr (fz_history st) ! d < fst (fz_memo st' ! d) \<and> fst (fz_memo st' ! d) \<le> fz_timestamp st + 1"
        if "fz_flying st' ! d" "d < n" for d
        using inv c st' len le [of d] that tick by (cases "d = c") (auto simp: calls_ordered_def)
      with inv st' le queue show ?thesis by (auto simp: calls_ordered_def intro: less_imp_le)
    qed (use len keys sh in simp_all)
  next
    case False
    then have "fuzz_wait R C tot (ticked st g) = Some (Continue st')"
      using ret fuzz_round_ticked [OF cw] by simp
    then show ?thesis
    proof (rule fuzz_wait_shape [OF R, where n = n])
      fix c g' resp w'
      assume c: "c < n"
        and r: "Continue st' = (if resp = RStop then Break (ticked st g\<lparr>fz_rng := g', fz_world := w',
            fz_log := fz_log (ticked st g) @ [UnexpectedStop c (fz_timestamp (ticked st g))]\<rparr>)
          else harvested C tot c resp (ticked st g\<lparr>fz_rng := g', fz_world := w'\<rparr>))"
      then have "harvested C tot c resp (ticked st g\<lparr>fz_rng := g', fz_world := w'\<rparr>) = Continue st'"
        by (simp split: if_splits)
      from harvested_Continue [OF this tot(2)] have
        ack: "acknowledge c (fst (fz_memo st ! c)) (fz_timestamp st + 1) resp (snd (fz_memo st ! c)) (fz_history st)
          = Done (None, fz_history st')"
        and st': "fz_timestamp st' = fz_timestamp st + 1" "fz_flying st' = (fz_flying st)[c := False]"
          "fz_memo st' = (fz_memo st)[c := (0, None)]" by auto
      from inv have "hist_ordered n (fz_history st)" by (simp add: calls_ordered_def)
      from hist_ordered_ack [OF this c less_imp_le [OF le [OF c]] ack]
      have h': "hist_ordered n (fz_history st')"
        and mt': "maxtr (fz_history st') ! d = maxtr (fz_history st) ! d \<or>
          d = c \<and> maxtr (fz_history st') ! d = fz_timestamp st + 1" if "d < n" for d
        using that mt c by (cases "d = c"; auto)+
      have "maxtr (fz_history st') ! d \<le> fz_timestamp st'
        \<and> (fz_flying st' ! d \<longrightarrow>
             maxtr (fz_history st') ! d < fst (fz_memo st' ! d) \<and> fst (fz_memo st' ! d) \<le> fz_timestamp st')" if "d < n" for d
        using mt' [OF that] le [OF that] inv c len that st' tick
        by (cases "d = c") (auto simp: calls_ordered_def intro: less_imp_le)
      with h' acknowledge_queue [OF ack] queue st'(1) show ?thesis using len(4) by (auto simp: calls_ordered_def)
    qed (use len in simp_all)
  qed
qed

lemma calls_ordered_init: "calls_ordered n (fuzz_init n keys stats g w)"
  by (auto simp: calls_ordered_def hist_ordered_def fuzz_init_def History_new_lookup dummy_span_def
      split: if_splits) (simp_all add: History_new_def)

lemma reached_ok:
  assumes R: "rng_ok R" and tot: "small tot" "tot div 100 \<noteq> 0" and ok: "loop_ok n keys tot st" "calls_ordered n st"
  shows "fuzz_steps R C keys tot st st' \<Longrightarrow> loop_ok n keys tot st' \<and> calls_ordered n st'"
proof (induction rule: fuzz_steps.induct)
  case start
  show ?case using ok by blast
next
  case (round st1 st2)
  then show ?case using round_loop_ok [OF R _ tot] calls_ordered_round [OF R _ tot] by blast
qed

lemma calls_ordered_asserts:
  assumes inv: "calls_ordered n st" and c: "c < n" "fz_flying st ! c" and tick: "fz_timestamp st < fz_timestamp st + 1"
  shows "add_to_queue_asserts (fst (fz_memo st ! c)) (fz_timestamp st + 1) (fz_history st)
    \<and> apply_update_asserts c (fst (fz_memo st ! c)) key (add_to_queue tc tr resp (fz_history st))"
proof -
  let ?h = "fz_history st"
  have maxtr: "maxtr ?h ! c < fst (fz_memo st ! c)" "fst (fz_memo st ! c) \<le> fz_timestamp st"
    and h: "hist_ordered n ?h" and q: "\<forall>e \<in> set (queue ?h). qs_resp e \<le> fz_timestamp st"
    using inv c by (simp_all add: calls_ordered_def)
  from maxtr(2) q tick have "add_to_queue_asserts (fst (fz_memo st ! c)) (fz_timestamp st + 1) ?h"
    by (cases "queue ?h" rule: rev_cases) (auto simp: add_to_queue_asserts_def intro: le_less_trans)
  moreover have "us_resp (last (ks ! c)) < fst (fz_memo st ! c)"
    if "map_of (spans ?h) key = Some ks" "ks ! c \<noteq> []" for ks
    using h that c maxtr(1) last_in_set [of "ks ! c"] unfolding hist_ordered_def by (meson le_less_trans)
  then have "apply_update_asserts c (fst (fz_memo st ! c)) key (add_to_queue tc tr resp ?h)"
    using h c(1) by (auto simp: apply_update_asserts_def add_to_queue_def hist_ordered_def split: option.split)
  ultimately show ?thesis by blast
qed

lemma wanted_asserts: "want \<in> set flying \<Longrightarrow> gen_rand_client_asserts flying want"
  by (cases want) (auto simp: gen_rand_client_asserts_def list_all_iff)

section \<open>Properties\<close>

text \<open>C8: the assertions of \<open>gen_rand_client\<close>, \<open>add_to_queue\<close> and \<open>apply_update\<close> that only debug builds check
  hold in every state the fuzzing loop reaches, whatever the clients answer: there is a client of the kind that the next round draws, the response of every
  call under way comes after its call and after every queued response, and the update it acknowledges
  starts after the previous update of the same client and key has ended.\<close>

theorem debug_asserts_hold:
  assumes "rng_ok R" and "run_ok args keys" and tot: "tot = num_ops args * num_clis args"
    and "fuzz_steps R C keys tot (fuzz_init (length keys) keys (Stats_new keys) g w) st" and "fz_waited st < tot"
  shows "gen_rand_client_asserts (fz_flying st) (\<not> fst (gen_call_vs_wait R (fz_called st) tot (fz_flying st) (fz_rng st)))
    \<and> (\<forall>c < length keys. fz_flying st ! c \<longrightarrow>
         (let ts_call = fst (fz_memo st ! c); ts_resp = fz_timestamp st + 1; h = fz_history st
          in add_to_queue_asserts ts_call ts_resp h
             \<and> (\<forall>key resp. apply_update_asserts c ts_call key (add_to_queue ts_call ts_resp resp h))))"
proof (intro conjI allI impI)
  note t = run_ok_total(1,2) [OF assms(2), folded tot]
  from reached_ok [OF assms(1) t fuzz_init_ok [OF assms(2)] calls_ordered_init assms(4)]
  have ok: "loop_ok (length keys) keys tot st" "calls_ordered (length keys) st" by blast+
  let ?call = "fst (gen_call_vs_wait R (fz_called st) tot (fz_flying st) (fz_rng st))"
  have "(\<not> ?call) \<in> set (fz_flying st)"
    by (rule round_client_exists [OF ok(1) assms(5)]) (rule prod.collapse [symmetric])
  then show "gen_rand_client_asserts (fz_flying st) (\<not> ?call)" by (rule wanted_asserts)
  fix c assume c: "c < length keys" "fz_flying st ! c"
  have "counters tot st" using ok(1) by (simp add: loop_ok_def)
  from counters_tick [OF this t(1) assms(5)] have "fz_timestamp st < fz_timestamp st + 1"
    by (simp add: word_less_nat_alt)
  from calls_ordered_asserts [OF ok(2) c this]
  show "let ts_call = fst (fz_memo st ! c); ts_resp = fz_timestamp st + 1; h = fz_history st
    in add_to_queue_asserts ts_call ts_resp h
       \<and> (\<forall>key resp. apply_update_asserts c ts_call key (add_to_queue ts_call ts_resp resp h))"
    by (simp add: Let_def)
qed

theorem debug_asserts_hold_witness:
  "\<exists>st'. fuzz_round round_robin echo_client [[''a'']] 1000 echo_start = Some (Continue st')
    \<and> add_to_queue_asserts (fst (fz_memo st' ! 0)) 2 (fz_history st')
    \<and> apply_update_asserts 0 (fst (fz_memo st' ! 0)) ''a''
        (add_to_queue (fst (fz_memo st' ! 0)) 2 (RPut ''a'' False) (fz_history st'))"
proof -
  obtain st' where r: "fuzz_round round_robin echo_client [[''a'']] 1000 echo_start = Some (Continue st')"
    and st': "fz_flying st' = [True]" "fz_waited st' = 0" "fz_timestamp st' = 1"
    using echo_first_round by blast
  have "fz_waited echo_start < 1000" by (simp add: echo_start_def fuzz_init_def)
  from fuzz_steps.round [OF fuzz_steps.start this r]
  have "fuzz_steps round_robin echo_client [[''a'']] 1000
      (fuzz_init (length [[''a'']]) [[''a'']] (Stats_new [[''a'']]) 0 ()) st'"
    by (simp add: echo_start_def)
  from debug_asserts_hold [OF round_robin_ok echo_run_ok _ this] st' r show ?thesis by (auto simp: Let_def)
qed

end
