(* ===== verification/Service.thy ===== *)
theory Service
  imports Proc
begin

text \<open>
  The service launcher (\<open>runner/src/bin/service/main.rs\<close>): it starts the manager or the server process
  that the node identifier asks for, and waits for it.  Printing is left out.
\<close>

record service_args =
  node_id :: string
  server_just_args :: "string list"
  manager_just_args :: "string list"

text \<open>\<open>str::to_lowercase\<close> on the code points below U+0100, where every lower-case form is one code point.\<close>

definition lowercase :: "char \<Rightarrow> char" where
  "lowercase c =
     (let n = (of_char c :: nat)
      in if 65 \<le> n \<and> n \<le> 90 \<or> 192 \<le> n \<and> n \<le> 222 \<and> n \<noteq> 215 then char_of (n + 32) else c)"

definition to_lowercase :: "string \<Rightarrow> string" where
  "to_lowercase s = map lowercase s"

definition begins :: "char \<Rightarrow> string \<Rightarrow> bool" where
  "begins c s \<longleftrightarrow> s \<noteq> [] \<and> hd s = c"

text \<open>Starting a process and waiting for it, with \<open>?\<close> on both.\<close>

definition launch :: "(string list \<Rightarrow> string + child) \<Rightarrow> string list \<Rightarrow> RunnerError + unit" where
  "launch spawn just_args =
     (case ServerProc_new spawn just_args of Inl e \<Rightarrow> Inl e | Inr server \<Rightarrow> ServerProc_wait server)"

text \<open>
  The main function.  Indexing the empty argument vector panics.  The result also says which command
  was started, if any.
\<close>

definition service_main ::
  "(string list \<Rightarrow> string + child) \<Rightarrow> service_args \<Rightarrow> (string list option \<times> (RunnerError + unit)) rust" where
  "service_main spawn args =
     (if node_id args = [] \<or> (\<not> begins CHR ''s'' (node_id args) \<and> \<not> begins CHR ''m'' (node_id args))
      then Done (None, Inl (Parse (''invalid 'node_id' argument: '' @ node_id args)))
      else if begins CHR ''m'' (node_id args) \<and> manager_just_args args = []
      then Panic ''index out of bounds: the len is 0 but the index is 0''
      else if begins CHR ''m'' (node_id args) \<and> to_lowercase (manager_just_args args ! 0) \<noteq> ''none''
      then Done (Some (manager_just_args args), launch spawn (manager_just_args args))
      else if begins CHR ''s'' (node_id args) \<and> server_just_args args = []
      then Panic ''index out of bounds: the len is 0 but the index is 0''
      else if begins CHR ''s'' (node_id args) \<and> to_lowercase (server_just_args args ! 0) \<noteq> ''none''
      then Done (Some (server_just_args args), launch spawn (server_just_args args))
      else Done (None, Inr ()))"

section \<open>Properties\<close>

text \<open>C36: what the launcher does on every command line.  It exits successfully exactly if the node is a
  manager or a server and its arguments say \<open>none\<close>, in upper or lower case, or the process they name was
  started and exited with success; it panics exactly if the arguments for its kind of node are
  missing, which the command line parser does not require.\<close>

theorem service_main_outcome:
  "(service_main spawn args = Done (started, Inr ()) \<longleftrightarrow>
      (\<exists>just_args.
         (begins CHR ''m'' (node_id args) \<and> just_args = manager_just_args args
           \<or> begins CHR ''s'' (node_id args) \<and> just_args = server_just_args args)
         \<and> just_args \<noteq> []
         \<and> (if to_lowercase (hd just_args) = ''none'' then started = None
            else started = Some just_args
              \<and> (\<exists>h status. spawn just_args = Inr h \<and> ch_wait h = Inr (True, status)))))
   \<and> ((\<exists>m. service_main spawn args = Panic m) \<longleftrightarrow>
        begins CHR ''m'' (node_id args) \<and> manager_just_args args = []
        \<or> begins CHR ''s'' (node_id args) \<and> server_just_args args = [])"
proof (rule conjI)
  have launch: "launch spawn a = Inr () \<longleftrightarrow> (\<exists>h status. spawn a = Inr h \<and> ch_wait h = Inr (True, status))" for a
    by (auto simp: launch_def ServerProc_new_def ServerProc_wait_def split: sum.splits if_splits)
  show "service_main spawn args = Done (started, Inr ()) \<longleftrightarrow>
      (\<exists>just_args.
         (begins CHR ''m'' (node_id args) \<and> just_args = manager_just_args args
           \<or> begins CHR ''s'' (node_id args) \<and> just_args = server_just_args args)
         \<and> just_args \<noteq> []
         \<and> (if to_lowercase (hd just_args) = ''none'' then started = None
            else started = Some just_args
              \<and> (\<exists>h status. spawn just_args = Inr h \<and> ch_wait h = Inr (True, status))))"
    by (auto simp: service_main_def hd_conv_nth launch begins_def)
qed (auto simp: service_main_def begins_def)

end
