(* ===== verification/Spec2Isabelle.thy ===== *)
theory Spec2Isabelle
  imports Bench_System Fuzz_Asserts Service
begin

text \<open>
  A verification library of MadKV, a key-value store and the tools that test and measure it.

  \<^bold>\<open>The program.\<close>  Under \<open>src/madkv\<close> there are four parts.  \<open>kvstore/src\<close> is the store: a C++ gRPC server
  with a sorted map, and a C++ client that turns lines of its standard input into remote calls and
  prints the replies.  \<open>refcli\<close> is a reference client in Rust that keeps the map in its own memory and
  speaks the same line protocol.  \<open>runner\<close> is the Rust library and the three tools that run the clients as
  child processes: the \<open>fuzzer\<close>, which makes random calls through several clients at once and checks the
  responses for linearizability; the \<open>bencher\<close>, which translates the output of YCSB processes into calls
  and measures them; and the \<open>service\<close> launcher.  The runner talks to a client process through a driver
  thread and two channels.

  \<^bold>\<open>The theories,\<close> in the order of the code they model.

  \<^item> \<open>Prelude\<close>: machine integers, panics, what the code uses of Rust's strings, decimal numbers.
  \<^item> \<open>Errors\<close> (\<open>runner/src/error.rs\<close>): the error enum, its texts and conversions.
  \<^item> \<open>Ioapi\<close> (\<open>runner/src/ioapi.rs\<close>): calls, responses, \<open>into_write\<close> and \<open>from_read\<close> on readers and writers.
  \<^item> \<open>Proc\<close> (\<open>runner/src/proc.rs\<close>): \<open>ServerProc\<close>, \<open>ClientProc\<close> and the driver thread, cut where it blocks.
  \<^item> \<open>Ordmap\<close>: the sorted maps the stores rest on; locale \<open>ordered_map\<close>, interpreted as \<open>om\<close> for the
    ascending list of the server and as \<open>bt\<close> for the \<open>BTreeMap\<close> of the reference client, which may not
    have a root yet.
  \<^item> \<open>KvSpec\<close>: what a store promises; locale \<open>kv_object\<close>, interpreted for both stores.
  \<^item> \<open>Refcli\<close> (\<open>refcli/src/main.rs\<close>): parsing, the store, printing and the main loop; interpretation \<open>refcli\<close>.
  \<^item> \<open>KvServer\<close> (\<open>kvstore/src/server.cpp\<close>, \<open>client.cpp\<close>): the handlers and the client; interpretation
    \<open>kvstore\<close>.
  \<^item> \<open>History\<close> and \<open>History_Trim\<close> (\<open>runner/src/bin/fuzzer/history.rs\<close>): the checker, the checker without
    trimming as its reference, and whole runs of acknowledgements.
  \<^item> \<open>Fuzz_Random\<close> (\<open>fuzzer/random.rs\<close>): the random choices over a generator given as a record.
  \<^item> \<open>Fuzzer\<close> (\<open>fuzzer/main.rs\<close>): one round, the loop, the test, the verdict and \<open>main\<close>.
  \<^item> \<open>Linearizable\<close>: the object the fuzzer tests for; locale \<open>lin_env\<close> between the loop and its world.
  \<^item> \<open>Fuzz_Sound\<close>, \<open>Fuzz_Loop\<close>, \<open>Fuzz_Asserts\<close>: the invariant of the checker, of the loop, and the
    assertions of debug builds.
  \<^item> \<open>System\<close>: driver threads, C++ clients and server under an arbitrary schedule; interpretation \<open>kvs\<close> of
    \<open>lin_env\<close>.  A remote call may fail before or after the server has handled it, and its request may
    still be handled after the client has seen the failure.
  \<^item> \<open>F64\<close> and \<open>Bencher\<close> (\<open>bencher/main.rs\<close>): floating-point numbers and the statistics.
  \<^item> \<open>Ycsb\<close> (\<open>bencher/ycsb.rs\<close>): translating lines, the feeder thread, the driver; locale \<open>bench_client\<close>.
  \<^item> \<open>Bench_Main\<close> (\<open>bencher/main.rs\<close>): the two phases and \<open>main\<close>.
  \<^item> \<open>Bench_System\<close>: the feeder thread on the world of \<open>System\<close>; interpretation \<open>kv_bench\<close> of \<open>bench_client\<close>.
  \<^item> \<open>Service\<close> (\<open>service/main.rs\<close>): the launcher.

  \<^bold>\<open>How code corresponds to definitions.\<close>  A struct is a record and an enum a datatype with the names of
  the source; a function or method is a definition of its name (with the name of its type in front where
  several types have one, as in \<open>History_new\<close>), and the body of a long function is cut into definitions
  at its blocks (\<open>fuzz_call\<close>, \<open>fuzz_wait\<close> and \<open>fuzz_progress\<close> of \<open>fuzz_test\<close>).  State is passed explicitly.
  \<open>Result\<close> is a sum with the error on the left; a panic, and undefined behaviour of C++, is \<open>Panic\<close> of
  the type \<open>rust\<close>; not returning is \<open>None\<close> of a \<open>partial_function\<close>.  \<open>u64\<close> and \<open>usize\<close> are 64-bit words
  where the code computes with them, since release builds wrap around; positions in vectors are
  natural numbers.  A \<open>String\<close> has the code points below U+0100.  Hash maps are association lists with
  distinct keys, where it is proved that their order does not matter, and sorted maps and sets are
  ascending lists.

  \<^bold>\<open>What is proved.\<close>
  \<^item> The fuzzer raises no false alarm on the store of the repository, whatever the schedule and whichever
    remote calls fail, and its run ends (\<open>fuzzer_no_false_alarm\<close>).  This rests on three results:
    \<open>world_is_linearizable\<close>, a refinement of the linearizable object by threads, clients and server, event
    by event;
    \<open>acknowledge_sound\<close>, the invariant of the checker; and \<open>fuzz_test_terminates\<close>.
  \<^item> What the checks decide (\<open>single_key_checks\<close>, \<open>scan_check\<close>), which errors of a store they catch
    (\<open>stale_read_caught\<close>, \<open>phantom_value_caught\<close>), which errors no run can report, because the update a
    response belongs to vouches for it (\<open>own_update_vouches\<close>), and that trimming changes no verdict
    (\<open>trimming_preserves_verdicts\<close>).
  \<^item> The bookkeeping of the loop, without wrap-around, and its debug assertions.
  \<^item> Both stores implement the map of \<open>KvSpec\<close>; they differ exactly in the end key of a scan, so that the
    checker rejects the reference client (\<open>refcli_scan_rejected\<close>).
  \<^item> The line protocol: round trips of calls and responses, where they fail, and where reading never ends.
  \<^item> The benchmark: one sample per call line, exact percentiles in spite of rounding, completion, also on
    the store of the repository (\<open>feeder_on_kvstore\<close>), scans of the size YCSB asks for, and where they
    go wrong (\<open>ycsb_scan_zero\<close>, \<open>ycsb_scan_reversed\<close>).
  \<^item> The driver thread loses no call and reports exactly the errors that matter (\<open>driver_keeps_calls\<close>,
    \<open>driver_reports_real_errors\<close>).
  \<^item> When the launcher succeeds and when it panics.

  \<^bold>\<open>Bounds and parameters.\<close>  Every loop that may not end is a \<open>partial_function\<close>, and its termination is a
  theorem; no definition has fuel.  Theorems on the fuzzing loop assume that twice the number of
  operations is below \<open>2 ^ 64\<close>, the size of its timestamps; the theorem on percentiles assumes fewer than
  \<open>2 ^ 40\<close> samples, beyond which the rounding of the index could show.  Parameters of the model are the
  random number generator (\<open>rng_ok\<close> and \<open>rng_fair\<close> state what is assumed of it; \<open>round_robin\<close> satisfies
  both), the operating system that starts processes, the order in which threads and processes move, the
  clock, and the YCSB processes.  Time limits are moments of the schedule: a wait that finds no response
  when it gets its turn has timed out.

  \<^bold>\<open>Not modelled.\<close>  Command line parsing (clap), coloured output, the texts of progress reports and of the
  fuzzer's statistics, sleeping, the set-up of the gRPC server and channel in the two C++ main functions,
  memory exhaustion, strings with code points from U+0100 on and input that is not UTF-8.  The P models
  under \<open>pmodel\<close>, the report generator under \<open>sumgen\<close>, the recipes and the generated protobuf sources are
  not part of the running program.
\<close>

section \<open>The reference client and the checker\<close>

text \<open>C18: the fuzzer's checker rejects a correct run of the reference client: it leaves the end key out of
  a scan, while the checker, like the protocol description and the server, counts it in.  Whenever the
  checker knows the end key of a scan and only updates that write it are visible to the scan, so that the
  key must have a value, the answer of the reference client fails its check.\<close>

theorem refcli_scan_rejected:
  assumes "bt_inv st" and "a \<le> b" and "handle_kv_call (CScan a b) st = Done (r, st')"
    and "(b, ks) \<in> set sp" and "\<forall>cli \<in> set ks. \<not> visible (\<lambda>v. v = None) tc tr cli"
  shows "\<not> check_call sp \<lparr>qs_call = tc, qs_resp = tr, qs_kvresp = r\<rparr>"
proof -
  obtain es where r: "r = RScan a b es" and es: "map_of es = bt_get st |` {k. half_open_range a b k}"
    using refcli.step_resp [OF assms(1,3)] by auto
  have "map_of es b = None" by (simp add: es half_open_range_def)
  then have "\<not> check_get ks tc tr (map_of es b)" using assms(5) by (simp add: check_visible)
  with assms(2,4) have "\<not> check_scan sp tc tr a b es" by (auto simp: check_scan_iff)
  then show ?thesis by (simp add: check_call_def r)
qed

theorem refcli_scan_rejected_witness:
  "\<not> check_call [(''b'', [[dummy_span, \<lparr>us_call = 1, us_resp = 2, us_value = Some ''v''\<rparr>]])]
     \<lparr>qs_call = 3, qs_resp = 4, qs_kvresp = RScan ''a'' ''b'' []\<rparr>"
proof (rule refcli_scan_rejected)
  show "bt_inv (Root [(''b'', ''v'')])" by (simp add: bt_inv_def om_inv_def)
  show "handle_kv_call (CScan ''a'' ''b'') (Root [(''b'', ''v'')]) = Done (RScan ''a'' ''b'' [], Root [(''b'', ''v'')])"
    by (simp add: om_select_def half_open_range_def)
  let ?cli = "[dummy_span] @ [\<lparr>us_call = 1, us_resp = 2, us_value = Some ''v''\<rparr>]"
  have "\<not> visible (\<lambda>v. v = None) 3 4 ?cli" by (simp only: visible_snoc) simp
  then show "\<forall>cli \<in> set [[dummy_span, \<lparr>us_call = 1, us_resp = 2, us_value = Some ''v''\<rparr>]].
      \<not> visible (\<lambda>v. v = None) 3 4 cli" by simp
qed simp_all

section \<open>The benchmark and the server\<close>

text \<open>C19: on a store that holds exactly the inserted keys, the scan of a YCSB line is answered by the server
  with as many entries as the line asks for, or with all keys from the start key on if there are fewer.\<close>

theorem ycsb_scan_answered:
  assumes line: "split_whitespace line = ''SCAN'' # table # key # n # rest" "parse_usize n = Inr scnt" "0 < scnt"
    and st: "om_inv st" "map fst st = ikeys"
    and "k \<in> set ikeys" "table @ ''_'' @ key \<le> k"
  shows "\<exists>b es. interpret_ycsb_call line ikeys = Inr (Some (CScan (table @ ''_'' @ key) b, ''SCAN''), ikeys)
    \<and> kvstore_call (CScan (table @ ''_'' @ key) b) st = Done (RScan (table @ ''_'' @ key) b es, st)
    \<and> length es = min (unat scnt) (length (filter (\<lambda>k. table @ ''_'' @ key \<le> k) ikeys))"
proof (intro exI conjI)
  let ?a = "table @ ''_'' @ key"
  let ?b = "scan_end ikeys ?a scnt"
  let ?es = "om_select (closed_range ?a ?b) st"
  have ikeys: "sorted_wrt (<) ikeys" "ikeys \<noteq> []" using st assms(6) by (auto simp: om_inv_def)
  show "interpret_ycsb_call line ikeys = Inr (Some (CScan ?a ?b, ''SCAN''), ikeys)"
    using line ikeys(2) by (simp add: interpret_ycsb_call_def)
  have "?a \<le> ?b" using scan_end_ordered [OF ikeys(1) assms(6,7)] .
  then show "kvstore_call (CScan ?a ?b) st = Done (RScan ?a ?b ?es, st)"
    using scan_range [OF st(1)] by (simp add: kvstore_call_def)
  have "length ?es = length (filter (\<lambda>k. ?a \<le> k \<and> k \<le> ?b) (map fst st))"
    by (simp add: om_select_def closed_range_def filter_map comp_def)
  then show "length ?es = min (unat scnt) (length (filter (\<lambda>k. ?a \<le> k) ikeys))"
    using scan_end_covers [OF ikeys line(3)] st(2) by simp
qed

theorem ycsb_scan_answered_witness:
  "\<exists>b es. interpret_ycsb_call ''SCAN t k2 2 [ ]'' [''t_k1'', ''t_k2'', ''t_k3'', ''t_k4'']
       = Inr (Some (CScan (''t'' @ ''_'' @ ''k2'') b, ''SCAN''), [''t_k1'', ''t_k2'', ''t_k3'', ''t_k4''])
     \<and> kvstore_call (CScan (''t'' @ ''_'' @ ''k2'') b) [(''t_k1'', ''a''), (''t_k2'', ''b''), (''t_k3'', ''c''), (''t_k4'', ''d'')]
       = Done (RScan (''t'' @ ''_'' @ ''k2'') b es, [(''t_k1'', ''a''), (''t_k2'', ''b''), (''t_k3'', ''c''), (''t_k4'', ''d'')])
     \<and> length es = min (unat (2 :: usize)) (length (filter (\<lambda>k. ''t'' @ ''_'' @ ''k2'' \<le> k) [''t_k1'', ''t_k2'', ''t_k3'', ''t_k4'']))"
proof (rule ycsb_scan_answered)
  show "split_whitespace ''SCAN t k2 2 [ ]'' = ''SCAN'' # ''t'' # ''k2'' # ''2'' # [''['', '']'']" by code_simp
  show "parse_usize ''2'' = Inr 2" by (simp add: parse_usize_def is_digit_def)
  show "om_inv [(''t_k1'', ''a''), (''t_k2'', ''b''), (''t_k3'', ''c''), (''t_k4'', ''d'')]" by code_simp
  show "''t_k2'' \<in> set [''t_k1'', ''t_k2'', ''t_k3'', ''t_k4'']" by simp
qed simp_all

text \<open>C35: a YCSB line that asks for a scan of no keys gets the largest scan there is: \<open>scnt - 1\<close> wraps around
  to the largest \<open>usize\<close>, no key has that position, and the scan ends at the last inserted key.  On a store
  that holds exactly the inserted keys, the server answers with every key from the start key on.\<close>

theorem ycsb_scan_zero:
  assumes line: "split_whitespace line = ''SCAN'' # table # key # n # rest" "parse_usize n = Inr 0"
    and st: "om_inv st" "map fst st = ikeys" and "length ikeys < 2 ^ 64"
    and "k \<in> set ikeys" "table @ ''_'' @ key \<le> k"
  shows "interpret_ycsb_call line ikeys = Inr (Some (CScan (table @ ''_'' @ key) (last ikeys), ''SCAN''), ikeys)
    \<and> kvstore_call (CScan (table @ ''_'' @ key) (last ikeys)) st =
        Done (RScan (table @ ''_'' @ key) (last ikeys) (filter (\<lambda>kv. table @ ''_'' @ key \<le> fst kv) st), st)"
proof
  let ?a = "table @ ''_'' @ key"
  have ikeys: "sorted_wrt (<) ikeys" "ikeys \<noteq> []" using st assms(6) by (auto simp: om_inv_def)
  have "length (filter (\<lambda>k. ?a \<le> k) ikeys) \<le> length ikeys" by (rule length_filter_le)
  moreover have "unat (- 1 :: usize) = 2 ^ 64 - 1"
    by (simp add: unsigned_minus_1_eq_mask mask_eq_exp_minus_1)
  ultimately have "\<not> unat (- 1 :: usize) < length (filter (\<lambda>k. ?a \<le> k) ikeys)" using assms(5) by linarith
  then have stop: "scan_end ikeys ?a 0 = last ikeys" by (simp add: scan_end_def)
  then show "interpret_ycsb_call line ikeys = Inr (Some (CScan ?a (last ikeys), ''SCAN''), ikeys)"
    using line ikeys(2) by (simp add: interpret_ycsb_call_def)
  have "?a \<le> last ikeys" using scan_end_ordered [OF ikeys(1) assms(6,7), of 0] stop by simp
  moreover have "fst kv \<le> last ikeys" if "kv \<in> set st" for kv
    using le_last [OF ikeys(1), of "fst kv"] that st(2) by auto
  ultimately show "kvstore_call (CScan ?a (last ikeys)) st =
      Done (RScan ?a (last ikeys) (filter (\<lambda>kv. ?a \<le> fst kv) st), st)"
    using scan_range [OF st(1), of ?a "last ikeys"]
    by (auto simp: kvstore_call_def om_select_def closed_range_def intro: filter_cong)
qed

theorem ycsb_scan_zero_witness:
  "kvstore_call (CScan (''t'' @ ''_'' @ ''k2'') ''t_k3'') [(''t_k1'', ''a''), (''t_k2'', ''b''), (''t_k3'', ''c'')] =
     Done (RScan (''t'' @ ''_'' @ ''k2'') ''t_k3'' [(''t_k2'', ''b''), (''t_k3'', ''c'')],
       [(''t_k1'', ''a''), (''t_k2'', ''b''), (''t_k3'', ''c'')])"
proof -
  let ?st = "[(''t_k1'', ''a''), (''t_k2'', ''b''), (''t_k3'', ''c'')]" and ?ikeys = "[''t_k1'', ''t_k2'', ''t_k3'']"
  have "split_whitespace ''SCAN t k2 0 [ ]'' = ''SCAN'' # ''t'' # ''k2'' # ''0'' # [''['', '']'']" by code_simp
  moreover have "parse_usize ''0'' = Inr 0" by (simp add: parse_usize_def is_digit_def)
  moreover have "om_inv ?st" by code_simp
  ultimately show ?thesis using ycsb_scan_zero [of _ "''t''" "''k2''" "''0''" _ ?st ?ikeys "''t_k2''"] by simp
qed

end
